(* ===== verification/Prelude.thy ===== *)
theory Prelude
  imports Main "HOL-Library.AList" "HOL-Library.List_Lexorder" "HOL-Library.Char_ord"

begin

text \<open>
  The shared base of the development: Go strings (lists of bytes, so \<open>string\<close> with its
  bytewise order), the few functions of Go's \<open>strings\<close>, \<open>strconv\<close> and \<open>fmt\<close>
  packages that the modelled code calls, dictionaries for Go maps, the result type of a
  fallible operation, 64-bit signed wrap-around and instants of time. The lemmas here are
  the generic facts on lists and dictionaries that the component theories share.

  The ASCII case of \<open>strings.ToUpper\<close>, \<open>strings.ToLower\<close> and \<open>strings.TrimSpace\<close>
  is modelled; the code applies them to ids and id prefixes, which are ASCII.
\<close>

named_theorems dict_simps \<open>lookups and keys of dictionaries after an update or a delete\<close>
named_theorems str_defs \<open>definitions of the byte-string functions, for evaluation\<close>

section \<open>Results\<close>

text \<open>A Go function that returns \<open>(value, error)\<close> and may also panic.\<close>

datatype (dead 'e, dead 'a) outcome = Ok 'a | Fail 'e | Panic

fun bind_out :: "('e, 'a) outcome \<Rightarrow> ('a \<Rightarrow> ('e, 'b) outcome) \<Rightarrow> ('e, 'b) outcome" where
  "bind_out (Ok x) f = f x"
| "bind_out (Fail e) f = Fail e"
| "bind_out Panic f = Panic"

text \<open>A nil-pointer, missing-key or index panic as an option.\<close>

fun panic_none :: "'a option \<Rightarrow> ('e, 'a) outcome" where
  "panic_none None = Panic"
| "panic_none (Some x) = Ok x"

lemma bind_out_Ok: "bind_out m f = Ok y \<longleftrightarrow> (\<exists>x. m = Ok x \<and> f x = Ok y)"
  by (cases m) auto

lemma panic_none_Ok: "panic_none o1 = Ok x \<longleftrightarrow> o1 = Some x"
  by (cases o1) auto

section \<open>Bytes\<close>

definition code :: "char \<Rightarrow> nat" where
  "code c = of_char c"

definition is_digit :: "char \<Rightarrow> bool" where
  "is_digit c \<longleftrightarrow> 48 \<le> code c \<and> code c \<le> 57"

definition is_upper :: "char \<Rightarrow> bool" where
  "is_upper c \<longleftrightarrow> 65 \<le> code c \<and> code c \<le> 90"

definition is_lower :: "char \<Rightarrow> bool" where
  "is_lower c \<longleftrightarrow> 97 \<le> code c \<and> code c \<le> 122"

definition is_letter :: "char \<Rightarrow> bool" where
  "is_letter c \<longleftrightarrow> is_upper c \<or> is_lower c"

definition is_control :: "char \<Rightarrow> bool" where
  "is_control c \<longleftrightarrow> code c < 32 \<or> code c = 127"

definition is_space :: "char \<Rightarrow> bool" where
  "is_space c \<longleftrightarrow> code c = 32 \<or> (9 \<le> code c \<and> code c \<le> 13)"

definition up :: "char \<Rightarrow> char" where
  "up c = (if is_lower c then char_of (code c - 32) else c)"

definition low :: "char \<Rightarrow> char" where
  "low c = (if is_upper c then char_of (code c + 32) else c)"

lemmas [str_defs] = code_def is_digit_def is_upper_def is_lower_def is_letter_def is_control_def
  is_space_def up_def low_def

lemma code_inject: "code a = code b \<longleftrightarrow> a = b"
  by (metis code_def char_of_char)

lemma code_lt_256: "code c < 256"
  by (simp add: code_def)

lemma code_char_of: "n < 256 \<Longrightarrow> code (char_of n) = n"
  by (simp add: code_def)

lemma code_up: "code (up c) = (if is_lower c then code c - 32 else code c)"
  using code_lt_256 [of c] by (auto simp: up_def is_lower_def code_char_of)

lemma code_low: "code (low c) = (if is_upper c then code c + 32 else code c)"
  using code_lt_256 [of c] by (auto simp: low_def is_upper_def code_char_of)

lemma up_up: "up (up c) = up c"
  by (rule code_inject [THEN iffD1]) (auto simp: code_up is_lower_def)

lemma low_low: "low (low c) = low c"
  by (rule code_inject [THEN iffD1]) (auto simp: code_low is_upper_def)

lemma low_up: "low (up c) = low c"
  by (rule code_inject [THEN iffD1]) (auto simp: code_low code_up is_upper_def is_lower_def)

lemma up_low: "up (low c) = up c"
  by (rule code_inject [THEN iffD1]) (auto simp: code_low code_up is_upper_def is_lower_def)

lemma low_eq_up_iff: "low a = low b \<longleftrightarrow> up a = up b"
  by (metis low_up up_low)

section \<open>Functions of Go's strings package\<close>

definition to_upper :: "string \<Rightarrow> string" where
  "to_upper s = map up s"

definition to_lower :: "string \<Rightarrow> string" where
  "to_lower s = map low s"

definition has_prefix :: "string \<Rightarrow> string \<Rightarrow> bool" where
  "has_prefix s p \<longleftrightarrow> take (length p) s = p"

definition has_suffix :: "string \<Rightarrow> string \<Rightarrow> bool" where
  "has_suffix s p \<longleftrightarrow> has_prefix (rev s) (rev p)"

definition trim_suffix :: "string \<Rightarrow> string \<Rightarrow> string" where
  "trim_suffix s p = (if has_suffix s p then take (length s - length p) s else s)"

definition trim_space :: "string \<Rightarrow> string" where
  "trim_space s = rev (dropWhile is_space (rev (dropWhile is_space s)))"

fun contains :: "string \<Rightarrow> string \<Rightarrow> bool" where
  "contains [] p \<longleftrightarrow> p = []"
| "contains (c # s) p \<longleftrightarrow> has_prefix (c # s) p \<or> contains s p"

text \<open>\<open>strings.Cut\<close> at a one-byte separator: before, after, found.\<close>

definition cut :: "char \<Rightarrow> string \<Rightarrow> string \<times> string \<times> bool" where
  "cut c s = (takeWhile (\<lambda>x. x \<noteq> c) s, drop 1 (dropWhile (\<lambda>x. x \<noteq> c) s), c \<in> set s)"

text \<open>\<open>strings.Compare\<close>, and Go's \<open><\<close> on strings: bytewise lexicographic.\<close>

definition str_compare :: "string \<Rightarrow> string \<Rightarrow> int" where
  "str_compare a b = (if a = b then 0 else if a < b then -1 else 1)"

lemmas [str_defs] = to_upper_def to_lower_def has_prefix_def has_suffix_def trim_suffix_def
  trim_space_def cut_def

lemma length_to_upper [simp]: "length (to_upper s) = length s"
  by (simp add: to_upper_def)

lemma to_upper_append [simp]: "to_upper (s @ t) = to_upper s @ to_upper t"
  by (simp add: to_upper_def)

lemma to_upper_idem [simp]: "to_upper (to_upper s) = to_upper s"
  by (simp add: to_upper_def up_up)

lemma to_lower_append [simp]: "to_lower (s @ t) = to_lower s @ to_lower t"
  by (simp add: to_lower_def)

lemma to_lower_eq_iff: "to_lower s = to_lower t \<longleftrightarrow> to_upper s = to_upper t"
proof -
  have "list_all2 (\<lambda>a b. low a = low b) s t \<longleftrightarrow> list_all2 (\<lambda>a b. up a = up b) s t"
    by (simp add: low_eq_up_iff)
  then show ?thesis
    unfolding to_lower_def to_upper_def
    by (simp add: list_eq_iff_nth_eq list_all2_conv_all_nth) (metis nth_map)
qed

lemma has_prefix_simps [simp]:
  "has_prefix s []"
  "\<not> has_prefix [] (d # p)"
  "has_prefix (c # s) (d # p) \<longleftrightarrow> c = d \<and> has_prefix s p"
  by (auto simp: has_prefix_def)

lemma has_prefix_append [simp]: "has_prefix (p @ s) p"
  by (simp add: has_prefix_def)

lemma has_prefix_iff: "has_prefix s p \<longleftrightarrow> (\<exists>t. s = p @ t)"
  unfolding has_prefix_def by (metis append_eq_conv_conj append_take_drop_id)

lemma has_suffix_iff: "has_suffix s p \<longleftrightarrow> (\<exists>t. s = t @ p)"
  unfolding has_suffix_def has_prefix_iff by (metis rev_append rev_rev_ident)

lemma contains_iff: "contains s p \<longleftrightarrow> (\<exists>a b. s = a @ p @ b)"
proof (induction s)
  case Nil
  then show ?case by simp
next
  case (Cons c s)
  have "(\<exists>a b. c # s = a @ p @ b) \<longleftrightarrow> (\<exists>b. c # s = p @ b) \<or> (\<exists>a b. s = a @ p @ b)"
    by (metis append_Cons append_Nil list.exhaust list.sel(3))
  with Cons show ?case by (simp add: has_prefix_iff)
qed

lemma cut_no_sep: "c \<notin> set s \<Longrightarrow> cut c s = (s, [], False)"
  by (induction s) (auto simp: cut_def)

lemma cut_at: "c \<notin> set s \<Longrightarrow> cut c (s @ c # t) = (s, t, True)"
  unfolding cut_def by (induction s) auto

lemma str_compare_eq_0 [simp]: "str_compare a b = 0 \<longleftrightarrow> a = b"
  by (simp add: str_compare_def)

lemma str_compare_neg: "str_compare a b < 0 \<longleftrightarrow> a < b"
  by (auto simp: str_compare_def)

lemma str_compare_sym: "str_compare b a = - str_compare a b"
  by (auto simp: str_compare_def)

section \<open>Decimal numbers and 64-bit integers\<close>

definition digit_char :: "nat \<Rightarrow> char" where
  "digit_char d = char_of (48 + d)"

definition digit_val :: "char \<Rightarrow> nat" where
  "digit_val c = code c - 48"

fun show_nat :: "nat \<Rightarrow> string" where
  "show_nat n = (if n < 10 then [digit_char n] else show_nat (n div 10) @ [digit_char (n mod 10)])"

declare show_nat.simps [simp del]

definition read_nat :: "string \<Rightarrow> nat" where
  "read_nat s = foldl (\<lambda>a c. 10 * a + digit_val c) 0 s"

text \<open>\<open>strconv.Atoi\<close> on a non-empty run of digits: an error past the largest \<open>int64\<close>.\<close>

definition atoi :: "string \<Rightarrow> int option" where
  "atoi s = (if int (read_nat s) \<le> 2 ^ 63 - 1 then Some (int (read_nat s)) else None)"

text \<open>Go's \<open>int\<close> and \<open>int64\<close> wrap around.\<close>

definition wrap64 :: "int \<Rightarrow> int" where
  "wrap64 x = (x + 2 ^ 63) mod 2 ^ 64 - 2 ^ 63"

text \<open>\<open>fmt.Sprintf("%0*d", w, n)\<close>: the width counts the sign.\<close>

definition fmt_padded :: "nat \<Rightarrow> int \<Rightarrow> string" where
  "fmt_padded w n =
     (let body = show_nat (nat \<bar>n\<bar>)
      in if n < 0 then CHR ''-'' # replicate (w - 1 - length body) (CHR ''0'') @ body
         else replicate (w - length body) (CHR ''0'') @ body)"

lemma wrap64_id: "- (2 ^ 63) \<le> x \<Longrightarrow> x < 2 ^ 63 \<Longrightarrow> wrap64 x = x"
  by (simp add: wrap64_def)

lemma code_digit_char: "d < 10 \<Longrightarrow> code (digit_char d) = 48 + d"
  by (simp add: digit_char_def code_char_of)

lemma is_digit_digit_char: "d < 10 \<Longrightarrow> is_digit (digit_char d)"
  by (simp add: is_digit_def code_digit_char)

lemma digit_val_digit_char: "d < 10 \<Longrightarrow> digit_val (digit_char d) = d"
  by (simp add: digit_val_def code_digit_char)

lemma show_nat_digits: "list_all is_digit (show_nat n)"
proof (induction n rule: show_nat.induct)
  case (1 n)
  then show ?case by (cases "n < 10") (simp_all add: show_nat.simps [of n] is_digit_digit_char)
qed

lemma show_nat_nonempty [simp]: "show_nat n \<noteq> []"
  by (subst show_nat.simps) simp

lemma read_nat_append1: "read_nat (s @ [c]) = 10 * read_nat s + digit_val c"
  by (simp add: read_nat_def)

lemma read_nat_show_nat [simp]: "read_nat (show_nat n) = n"
proof (induction n rule: show_nat.induct)
  case (1 n)
  show ?case
  proof (cases "n < 10")
    case True
    then show ?thesis by (simp add: show_nat.simps [of n] read_nat_def digit_val_digit_char)
  next
    case False
    with 1 show ?thesis
      by (simp add: show_nat.simps [of n] read_nat_append1 digit_val_digit_char)
  qed
qed

lemma read_nat_zeros: "read_nat (replicate k (CHR ''0'') @ s) = read_nat s"
proof (induction k)
  case (Suc k)
  have "digit_val (CHR ''0'') = 0" by (simp add: digit_val_def code_def)
  with Suc show ?case by (simp add: read_nat_def)
qed simp

lemma fmt_padded_nonneg:
  assumes "0 \<le> n"
  shows "list_all is_digit (fmt_padded w n)" and "fmt_padded w n \<noteq> []"
    and "int (read_nat (fmt_padded w n)) = n"
proof -
  have z: "is_digit (CHR ''0'')" by (simp add: is_digit_def code_def)
  have eq: "fmt_padded w n =
      replicate (w - length (show_nat (nat n))) (CHR ''0'') @ show_nat (nat n)"
    using assms by (simp add: fmt_padded_def Let_def)
  show "list_all is_digit (fmt_padded w n)"
    using z show_nat_digits [of "nat n"] by (auto simp: eq list_all_iff)
  show "fmt_padded w n \<noteq> []" by (simp add: eq)
  show "int (read_nat (fmt_padded w n)) = n"
    using assms by (simp add: eq read_nat_zeros)
qed

end
