(* ===== verification/Natsort.thy ===== *)
theory Natsort
  imports Prelude "HOL-Library.Product_Lexorder"
begin

text \<open>
  Natural ordering of strings, from \<^verbatim>\<open>internal/natsort/natsort.go\<close>: digit runs compare as
  numbers, text ignores case, and case breaks ties. The positions \<open>ia\<close> and \<open>ib\<close> of the code
  are the suffixes of the two strings still to be read. The lemmas show that \<open>Compare\<close> is the
  three-way comparison of a linear order (a key of tokens, then the string itself), so that
  \<open>sort.Slice\<close> may be called with it, and that embedded numbers compare by value.
\<close>

section \<open>The comparison\<close>

definition compare_text_char :: "char \<Rightarrow> char \<Rightarrow> int" where
  "compare_text_char ca cb =
     (if code (low ca) < code (low cb) then -1
      else if code (low ca) > code (low cb) then 1 else 0)"

definition case_diff :: "char \<Rightarrow> char \<Rightarrow> int" where
  "case_diff ca cb = (if code ca < code cb then -1 else if code ca > code cb then 1 else 0)"

definition digit_vs_text :: "bool \<Rightarrow> int" where
  "digit_vs_text aIsDigit = (if aIsDigit then -1 else 1)"

definition compare_remaining :: "nat \<Rightarrow> nat \<Rightarrow> int \<Rightarrow> int" where
  "compare_remaining remA remB caseTiebreak =
     (if remA < remB then -1 else if remA > remB then 1 else caseTiebreak)"

text \<open>\<open>skipZeros\<close>: the zeros skipped and the rest; \<open>scanDigits\<close>: the digits and the rest.\<close>

fun skip_zeros :: "string \<Rightarrow> nat \<times> string" where
  "skip_zeros [] = (0, [])"
| "skip_zeros (c # s) =
     (if c = CHR ''0'' then (let (n, r) = skip_zeros s in (Suc n, r)) else (0, c # s))"

fun scan_digits :: "string \<Rightarrow> string \<times> string" where
  "scan_digits [] = ([], [])"
| "scan_digits (c # s) =
     (if is_digit c then (let (ds, r) = scan_digits s in (c # ds, r)) else ([], c # s))"

text \<open>The digit-by-digit comparison of two runs of the same length.\<close>

fun compare_digits :: "string \<Rightarrow> string \<Rightarrow> int" where
  "compare_digits (c # s) (d # t) =
     (if c \<noteq> d then if code c < code d then -1 else 1 else compare_digits s t)"
| "compare_digits _ _ = 0"

definition compare_num_chunks :: "string \<Rightarrow> string \<Rightarrow> int \<times> string \<times> string" where
  "compare_num_chunks a b =
     (let (zerosA, a1) = skip_zeros a; (zerosB, b1) = skip_zeros b;
          (sigA, a2) = scan_digits a1; (sigB, b2) = scan_digits b1 in
      (if length sigA \<noteq> length sigB then if length sigA < length sigB then -1 else 1
       else if compare_digits sigA sigB \<noteq> 0 then compare_digits sigA sigB
       else if zerosA \<noteq> zerosB then if zerosA < zerosB then -1 else 1
       else 0, a2, b2))"

lemma skip_zeros_eq:
  "skip_zeros s = (length (takeWhile (\<lambda>c. c = CHR ''0'') s), dropWhile (\<lambda>c. c = CHR ''0'') s)"
  by (induction s) auto

lemma scan_digits_eq: "scan_digits s = (takeWhile is_digit s, dropWhile is_digit s)"
  by (induction s) auto

lemma is_digit_zero: "is_digit (CHR ''0'')"
  by (simp add: str_defs)

lemma dropWhile_zeros_digits:
  "dropWhile is_digit (dropWhile (\<lambda>c. c = CHR ''0'') s) = dropWhile is_digit s"
  by (induction s) (auto simp: is_digit_zero)

lemma compare_num_chunks_rest:
  "compare_num_chunks a b = (c, a2, b2) \<Longrightarrow> a2 = dropWhile is_digit a \<and> b2 = dropWhile is_digit b"
  by (auto simp: compare_num_chunks_def skip_zeros_eq scan_digits_eq dropWhile_zeros_digits Let_def)

function compare_loop :: "string \<Rightarrow> string \<Rightarrow> int \<Rightarrow> int" where
  "compare_loop [] b tie = compare_remaining 0 (length b) tie"
| "compare_loop (ca # a) [] tie = compare_remaining (length (ca # a)) 0 tie"
| "compare_loop (ca # a) (cb # b) tie =
     (if is_digit ca \<and> is_digit cb then
        (case compare_num_chunks (ca # a) (cb # b) of (c, a2, b2) \<Rightarrow>
           if c \<noteq> 0 then c else compare_loop a2 b2 tie)
      else if \<not> is_digit ca \<and> \<not> is_digit cb then
        (if compare_text_char ca cb \<noteq> 0 then compare_text_char ca cb
         else compare_loop a b (if tie = 0 then case_diff ca cb else tie))
      else digit_vs_text (is_digit ca))"
  by pat_completeness auto
termination
proof (relation "measure (\<lambda>(a, b, tie). length a)", goal_cases)
  case (2 ca a cb b tie x p a2 b2)
  then have "compare_num_chunks (ca # a) (cb # b) = (x, a2, b2)" by metis
  from compare_num_chunks_rest [OF this] 2(1) have "a2 = dropWhile is_digit a" by simp
  then show ?case using length_dropWhile_le [of is_digit a] by simp
qed simp_all

definition compare :: "string \<Rightarrow> string \<Rightarrow> int" where
  "compare a b = compare_loop a b 0"

definition less :: "string \<Rightarrow> string \<Rightarrow> bool" where
  "less a b \<longleftrightarrow> compare a b < 0"

section \<open>The key of a string\<close>

text \<open>
  The tokens of a string: a digit run gives the number of its significant digits, the digits and
  the number of leading zeros, behind a 0; a text byte gives its lower case, behind a 1.
\<close>

definition num_token :: "string \<Rightarrow> nat list" where
  "num_token ds =
     (let sig = dropWhile (\<lambda>c. c = CHR ''0'') ds
      in 0 # length sig # map code sig @ [length ds - length sig])"

function tokens :: "string \<Rightarrow> nat list list" where
  "tokens [] = []"
| "tokens (c # s) =
     (if is_digit c then num_token (c # takeWhile is_digit s) # tokens (dropWhile is_digit s)
      else [1, code (low c)] # tokens s)"
  by pat_completeness auto
termination
  by (relation "measure length") (simp_all add: length_dropWhile_le le_imp_less_Suc)

definition three_way :: "'a::linorder \<Rightarrow> 'a \<Rightarrow> int" where
  "three_way x y = (if x < y then -1 else if y < x then 1 else 0)"

lemma compare_digits_map:
  "length s = length t \<Longrightarrow> compare_digits s t = three_way (map code s) (map code t)"
proof (induction s t rule: list_induct2)
  case (Cons c s d t)
  have "c = d \<or> code c < code d \<or> code d < code c" using code_inject by (metis nat_neq_iff)
  with Cons show ?case by (auto simp: three_way_def)
qed (simp add: three_way_def)

lemma takeWhile_zeros_digits:
  "takeWhile is_digit (dropWhile (\<lambda>c. c = CHR ''0'') s)
     = dropWhile (\<lambda>c. c = CHR ''0'') (takeWhile is_digit s)"
  by (induction s) (auto simp: is_digit_zero)

lemma length_zeros:
  "length (takeWhile (\<lambda>c. c = CHR ''0'') s)
     = length (takeWhile is_digit s) - length (dropWhile (\<lambda>c. c = CHR ''0'') (takeWhile is_digit s))"
proof -
  have "takeWhile (\<lambda>c. c = CHR ''0'') s = takeWhile (\<lambda>c. c = CHR ''0'') (takeWhile is_digit s)"
    by (induction s) (auto simp: is_digit_zero)
  moreover have "length (takeWhile P xs) = length xs - length (dropWhile P xs)" for P :: "char \<Rightarrow> bool" and xs
    by (metis add_diff_cancel_right' length_append takeWhile_dropWhile_id)
  ultimately show ?thesis by metis
qed

lemma append_less_same_length:
  fixes x y :: "nat list"
  assumes "length x = length y"
  shows "x @ [m] < y @ [n] \<longleftrightarrow> x < y \<or> x = y \<and> m < n"
  using assms by (induction x y rule: list_induct2) auto

lemma num_token_less:
  "num_token s < num_token t \<longleftrightarrow>
     (let u = dropWhile (\<lambda>c. c = CHR ''0'') s; v = dropWhile (\<lambda>c. c = CHR ''0'') t in
      length u < length v \<or>
      length u = length v \<and> (map code u < map code v \<or>
        map code u = map code v \<and> length s - length u < length t - length v))"
  by (auto simp: num_token_def Let_def append_less_same_length)

lemma compare_num_chunks_token:
  "fst (compare_num_chunks a b) = three_way (num_token (takeWhile is_digit a)) (num_token (takeWhile is_digit b))"
proof -
  let ?z = "\<lambda>c. c = CHR ''0''"
  define s t where "s = takeWhile is_digit a" and "t = takeWhile is_digit b"
  define u v where "u = dropWhile ?z s" and "v = dropWhile ?z t"
  have "fst (compare_num_chunks a b) =
      (if length u \<noteq> length v then if length u < length v then -1 else 1
       else if compare_digits u v \<noteq> 0 then compare_digits u v
       else if length s - length u \<noteq> length t - length v
       then if length s - length u < length t - length v then -1 else 1 else 0)"
    by (simp add: compare_num_chunks_def skip_zeros_eq scan_digits_eq takeWhile_zeros_digits
        length_zeros s_def t_def u_def v_def)
  also have "\<dots> = three_way (num_token s) (num_token t)"
  proof (cases "length u = length v")
    case False
    then show ?thesis
      by (simp add: three_way_def num_token_less Let_def flip: u_def v_def)
  next
    case True
    then show ?thesis
      unfolding three_way_def num_token_less Let_def u_def [symmetric] v_def [symmetric]
        compare_digits_map [OF True]
      by (cases rule: linorder_cases [of "map code u" "map code v"]) simp_all
  qed
  finally show ?thesis by (simp add: s_def t_def)
qed

lemma num_token_inject:
  assumes "num_token s = num_token t"
  shows "s = t"
proof -
  let ?z = "\<lambda>c. c = CHR ''0''"
  have eq: "map code (dropWhile ?z s) = map code (dropWhile ?z t)"
    and len: "length s - length (dropWhile ?z s) = length t - length (dropWhile ?z t)"
    using assms by (auto simp: num_token_def Let_def)
  have d: "dropWhile ?z s = dropWhile ?z t"
    using eq by (simp add: inj_map_eq_map inj_def code_inject)
  have tk: "takeWhile ?z xs = replicate (length xs - length (dropWhile ?z xs)) (CHR ''0'')" for xs :: string
    by (induction xs) (auto simp: length_dropWhile_le Suc_diff_le)
  show "s = t"
    using takeWhile_dropWhile_id [of ?z s] takeWhile_dropWhile_id [of ?z t] tk [of s] tk [of t] d len by metis
qed

lemma str_less_code: "a < b \<longleftrightarrow> code a < code b"
  by (simp add: code_def less_char_def)

section \<open>Compare is the comparison of a linear order\<close>

definition nat_key :: "string \<Rightarrow> nat list list \<times> string" where
  "nat_key s = (tokens s, s)"

lemma three_way_Cons: "x \<noteq> y \<Longrightarrow> three_way (x # s) (y # t) = three_way x y"
  by (auto simp: three_way_def)

lemma three_way_Cons_same: "three_way (x # s) (x # t) = three_way s t"
  by (auto simp: three_way_def)

lemma num_token_hd: "hd (num_token s) = 0 \<and> num_token s \<noteq> []"
  by (simp add: num_token_def Let_def)

lemma num_token_less_text: "num_token s < [1, n]" and "\<not> [1, n] < num_token s"
  by (auto simp: num_token_def Let_def)

lemma case_diff_three_way: "case_diff c d = three_way c d"
  by (simp add: case_diff_def three_way_def str_less_code)

lemma compare_text_char_three_way: "compare_text_char c d = three_way [1, code (low c)] [1, code (low d)]"
  by (simp add: compare_text_char_def three_way_def)

lemma three_way_append_same: "three_way (p @ s) (p @ t) = three_way s t" for p s t :: string
  by (induction p) (simp_all add: three_way_Cons_same)

lemma three_way_0: "three_way x y = 0 \<longleftrightarrow> x = y"
  by (auto simp: three_way_def)

lemma compare_loop_key:
  "compare_loop a b tie =
     (if tokens a \<noteq> tokens b then three_way (tokens a) (tokens b)
      else if tie \<noteq> 0 then tie else three_way a b)"
proof (induction a b tie rule: compare_loop.induct)
  case (1 b tie)
  show ?case
    by (cases b) (auto simp: compare_remaining_def three_way_def)
next
  case (2 ca a tie)
  show ?case by (auto simp: compare_remaining_def three_way_def)
next
  case (3 ca a cb b tie)
  show ?case
  proof (cases "is_digit ca \<and> is_digit cb")
    case True
    let ?s = "takeWhile is_digit (ca # a)" and ?t = "takeWhile is_digit (cb # b)"
    obtain c where c: "compare_num_chunks (ca # a) (cb # b) = (c, dropWhile is_digit a, dropWhile is_digit b)"
      using compare_num_chunks_rest [of "ca # a" "cb # b"] True
      by (cases "compare_num_chunks (ca # a) (cb # b)") auto
    have ceq: "c = three_way (num_token ?s) (num_token ?t)"
      using compare_num_chunks_token [of "ca # a" "cb # b"] c by simp
    have tok: "tokens (ca # a) = num_token ?s # tokens (dropWhile is_digit a)"
      "tokens (cb # b) = num_token ?t # tokens (dropWhile is_digit b)"
      using True by simp_all
    show ?thesis
    proof (cases "c = 0")
      case False
      then have "num_token ?s \<noteq> num_token ?t" by (simp add: ceq three_way_0)
      then show ?thesis
        using True c False unfolding tok by (simp add: three_way_Cons ceq)
    next
      case c0: True
      then have same: "?s = ?t" using num_token_inject by (simp add: ceq three_way_0)
      have ab: "ca # a = ?s @ dropWhile is_digit a" and bt: "cb # b = ?t @ dropWhile is_digit b"
        using True by simp_all
      have "three_way (ca # a) (cb # b) = three_way (dropWhile is_digit a) (dropWhile is_digit b)"
        using three_way_append_same [of ?s] ab bt [folded same] by metis
      then show ?thesis
        using True c c0 "3.IH"(1) [OF True c [symmetric] refl] same
        unfolding tok by (simp add: three_way_Cons_same)
    qed
  next
    case nd: False
    show ?thesis
    proof (cases "\<not> is_digit ca \<and> \<not> is_digit cb")
      case True
      show ?thesis
      proof (cases "compare_text_char ca cb = 0")
        case False
        then have "[1, code (low ca)] \<noteq> [1, code (low cb)]"
          by (simp add: compare_text_char_three_way three_way_0)
        with True False show ?thesis
          by (simp add: three_way_Cons compare_text_char_three_way)
      next
        case c0: True
        then have same: "code (low ca) = code (low cb)"
          by (simp add: compare_text_char_three_way three_way_0)
        show ?thesis
          using "3.IH"(2) [OF nd True] True c0 same
          by (cases "ca = cb")
            (auto simp: three_way_Cons three_way_Cons_same case_diff_three_way three_way_0)
      qed
    next
      case False
      with nd have "is_digit ca \<longleftrightarrow> \<not> is_digit cb" by blast
      then show ?thesis
        by (cases "is_digit ca")
          (auto simp: digit_vs_text_def three_way_def num_token_def Let_def)
    qed
  qed
qed

text \<open>
  \<open>Compare\<close> is exactly the three-way comparison of a linear order on strings: the order of
  the keys \<open>nat_key\<close>, which are different for different strings. So it is reflexive,
  antisymmetric and transitive, gives 0 only for equal strings, and \<open>sort.Slice\<close> with it has
  one result.
\<close>
theorem compare_linear_order:
  "compare a b = (if nat_key a < nat_key b then -1 else if nat_key b < nat_key a then 1 else 0) \<and>
   (compare a b = 0 \<longleftrightarrow> a = b) \<and> compare b a = - compare a b"
  by (auto simp: compare_def compare_loop_key nat_key_def three_way_def less_prod_def)

section \<open>Numbers compare by value\<close>

lemma read_nat_acc: "foldl (\<lambda>a c. 10 * a + digit_val c) n s = n * 10 ^ length s + read_nat s"
proof (induction s arbitrary: n)
  case (Cons c s)
  show ?case
    using Cons [of "10 * n + digit_val c"] Cons [of "digit_val c"]
    by (simp add: read_nat_def algebra_simps)
qed (simp add: read_nat_def)

lemma read_nat_Cons: "read_nat (c # s) = digit_val c * 10 ^ length s + read_nat s"
  using read_nat_acc [of "digit_val c" s] by (simp add: read_nat_def)

lemma digit_val_le: "is_digit c \<Longrightarrow> digit_val c \<le> 9"
  unfolding digit_val_def is_digit_def by linarith

lemma read_nat_bound: "list_all is_digit s \<Longrightarrow> read_nat s < 10 ^ length s"
proof (induction s)
  case (Cons c s)
  then have "digit_val c * 10 ^ length s \<le> 9 * 10 ^ length s"
    using digit_val_le [of c] by (intro mult_le_mono1) simp
  moreover from Cons have "read_nat s < 10 ^ length s" by simp
  ultimately have "digit_val c * 10 ^ length s + read_nat s < 10 * 10 ^ length s" by linarith
  then show ?case by (simp add: read_nat_Cons)
qed (simp add: read_nat_def)

lemma digit_val_less_iff:
  "is_digit c \<Longrightarrow> is_digit d \<Longrightarrow> digit_val c < digit_val d \<longleftrightarrow> code c < code d"
  by (auto simp: digit_val_def is_digit_def)

lemma read_nat_less_same_length:
  "length s = length t \<Longrightarrow> list_all is_digit s \<Longrightarrow> list_all is_digit t \<Longrightarrow>
   map code s < map code t \<Longrightarrow> read_nat s < read_nat t"
proof (induction s t rule: list_induct2)
  case (Cons c s d t)
  show ?case
  proof (cases "code c = code d")
    case True
    with Cons show ?thesis by (simp add: read_nat_Cons code_inject)
  next
    case False
    with Cons have "digit_val c < digit_val d" by (simp add: digit_val_less_iff)
    then have "(digit_val c + 1) * 10 ^ length t \<le> digit_val d * 10 ^ length t"
      by (intro mult_le_mono1) simp
    with Cons.hyps read_nat_bound [of s] Cons.prems show ?thesis
      by (simp add: read_nat_Cons)
  qed
qed simp

lemma read_nat_leading:
  assumes "list_all is_digit (c # s)" and "c \<noteq> CHR ''0''"
  shows "10 ^ length s \<le> read_nat (c # s)"
proof -
  have "code c \<noteq> 48" using assms(2) code_inject [of c "CHR ''0''"] by (simp add: code_def)
  moreover have "48 \<le> code c" using assms(1) by (simp add: is_digit_def)
  ultimately have "1 \<le> digit_val c" unfolding digit_val_def by linarith
  then have "1 * 10 ^ length s \<le> digit_val c * 10 ^ length s" by (intro mult_le_mono1)
  then show ?thesis unfolding read_nat_Cons by linarith
qed

lemma read_nat_drop_zeros: "read_nat (dropWhile (\<lambda>c. c = CHR ''0'') s) = read_nat s"
  by (induction s) (auto simp: read_nat_Cons digit_val_def code_def)

lemma list_all_dropWhile: "list_all P s \<Longrightarrow> list_all P (dropWhile Q s)"
  by (induction s) auto

lemma num_token_less_of_value:
  assumes s: "list_all is_digit s" and t: "list_all is_digit t" and lt: "read_nat s < read_nat t"
  shows "num_token s < num_token t"
proof -
  let ?z = "\<lambda>c. c = CHR ''0''"
  define u v where "u = dropWhile ?z s" and "v = dropWhile ?z t"
  have u: "list_all is_digit u" and v: "list_all is_digit v"
    unfolding u_def v_def using list_all_dropWhile [OF s] list_all_dropWhile [OF t] by blast+
  have lt': "read_nat u < read_nat v" using lt by (simp add: u_def v_def read_nat_drop_zeros)
  have "length u \<le> length v"
  proof (cases u)
    case (Cons c w)
    have "c \<noteq> CHR ''0''" using hd_dropWhile [of ?z s] Cons by (simp flip: u_def)
    with Cons u have "10 ^ length w \<le> read_nat u" using read_nat_leading [of c w] by simp
    also have "\<dots> < 10 ^ length v" using lt' read_nat_bound [OF v] by simp
    finally show ?thesis using Cons by simp
  qed simp
  moreover have "map code u < map code v" if "length u = length v"
  proof (rule ccontr)
    assume "\<not> map code u < map code v"
    then have "u = v \<or> map code v < map code u"
      using inj_map_eq_map [of code u v] by (auto simp: inj_def code_inject)
    then show False using lt' read_nat_less_same_length [of v u] u v that by auto
  qed
  ultimately show ?thesis
    unfolding num_token_less Let_def u_def [symmetric] v_def [symmetric] by auto
qed

lemma tokens_append:
  assumes "p = [] \<or> \<not> is_digit (last p)"
  shows "tokens (p @ s) = tokens p @ tokens s"
  using assms
proof (induction p rule: tokens.induct)
  case (2 c p)
  show ?case
  proof (cases "is_digit c")
    case True
    with "2.prems" have "\<exists>x\<in>set p. \<not> is_digit x" by (auto split: if_splits)
    then have tw: "takeWhile is_digit (p @ s) = takeWhile is_digit p"
      and dw: "dropWhile is_digit (p @ s) = dropWhile is_digit p @ s"
      by (auto simp: takeWhile_append dropWhile_append3)
    have "last (dropWhile is_digit p) = last p"
      using \<open>\<exists>x\<in>set p. \<not> is_digit x\<close>
      by (metis dropWhile_eq_Nil_conv last_appendR takeWhile_dropWhile_id)
    moreover have "\<not> is_digit (last p)" using "2.prems" True by (auto split: if_splits)
    ultimately show ?thesis using "2.IH"(1) [OF True] True by (simp add: tw dw)
  next
    case False
    with "2.IH"(2) [OF False] "2.prems" show ?thesis by (auto split: if_splits)
  qed
qed simp

lemma tokens_number:
  assumes "list_all is_digit ds" and "ds \<noteq> []" and "s = [] \<or> \<not> is_digit (hd s)"
  shows "tokens (ds @ s) = num_token ds # tokens s"
proof (cases ds)
  case (Cons d ds')
  have 1: "takeWhile is_digit (ds' @ s) = ds'" "dropWhile is_digit (ds' @ s) = s"
    using assms(1,3) unfolding Cons by (induction ds') (cases s; simp)+
  show ?thesis using assms(1) by (simp add: Cons 1)
qed (use assms in simp)

text \<open>
  Embedded numbers compare by value, whatever their zero padding and whatever follows them:
  after a common prefix that does not end in a digit, the smaller number comes first, so
  \<^verbatim>\<open>REQ-2\<close> is before \<^verbatim>\<open>REQ-10\<close> and \<^verbatim>\<open>REQ-0009\<close> before \<^verbatim>\<open>REQ-10b\<close>.
\<close>
theorem compare_numeric:
  assumes prefix: "p = [] \<or> \<not> is_digit (last p)"
    and ds: "list_all is_digit ds" "ds \<noteq> []" and es: "list_all is_digit es" "es \<noteq> []"
    and s: "s = [] \<or> \<not> is_digit (hd s)" and t: "t = [] \<or> \<not> is_digit (hd t)"
    and lt: "read_nat ds < read_nat es"
  shows "compare (p @ ds @ s) (p @ es @ t) = -1"
proof -
  have "num_token ds < num_token es" using num_token_less_of_value [OF ds(1) es(1) lt] .
  moreover have "q @ a # x < q @ b # y" if "a < b" for q x y and a b :: "nat list"
    using that by (induction q) simp_all
  ultimately have "tokens (p @ ds @ s) < tokens (p @ es @ t)"
    unfolding tokens_append [OF prefix] tokens_number [OF ds s] tokens_number [OF es t] by blast
  then show ?thesis by (auto simp: compare_def compare_loop_key three_way_def)
qed

theorem compare_numeric_witness:
  "compare (''REQ-'' @ ''0009'' @ []) (''REQ-'' @ ''10'' @ ''b'') = -1"
proof (rule compare_numeric)
  show "read_nat ''0009'' < read_nat ''10''" by (simp add: read_nat_def digit_val_def code_def)
qed (code_simp+)

end
