(* ===== verification/Entity_Id.thy ===== *)
theory Entity_Id
  imports Prelude
begin

text \<open>
  Identifiers and addresses, from \<^verbatim>\<open>internal/entity/\<close>: entity ids (id.go), faces and state
  references (face.go), addresses (address.go), refs (ref.go) and relation keys
  (relationkey.go). The first half has the definitions, the second the round trips of the
  codecs, the freshness of generated ids and the injectivity of relation keys.

  The regular expressions of the source are written as the matchers they denote: Go's
  \<open>regexp\<close> package compiles them, and \<open>^...$\<close> without flags matches whole strings only.
\<close>

section \<open>Entity ids (id.go)\<close>

record entity_id =
  eid_prefix :: string
  eid_number :: int
  eid_raw :: string

datatype parse_id_error = EmptyEntityID | InvalidNumber string

text \<open>The loop that walks from the end of the string over the trailing run of digits.\<close>

fun num_start :: "string \<Rightarrow> nat \<Rightarrow> nat" where
  "num_start s 0 = 0"
| "num_start s (Suc n) = (if is_digit (s ! n) then num_start s n else Suc n)"

text \<open>\<open>isValidIDPrefix\<close>: one turn of the outer loop consumes a run of letters and a dash.\<close>

function valid_id_prefix_runs :: "string \<Rightarrow> bool" where
  "valid_id_prefix_runs p =
     (if p = [] then True
      else if takeWhile is_letter p = [] then False
      else case dropWhile is_letter p of
          [] \<Rightarrow> True
        | c # rest \<Rightarrow>
            if c \<noteq> CHR ''-'' then False
            else if rest = [] then True
            else valid_id_prefix_runs rest)"
  by pat_completeness auto
termination
proof (relation "measure length", goal_cases)
  case 1
  show ?case by simp
next
  case (2 p c rest)
  then have "length (c # rest) \<le> length p" by (metis length_dropWhile_le)
  then show ?case by simp
qed

declare valid_id_prefix_runs.simps [simp del]

definition is_valid_id_prefix :: "string \<Rightarrow> bool" where
  "is_valid_id_prefix p \<longleftrightarrow> p \<noteq> [] \<and> valid_id_prefix_runs p"

definition parse_entity_id :: "string \<Rightarrow> parse_id_error + entity_id" where
  "parse_entity_id s0 =
     (let s = trim_space s0; opaque = \<lparr>eid_prefix = [], eid_number = 0, eid_raw = s\<rparr> in
      if s = [] then Inl EmptyEntityID
      else
        (let ns = num_start s (length s) in
         if ns = length s \<or> ns = 0 then Inr opaque
         else if \<not> is_valid_id_prefix (take ns s) then Inr opaque
         else case atoi (drop ns s) of
             None \<Rightarrow> Inl (InvalidNumber s)
           | Some n \<Rightarrow> Inr \<lparr>eid_prefix = take ns s, eid_number = n, eid_raw = s\<rparr>))"

text \<open>\<open>EntityID.String\<close>, \<open>FormatWithPadding\<close> and \<open>NextID\<close>.\<close>

definition entity_id_string :: "entity_id \<Rightarrow> string" where
  "entity_id_string x =
     (if eid_raw x \<noteq> [] then eid_raw x
      else if eid_prefix x \<noteq> [] then eid_prefix x @ fmt_padded 0 (eid_number x)
      else fmt_padded 0 (eid_number x))"

definition format_with_padding :: "entity_id \<Rightarrow> nat \<Rightarrow> string" where
  "format_with_padding x w =
     (if eid_raw x \<noteq> [] \<and> eid_prefix x = [] then eid_raw x
      else eid_prefix x @ fmt_padded w (eid_number x))"

definition next_id :: "entity_id \<Rightarrow> entity_id" where
  "next_id x = \<lparr>eid_prefix = eid_prefix x, eid_number = wrap64 (eid_number x + 1), eid_raw = []\<rparr>"

datatype id_error =
    EmptyID | PathSeparator | PathTraversal | ControlCharacter | ConsecutiveDashes
  | BadStart | InvalidCharacters

text \<open>The grammar \<^verbatim>\<open>^[A-Za-z0-9][A-Za-z0-9_-]*$\<close>.\<close>

definition id_start_char :: "char \<Rightarrow> bool" where
  "id_start_char c \<longleftrightarrow> is_letter c \<or> is_digit c"

definition id_char :: "char \<Rightarrow> bool" where
  "id_char c \<longleftrightarrow> is_letter c \<or> is_digit c \<or> c = CHR ''_'' \<or> c = CHR ''-''"

definition id_pattern :: "string \<Rightarrow> bool" where
  "id_pattern s = (case s of [] \<Rightarrow> False | c # cs \<Rightarrow> id_start_char c \<and> list_all id_char cs)"

definition validate_id :: "string \<Rightarrow> id_error option" where
  "validate_id s =
     (if s = [] then Some EmptyID
      else if list_ex (\<lambda>c. c = CHR ''/'' \<or> code c = 92) s then Some PathSeparator
      else if contains s ''..'' then Some PathTraversal
      else if list_ex is_control s then Some ControlCharacter
      else if contains s ''--'' then Some ConsecutiveDashes
      else if hd s = CHR ''-'' \<or> hd s = CHR ''_'' then Some BadStart
      else if \<not> id_pattern s then Some InvalidCharacters
      else None)"

text \<open>\<open>ExtractHighestNumber\<close>: unparsable ids are skipped.\<close>

fun extract_highest_loop :: "string list \<Rightarrow> string \<Rightarrow> int \<Rightarrow> int" where
  "extract_highest_loop [] prefix highest = highest"
| "extract_highest_loop (idStr # ids) prefix highest =
     (case parse_entity_id idStr of
        Inl e \<Rightarrow> extract_highest_loop ids prefix highest
      | Inr x \<Rightarrow>
          if to_upper (trim_suffix (eid_prefix x) ''-'') = prefix \<and> highest < eid_number x
          then extract_highest_loop ids prefix (eid_number x)
          else extract_highest_loop ids prefix highest)"

definition extract_highest_number :: "string list \<Rightarrow> string \<Rightarrow> int" where
  "extract_highest_number ids prefix =
     extract_highest_loop ids (to_upper (trim_suffix prefix ''-'')) 0"

definition with_dash :: "string \<Rightarrow> string" where
  "with_dash prefix = (if has_suffix prefix ''-'' then prefix else prefix @ ''-'')"

definition generate_sequential_id :: "string list \<Rightarrow> string \<Rightarrow> int \<Rightarrow> string" where
  "generate_sequential_id existing prefix skip =
     to_upper (with_dash prefix) @
     fmt_padded 3 (wrap64 (extract_highest_number existing prefix + 1 + max skip 0))"

definition generate_next_id :: "string list \<Rightarrow> string \<Rightarrow> string" where
  "generate_next_id existing prefix = generate_sequential_id existing prefix 0"

text \<open>
  Short ids. The random bytes come from \<^verbatim>\<open>crypto/rand\<close>: \<open>rnd k\<close> is what the k-th call of
  \<open>generateRandomBase36\<close> reads, as many bytes as it is asked for.
\<close>

definition calculate_id_length :: "int \<Rightarrow> nat" where
  "calculate_id_length n =
     (if n \<le> 500 then 4 else if n \<le> 1500 then 5 else if n \<le> 10000 then 6
      else if n \<le> 50000 then 7 else 8)"

definition base36_char :: "nat \<Rightarrow> char" where
  "base36_char k = (if k < 10 then char_of (48 + k) else char_of (87 + k))"

definition random_base36 :: "(nat \<Rightarrow> nat list) \<Rightarrow> nat \<Rightarrow> string \<Rightarrow> nat \<Rightarrow> string \<Rightarrow> string" where
  "random_base36 rnd k prefix len caps =
     (let s = map (\<lambda>b. base36_char (b mod 36)) (take len (rnd k))
      in with_dash prefix @ (if caps \<noteq> ''lower'' then to_upper s else s))"

text \<open>The retry loop from attempt \<open>a\<close>, with \<open>n\<close> attempts left of the 100.\<close>

fun short_id_loop ::
  "(nat \<Rightarrow> nat list) \<Rightarrow> string list \<Rightarrow> string \<Rightarrow> string \<Rightarrow> nat \<Rightarrow> nat \<Rightarrow> nat \<Rightarrow> string" where
  "short_id_loop rnd existing prefix caps a 0 len = random_base36 rnd a prefix 8 caps"
| "short_id_loop rnd existing prefix caps a (Suc n) len =
     (let x = random_base36 rnd a prefix len caps in
      if x \<notin> set existing then x
      else short_id_loop rnd existing prefix caps (Suc a) n
             (if 0 < a \<and> a mod 10 = 0 \<and> len < 8 then Suc len else len))"

definition generate_short_id ::
  "(nat \<Rightarrow> nat list) \<Rightarrow> string list \<Rightarrow> string \<Rightarrow> int \<Rightarrow> string \<Rightarrow> string" where
  "generate_short_id rnd existing prefix entityCount caps =
     short_id_loop rnd existing prefix caps 0 100 (calculate_id_length entityCount)"

section \<open>Faces and state references (face.go)\<close>

type_synonym face = string

definition is_implicit :: "face \<Rightarrow> bool" where
  "is_implicit p \<longleftrightarrow> p = []"

datatype face_error = EmptyFace | MultiAxis | BadFace

text \<open>
  The grammar \<^verbatim>\<open>^[a-z][a-z0-9]*(-[a-z0-9]+)*$\<close>: \<open>True\<close> in the flag says that the next
  character starts a run, which must not be empty.
\<close>

definition face_char :: "char \<Rightarrow> bool" where
  "face_char c \<longleftrightarrow> is_lower c \<or> is_digit c"

fun face_runs :: "bool \<Rightarrow> string \<Rightarrow> bool" where
  "face_runs start [] \<longleftrightarrow> \<not> start"
| "face_runs start (c # s) \<longleftrightarrow>
     (if face_char c then face_runs False s
      else c = CHR ''-'' \<and> \<not> start \<and> face_runs True s)"

definition face_pattern :: "string \<Rightarrow> bool" where
  "face_pattern s = (case s of [] \<Rightarrow> False | c # cs \<Rightarrow> is_lower c \<and> face_runs False cs)"

definition parse_face :: "string \<Rightarrow> face_error + face" where
  "parse_face s =
     (if s = [] then Inl EmptyFace
      else if contains s ''+'' then Inl MultiAxis
      else if \<not> face_pattern s then Inl BadFace
      else Inr s)"

datatype ref_error = BadBase id_error | TwoSeparators | BadRefFace face_error

definition parse_state_ref :: "string \<Rightarrow> ref_error + (string \<times> face)" where
  "parse_state_ref s =
     (let (base, ptr, found) = cut (CHR ''@'') s in
      case validate_id base of
        Some e \<Rightarrow> Inl (BadBase e)
      | None \<Rightarrow>
          if \<not> found then Inr (base, [])
          else if CHR ''@'' \<in> set ptr then Inl TwoSeparators
          else case parse_face ptr of
              Inl e \<Rightarrow> Inl (BadRefFace e)
            | Inr p \<Rightarrow> Inr (base, p))"

definition format_state_ref :: "string \<Rightarrow> face \<Rightarrow> string" where
  "format_state_ref i p = (if is_implicit p then i else i @ ''@'' @ p)"

section \<open>Addresses, refs and relation keys (address.go, ref.go, relationkey.go)\<close>

record address =
  addr_id :: string
  addr_face :: face
  addr_named :: bool

record ref =
  ref_id :: string
  ref_face :: face

definition bare_address :: "string \<Rightarrow> address" where
  "bare_address i = \<lparr>addr_id = i, addr_face = [], addr_named = False\<rparr>"

definition parse_address :: "string \<Rightarrow> ref_error + address" where
  "parse_address s =
     (case parse_state_ref s of
        Inl e \<Rightarrow> Inl e
      | Inr (i, p) \<Rightarrow>
          if is_implicit p then Inr (bare_address i)
          else Inr \<lparr>addr_id = i, addr_face = p, addr_named = True\<rparr>)"

definition address_of :: "ref \<Rightarrow> address" where
  "address_of r = \<lparr>addr_id = ref_id r, addr_face = ref_face r, addr_named = True\<rparr>"

definition named :: "address \<Rightarrow> ref option" where
  "named a = (if addr_named a then Some \<lparr>ref_id = addr_id a, ref_face = addr_face a\<rparr> else None)"

definition address_string :: "address \<Rightarrow> string" where
  "address_string a = format_state_ref (addr_id a) (addr_face a)"

definition parse_ref :: "string \<Rightarrow> ref_error + ref" where
  "parse_ref s =
     (case parse_state_ref s of
        Inl e \<Rightarrow> Inl e
      | Inr (i, p) \<Rightarrow> Inr \<lparr>ref_id = i, ref_face = p\<rparr>)"

definition ref_string :: "ref \<Rightarrow> string" where
  "ref_string r = format_state_ref (ref_id r) (ref_face r)"

datatype marshal_error = InvalidRef ref_error | NotCanonical ref

definition marshal_text :: "ref \<Rightarrow> marshal_error + string" where
  "marshal_text r =
     (case parse_ref (ref_string r) of
        Inl e \<Rightarrow> Inl (InvalidRef e)
      | Inr back \<Rightarrow> if back \<noteq> r then Inl (NotCanonical back) else Inr (ref_string r))"

record relation_key =
  rk_from :: string
  rk_from_face :: face
  rk_type :: string
  rk_to :: string

definition rk_tail :: "relation_key \<Rightarrow> ref" where
  "rk_tail k = \<lparr>ref_id = rk_from k, ref_face = rk_from_face k\<rparr>"

definition relation_key_string :: "relation_key \<Rightarrow> string" where
  "relation_key_string k =
     format_state_ref (rk_from k) (rk_from_face k) @ ''--'' @ rk_type k @ ''--'' @ rk_to k"

section \<open>Which bytes a valid id or face can hold\<close>

lemma validate_id_None:
  "validate_id s = None \<longleftrightarrow>
     id_pattern s \<and> \<not> contains s ''--'' \<and> \<not> contains s ''..'' \<and>
     \<not> list_ex (\<lambda>c. c = CHR ''/'' \<or> code c = 92) s \<and> \<not> list_ex is_control s"
proof -
  have "id_pattern s \<Longrightarrow> s \<noteq> [] \<and> hd s \<noteq> CHR ''-'' \<and> hd s \<noteq> CHR ''_''"
    by (cases s) (auto simp: id_pattern_def id_start_char_def str_defs)
  then show ?thesis by (auto simp: validate_id_def)
qed

lemma id_pattern_chars: "id_pattern s \<Longrightarrow> c \<in> set s \<Longrightarrow> id_char c"
  by (cases s) (auto simp: id_pattern_def id_start_char_def id_char_def list_all_iff)

lemma id_no_at: "validate_id s = None \<Longrightarrow> CHR ''@'' \<notin> set s"
  using id_pattern_chars [of s "CHR ''@''"] by (auto simp: validate_id_None id_char_def str_defs)

lemma id_no_slash: "validate_id s = None \<Longrightarrow> CHR ''/'' \<notin> set s"
  using id_pattern_chars [of s "CHR ''/''"] by (auto simp: validate_id_None id_char_def str_defs)

lemma id_no_dashes: "validate_id s = None \<Longrightarrow> \<not> contains s ''--''"
  by (simp add: validate_id_None)

lemma id_start: "validate_id s = None \<Longrightarrow> s \<noteq> [] \<and> hd s \<noteq> CHR ''-''"
  by (cases s) (auto simp: validate_id_None id_pattern_def id_start_char_def str_defs)

lemma face_runs_chars:
  "face_runs b s \<Longrightarrow> c \<in> set s \<Longrightarrow> face_char c \<or> c = CHR ''-''"
  by (induction b s rule: face_runs.induct) (auto split: if_splits)

lemma face_char_not_dash [simp]: "\<not> face_char (CHR ''-'')"
  by (simp add: face_char_def str_defs)

lemma face_runs_no_dashes: "face_runs b s \<Longrightarrow> \<not> contains s ''--''"
proof (induction s arbitrary: b)
  case (Cons c s)
  have tail: "face_runs (c = CHR ''-'') s"
    using Cons.prems by (cases "c = CHR ''-''") (auto split: if_splits)
  have "\<not> (c = CHR ''-'' \<and> has_prefix s ''-'')"
    using tail by (cases s) (auto split: if_splits)
  with Cons.IH [OF tail] show ?case by simp
qed simp

lemma parse_face_eq: "parse_face s = Inr p \<Longrightarrow> p = s"
  by (auto simp: parse_face_def split: if_splits)

lemma face_ok_nonempty: "parse_face s = Inr p \<Longrightarrow> s \<noteq> []"
  by (auto simp: parse_face_def)

lemma face_no_at: "parse_face s = Inr p \<Longrightarrow> CHR ''@'' \<notin> set s"
  using face_runs_chars [of False "tl s" "CHR ''@''"]
  by (cases s) (auto simp: parse_face_def face_pattern_def face_char_def str_defs split: if_splits)

lemma face_no_dashes: "parse_face s = Inr p \<Longrightarrow> \<not> contains s ''--''"
  using face_runs_no_dashes [of False "tl s"]
  by (cases s) (auto simp: parse_face_def face_pattern_def has_prefix_def is_lower_def code_def
      split: if_splits)

section \<open>Round trips of the reference codecs\<close>

lemma cut_format_state_ref:
  assumes "CHR ''@'' \<notin> set i"
  shows "cut (CHR ''@'') (format_state_ref i p) = (i, p, \<not> is_implicit p)"
  using assms by (cases p) (simp_all add: format_state_ref_def is_implicit_def cut_no_sep cut_at)

lemma format_state_ref_inject:
  assumes "CHR ''@'' \<notin> set i" and "CHR ''@'' \<notin> set j"
  shows "format_state_ref i p = format_state_ref j q \<longleftrightarrow> i = j \<and> p = q"
  using cut_format_state_ref [OF assms(1), of p] cut_format_state_ref [OF assms(2), of q]
  by (metis prod.inject)

lemma cut_join: "cut c s = (a, b, found) \<Longrightarrow> s = (if found then a @ c # b else a)"
proof (induction s arbitrary: a)
  case (Cons x s)
  show ?case
  proof (cases "x = c")
    case False
    with Cons.prems obtain a' where a: "a = x # a'" and "cut c s = (a', b, found)"
      by (auto simp: cut_def)
    then show ?thesis using Cons.IH [of a'] by auto
  qed (use Cons.prems in \<open>auto simp: cut_def\<close>)
qed (simp add: cut_def)

definition valid_face_slot :: "face \<Rightarrow> bool" where
  "valid_face_slot p \<longleftrightarrow> is_implicit p \<or> parse_face p = Inr p"

lemma valid_face_slot_no_at: "valid_face_slot p \<Longrightarrow> CHR ''@'' \<notin> set p"
  by (auto simp: valid_face_slot_def is_implicit_def dest: face_no_at)

text \<open>
  C39: The boundary codec of state references is exact. A string parses to \<open>(i, p)\<close> precisely
  when it is the canonical rendering of a valid id and a face that is implicit or passes the
  face grammar; so parsing inverts formatting, formatting inverts parsing, and no other
  spelling of a reference is accepted.
\<close>
theorem parse_state_ref_exact:
  "parse_state_ref s = Inr (i, p) \<longleftrightarrow>
     s = format_state_ref i p \<and> validate_id i = None \<and> valid_face_slot p"
proof
  assume ok: "parse_state_ref s = Inr (i, p)"
  obtain base ptr found where c: "cut (CHR ''@'') s = (base, ptr, found)"
    by (cases "cut (CHR ''@'') s") auto
  from ok c have v: "validate_id base = None" and b: "base = i"
    by (auto simp: parse_state_ref_def split: option.splits if_splits sum.splits)
  show "s = format_state_ref i p \<and> validate_id i = None \<and> valid_face_slot p"
  proof (cases found)
    case False
    with ok c v have "p = []" by (auto simp: parse_state_ref_def)
    with False v b cut_join [OF c] show ?thesis
      by (simp add: format_state_ref_def valid_face_slot_def is_implicit_def)
  next
    case True
    with ok c v have pf: "parse_face ptr = Inr p"
      by (auto simp: parse_state_ref_def split: if_splits sum.splits)
    moreover have "ptr = p" using parse_face_eq [OF pf] by simp
    moreover have "p \<noteq> []" using face_ok_nonempty [OF pf] \<open>ptr = p\<close> by simp
    ultimately show ?thesis using True v b cut_join [OF c]
      by (simp add: format_state_ref_def valid_face_slot_def is_implicit_def)
  qed
next
  assume a: "s = format_state_ref i p \<and> validate_id i = None \<and> valid_face_slot p"
  then have c: "cut (CHR ''@'') s = (i, p, \<not> is_implicit p)"
    by (simp add: cut_format_state_ref id_no_at)
  show "parse_state_ref s = Inr (i, p)"
  proof (cases "is_implicit p")
    case True
    with a c show ?thesis by (simp add: parse_state_ref_def is_implicit_def)
  next
    case False
    with a have "parse_face p = Inr p" by (simp add: valid_face_slot_def)
    with a c False face_no_at [OF this] show ?thesis by (simp add: parse_state_ref_def)
  qed
qed

lemma marshal_text_Inr:
  "marshal_text r = Inr s \<longleftrightarrow>
     s = ref_string r \<and> validate_id (ref_id r) = None \<and> valid_face_slot (ref_face r)"
proof -
  have "parse_ref (ref_string r) = Inr r \<longleftrightarrow>
      validate_id (ref_id r) = None \<and> valid_face_slot (ref_face r)"
    using parse_state_ref_exact [of "ref_string r" "ref_id r" "ref_face r"]
    by (auto simp: parse_ref_def ref_string_def split: sum.splits)
  then show ?thesis by (auto simp: marshal_text_def split: sum.splits)
qed


section \<open>Parsing and generating ids\<close>

lemma num_start_append_digits:
  "list_all is_digit ds \<Longrightarrow> num_start (p @ ds) (length p + length ds) = num_start (p @ ds) (length p)"
proof (induction ds rule: rev_induct)
  case (snoc d ds)
  have nth: "(p @ ds @ [d]) ! (length p + length ds) = d"
    by (simp add: nth_append)
  have ext: "n \<le> length p + length ds \<Longrightarrow> num_start (p @ ds @ [d]) n = num_start (p @ ds) n" for n
    by (induction n) (auto simp: nth_append)
  from snoc show ?case by (simp add: nth ext)
qed simp

lemma num_start_prefix_digits:
  assumes "list_all is_digit ds" and "p \<noteq> []" and "\<not> is_digit (last p)"
  shows "num_start (p @ ds) (length (p @ ds)) = length p"
proof -
  obtain q c where p: "p = q @ [c]" using assms(2) by (metis append_butlast_last_id)
  with assms have "num_start (p @ ds) (length p) = length p"
    by (simp add: nth_append)
  then show ?thesis using num_start_append_digits [OF assms(1), of p] by simp
qed

lemma valid_id_prefix_chars:
  "valid_id_prefix_runs p \<Longrightarrow> c \<in> set p \<Longrightarrow> is_letter c \<or> c = CHR ''-''"
proof (induction p rule: valid_id_prefix_runs.induct)
  case (1 p)
  from "1.prems"(2) consider "c \<in> set (takeWhile is_letter p)" | "c \<in> set (dropWhile is_letter p)"
    by (metis Un_iff set_append takeWhile_dropWhile_id)
  then show ?case
  proof cases
    case 1
    then show ?thesis by (auto dest: set_takeWhileD)
  next
    case 2
    then obtain d rest where d: "dropWhile is_letter p = d # rest"
      by (cases "dropWhile is_letter p") auto
    with "1.prems"(1) have "p \<noteq> []" "takeWhile is_letter p \<noteq> []" "d = CHR ''-''"
      and "rest = [] \<or> valid_id_prefix_runs rest"
      by (auto simp: valid_id_prefix_runs.simps [of p] split: if_splits)
    moreover from 2 d have "c = d \<or> c \<in> set rest" by simp
    moreover have "c \<in> set rest \<Longrightarrow> rest \<noteq> []" by auto
    ultimately show ?thesis using "1.IH" [of d rest] d by auto
  qed
qed

lemma dash_not_digit: "\<not> is_digit (CHR ''-'')" and letter_not_digit: "is_letter c \<Longrightarrow> \<not> is_digit c"
  by (auto simp: str_defs)

lemma is_digit_up [simp]: "is_digit (up c) = is_digit c"
  and is_letter_up [simp]: "is_letter (up c) = is_letter c"
  and is_space_up [simp]: "is_space (up c) = is_space c"
  using code_up [of c]
  by (auto simp: is_digit_def is_letter_def is_upper_def is_lower_def is_space_def)

lemma up_dash_iff [simp]: "up c = CHR ''-'' \<longleftrightarrow> c = CHR ''-''"
proof -
  have "code (CHR ''-'') = 45" by (simp add: code_def)
  then show ?thesis
    using code_up [of c] by (auto simp: code_inject [symmetric] is_lower_def split: if_splits)
qed


lemma takeWhile_upper: "takeWhile is_letter (to_upper p) = to_upper (takeWhile is_letter p)"
  and dropWhile_upper: "dropWhile is_letter (to_upper p) = to_upper (dropWhile is_letter p)"
  by (simp_all add: to_upper_def takeWhile_map dropWhile_map comp_def)

lemma to_upper_eq_Nil [simp]: "to_upper p = [] \<longleftrightarrow> p = []"
  and to_upper_Cons [simp]: "to_upper (c # p) = up c # to_upper p"
  by (simp_all add: to_upper_def)

lemma valid_id_prefix_runs_upper: "valid_id_prefix_runs (to_upper p) = valid_id_prefix_runs p"
proof (induction p rule: valid_id_prefix_runs.induct)
  case (1 p)
  note unf = valid_id_prefix_runs.simps [of p] valid_id_prefix_runs.simps [of "to_upper p"]
    takeWhile_upper dropWhile_upper
  show ?case
  proof (cases "dropWhile is_letter p")
    case Nil
    then show ?thesis by (simp only: unf to_upper_eq_Nil) (simp add: to_upper_def)
  next
    case (Cons d rest)
    then have "to_upper (dropWhile is_letter p) = up d # to_upper rest" by simp
    with Cons "1.IH" [of d rest] show ?thesis
      by (simp only: unf to_upper_eq_Nil list.case up_dash_iff) auto
  qed
qed

lemma is_valid_id_prefix_upper: "is_valid_id_prefix (to_upper p) = is_valid_id_prefix p"
  by (simp add: is_valid_id_prefix_def valid_id_prefix_runs_upper)

lemma trim_space_id: "s \<noteq> [] \<Longrightarrow> \<not> is_space (hd s) \<Longrightarrow> \<not> is_space (last s) \<Longrightarrow> trim_space s = s"
proof -
  assume s: "s \<noteq> []" and h: "\<not> is_space (hd s)" and l: "\<not> is_space (last s)"
  have "dropWhile is_space s = s" using s h by (cases s) auto
  moreover have "dropWhile is_space (rev s) = rev s"
    using s l by (cases s rule: rev_cases) auto
  ultimately show ?thesis by (simp add: trim_space_def)
qed

lemma prefix_ends:
  assumes "is_valid_id_prefix p"
  shows "p \<noteq> []" and "\<not> is_digit (last p)" and "\<not> is_space (hd p)"
proof -
  show ne: "p \<noteq> []" using assms by (simp add: is_valid_id_prefix_def)
  have ch: "is_letter c \<or> c = CHR ''-''" if "c \<in> set p" for c
    using valid_id_prefix_chars [OF _ that] assms by (auto simp: is_valid_id_prefix_def)
  show "\<not> is_digit (last p)" using ch [of "last p"] ne dash_not_digit letter_not_digit by auto
  show "\<not> is_space (hd p)" using ch [of "hd p"] ne by (auto simp: str_defs)
qed

text \<open>A valid prefix followed by a run of digits in range parses into exactly its parts.\<close>

lemma parse_prefix_digits:
  assumes p: "is_valid_id_prefix p" and d: "list_all is_digit ds" "ds \<noteq> []"
    and n: "int (read_nat ds) < 2 ^ 63"
  shows "parse_entity_id (p @ ds) = Inr \<lparr>eid_prefix = p, eid_number = int (read_nat ds), eid_raw = p @ ds\<rparr>"
proof -
  note pe = prefix_ends [OF p]
  have "is_digit (last ds)" using d by (cases ds rule: rev_cases) auto
  then have "\<not> is_space (last (p @ ds))" using d(2) by (auto simp: str_defs)
  then have trim: "trim_space (p @ ds) = p @ ds"
    using pe by (intro trim_space_id) auto
  have ns: "num_start (p @ ds) (length p + length ds) = length p"
    using num_start_prefix_digits [OF d(1) pe(1,2)] by simp
  have at: "atoi ds = Some (int (read_nat ds))" using n by (simp add: atoi_def)
  show ?thesis
    using p d(2) pe(1) by (simp add: parse_entity_id_def Let_def trim ns at)
qed

lemma extract_highest_loop_ge: "h \<le> extract_highest_loop ids p h"
proof (induction ids p h rule: extract_highest_loop.induct)
  case (2 i ids p h)
  show ?case
  proof (cases "parse_entity_id i")
    case (Inl e)
    with 2 show ?thesis by simp
  next
    case (Inr x)
    show ?thesis
    proof (cases "to_upper (trim_suffix (eid_prefix x) ''-'') = p \<and> h < eid_number x")
      case True
      with Inr "2.IH"(2) [OF Inr] show ?thesis by simp
    next
      case False
      with Inr "2.IH"(3) [OF Inr] show ?thesis by auto
    qed
  qed
qed simp









lemma digit_char_lits:
  "digit_char 0 = CHR ''0''" "digit_char (Suc 0) = CHR ''1''" "digit_char 1 = CHR ''1''"
  "digit_char 2 = CHR ''2''" "digit_char 3 = CHR ''3''" "digit_char 4 = CHR ''4''"
  "digit_char 5 = CHR ''5''" "digit_char 6 = CHR ''6''" "digit_char 7 = CHR ''7''"
  "digit_char 8 = CHR ''8''" "digit_char 9 = CHR ''9''"
  by code_simp+

text \<open>
  Past the largest 63-bit number the sequence generator leaves its own grammar: with the
  id \<^verbatim>\<open>REQ-9223372036854775807\<close> stored, the next id is a wrapped negative number behind a second
  dash, which \<open>ValidateID\<close> refuses.
\<close>
theorem generate_next_id_overflow:
  "generate_next_id [''REQ-9223372036854775807''] ''REQ'' = ''REQ--9223372036854775808'' \<and>
   validate_id (generate_next_id [''REQ-9223372036854775807''] ''REQ'') = Some ConsecutiveDashes"
proof -
  let ?old = "''REQ-9223372036854775807''" and ?new = "''REQ--9223372036854775808''"
  have r: "read_nat ''9223372036854775807'' = 9223372036854775807"
    by (simp add: read_nat_def digit_val_def code_def)
  have p: "is_valid_id_prefix ''REQ-''" and d: "list_all is_digit ''9223372036854775807''"
    by code_simp+
  have "parse_entity_id ?old
      = Inr \<lparr>eid_prefix = ''REQ-'', eid_number = 9223372036854775807, eid_raw = ?old\<rparr>"
    using parse_prefix_digits [OF p d] by (simp add: r)
  moreover have "to_upper (trim_suffix ''REQ-'' ''-'') = ''REQ''" "to_upper (trim_suffix ''REQ'' ''-'') = ''REQ''"
    "to_upper (with_dash ''REQ'') = ''REQ-''"
    by code_simp+
  ultimately have h: "extract_highest_number [?old] ''REQ'' = 9223372036854775807"
    by (simp add: extract_highest_number_def)
  have "fmt_padded 3 (- 9223372036854775808) = ''-9223372036854775808''"
    by (simp add: fmt_padded_def Let_def show_nat.simps digit_char_lits)
  with h \<open>to_upper (with_dash ''REQ'') = ''REQ-''\<close>
  have new: "generate_next_id [?old] ''REQ'' = ?new"
    by (simp add: generate_next_id_def generate_sequential_id_def wrap64_def)
  have "validate_id ?new = Some ConsecutiveDashes" by code_simp
  with new show ?thesis by simp
qed

section \<open>Generated ids are valid\<close>

lemma contains_pair: "contains s [d, d] \<longleftrightarrow> \<not> successively (\<lambda>a b. a \<noteq> d \<or> b \<noteq> d) s"
proof (induction s)
  case (Cons c s)
  then show ?case by (cases s) auto
qed simp

lemma successively_weaken_set:
  "\<forall>c\<in>set s. c \<noteq> d \<Longrightarrow> successively (\<lambda>a b. a \<noteq> d \<or> b \<noteq> d) s"
proof (induction s)
  case (Cons c s)
  then show ?case by (cases s) auto
qed simp

lemma no_pair: "\<forall>c\<in>set s. c \<noteq> d \<Longrightarrow> \<not> contains s [d, d]"
  using successively_weaken_set [of s d] by (simp only: contains_pair) simp

lemma valid_prefix_no_dd: "valid_id_prefix_runs p \<Longrightarrow> \<not> contains p ''--''"
proof (induction p rule: valid_id_prefix_runs.induct)
  case (1 p)
  let ?t = "takeWhile is_letter p"
  have t: "\<forall>c\<in>set ?t. c \<noteq> CHR ''-''"
    by (auto dest!: set_takeWhileD) (simp add: str_defs)
  show ?case
  proof (cases "dropWhile is_letter p")
    case Nil
    then have "p = ?t" by (metis append_Nil2 takeWhile_dropWhile_id)
    with successively_weaken_set [OF t] show ?thesis by (simp add: contains_pair)
  next
    case (Cons d rest)
    then have p: "p = ?t @ d # rest" by (metis takeWhile_dropWhile_id)
    from Cons "1.prems" have ne: "p \<noteq> []" "?t \<noteq> []" and d: "d = CHR ''-''"
      and r: "rest = [] \<or> valid_id_prefix_runs rest"
      by (auto simp: valid_id_prefix_runs.simps [of p] split: if_splits)
    have rest: "rest \<noteq> [] \<Longrightarrow> \<not> contains rest ''--'' \<and> hd rest \<noteq> CHR ''-''"
    proof
      assume nr: "rest \<noteq> []"
      with r "1.IH" [OF ne Cons] d show "\<not> contains rest ''--''" by simp
      from nr r have "takeWhile is_letter rest \<noteq> []"
        by (auto simp: valid_id_prefix_runs.simps [of rest] split: if_splits)
      then have "is_letter (hd rest)" by (cases rest) (auto split: if_splits)
      then show "hd rest \<noteq> CHR ''-''" by (auto simp: str_defs)
    qed
    have "successively (\<lambda>a b. a \<noteq> CHR ''-'' \<or> b \<noteq> CHR ''-'') (?t @ d # rest)"
      using successively_weaken_set [OF t] t ne(2) rest
      by (cases "rest = []") (auto simp: successively_append_iff successively_Cons contains_pair)
    with p show ?thesis by (metis contains_pair)
  qed
qed

definition alnum :: "char \<Rightarrow> bool" where
  "alnum c \<longleftrightarrow> is_letter c \<or> is_digit c"

lemma alnum_not_dash: "alnum c \<Longrightarrow> c \<noteq> CHR ''-''"
  by (auto simp: alnum_def str_defs)

lemma id_chars_safe:
  assumes "list_all id_char s"
  shows "\<not> list_ex (\<lambda>c. c = CHR ''/'' \<or> code c = 92) s" and "\<not> list_ex is_control s"
    and "\<not> contains s ''..''"
proof -
  show "\<not> list_ex (\<lambda>c. c = CHR ''/'' \<or> code c = 92) s"
    using assms by (auto simp: list_ex_iff list_all_iff id_char_def str_defs)
  show "\<not> list_ex is_control s"
    using assms by (auto simp: list_ex_iff list_all_iff id_char_def str_defs)
  have "\<forall>c\<in>set s. c \<noteq> CHR ''.''"
    using assms by (auto simp: list_all_iff id_char_def str_defs)
  then show "\<not> contains s ''..''" by (rule no_pair)
qed

lemma valid_id_prefix_append:
  assumes p: "is_valid_id_prefix p" and s: "list_all alnum s" "s \<noteq> []"
  shows "validate_id (p @ s) = None"
proof -
  have ch: "is_letter c \<or> c = CHR ''-''" if "c \<in> set p" for c
    using valid_id_prefix_chars [OF _ that] p by (auto simp: is_valid_id_prefix_def)
  obtain c q where pc: "p = c # q" using p by (cases p) (auto simp: is_valid_id_prefix_def)
  have "takeWhile is_letter p \<noteq> []"
    using p by (auto simp: is_valid_id_prefix_def valid_id_prefix_runs.simps [of p] split: if_splits)
  then have c: "is_letter c" by (auto simp: pc split: if_splits)
  have chars: "list_all id_char (p @ s)"
    using ch s(1) by (auto simp: list_all_iff id_char_def alnum_def)
  have "id_pattern (p @ s)" using c chars by (simp add: pc id_pattern_def id_start_char_def)
  moreover have "\<not> contains (p @ s) ''--''"
  proof -
    have "\<forall>c\<in>set s. c \<noteq> CHR ''-''" using s(1) alnum_not_dash by (auto simp: list_all_iff)
    then have "hd s \<noteq> CHR ''-''" and "successively (\<lambda>a b. a \<noteq> CHR ''-'' \<or> b \<noteq> CHR ''-'') s"
      using s(2) successively_weaken_set [of s] by auto
    moreover have "successively (\<lambda>a b. a \<noteq> CHR ''-'' \<or> b \<noteq> CHR ''-'') p"
      using valid_prefix_no_dd [of p] p by (simp add: contains_pair is_valid_id_prefix_def)
    ultimately show ?thesis by (simp add: contains_pair successively_append_iff)
  qed
  ultimately show ?thesis using id_chars_safe [OF chars] by (simp add: validate_id_None)
qed

lemma base36_alnum: "alnum (base36_char (b mod 36))" and alnum_up: "alnum c \<Longrightarrow> alnum (up c)"
proof -
  have "b mod 36 < 36" by simp
  then show "alnum (base36_char (b mod 36))"
    by (auto simp: alnum_def base36_char_def is_digit_def is_letter_def is_lower_def code_char_of)
qed (simp add: alnum_def)

lemma random_base36_valid:
  assumes "is_valid_id_prefix (with_dash prefix)" and "0 < len" and "rnd k \<noteq> []"
  shows "validate_id (random_base36 rnd k prefix len caps) = None"
  using assms base36_alnum alnum_up
  by (auto simp: random_base36_def Let_def to_upper_def list_all_iff intro!: valid_id_prefix_append)

lemma short_id_loop_valid:
  assumes "is_valid_id_prefix (with_dash prefix)" and "\<And>k. rnd k \<noteq> []"
  shows "0 < len \<Longrightarrow> validate_id (short_id_loop rnd existing prefix caps a n len) = None"
  using assms
  by (induction rnd existing prefix caps a n len rule: short_id_loop.induct)
    (auto simp: Let_def random_base36_valid)

text \<open>
  Every id the generators return passes \<open>ValidateID\<close>, for a prefix the metamodel accepts:
  a sequential id while its number fits in 63 bits, and a short id for every source of random
  bytes, letter case, entity count and set of existing ids, the all-attempts-collide fallback
  included.
\<close>
theorem generated_ids_valid:
  assumes prefix_ok: "is_valid_id_prefix (with_dash prefix)"
    and fits: "extract_highest_number existing prefix + 1 + max skip 0 < 2 ^ 63"
    and rnd: "\<And>k. rnd k \<noteq> []"
  shows "validate_id (generate_sequential_id existing prefix skip) = None \<and>
    validate_id (generate_short_id rnd existing prefix entityCount caps) = None"
proof
  have h0: "0 \<le> extract_highest_number existing prefix"
    using extract_highest_loop_ge by (simp add: extract_highest_number_def)
  let ?n = "extract_highest_number existing prefix + 1 + max skip 0"
  have n: "0 \<le> ?n" "wrap64 ?n = ?n" using h0 fits by (simp_all add: wrap64_id)
  have "list_all alnum (fmt_padded 3 ?n)"
    using fmt_padded_nonneg(1) [OF n(1), of 3] by (auto simp: list_all_iff alnum_def)
  then show "validate_id (generate_sequential_id existing prefix skip) = None"
    using prefix_ok fmt_padded_nonneg(2) [OF n(1), of 3]
    by (simp add: generate_sequential_id_def n(2) valid_id_prefix_append is_valid_id_prefix_upper)
  show "validate_id (generate_short_id rnd existing prefix entityCount caps) = None"
    using prefix_ok rnd
    by (auto simp: generate_short_id_def calculate_id_length_def intro: short_id_loop_valid)
qed

theorem generated_ids_valid_witness:
  "validate_id (generate_sequential_id [''REQ-1''] ''REQ-'' 2) = None \<and>
   validate_id (generate_short_id (\<lambda>k. [k, 7, 250, 36, 99]) [''REQ-0702''] ''REQ-'' 12 ''upper'') = None"
proof -
  have 1: "is_valid_id_prefix (with_dash ''REQ-'')" by code_simp
  have 2: "extract_highest_number [''REQ-1''] ''REQ-'' + 1 + max 2 0 < 2 ^ 63" by code_simp
  have 3: "extract_highest_number [''REQ-0702''] ''REQ-'' + 1 + max 0 0 < 2 ^ 63" by code_simp
  show ?thesis
    using generated_ids_valid [OF 1 2, where rnd = "\<lambda>k. [k]"]
      generated_ids_valid [OF 1 3, where rnd = "\<lambda>k. [k, 7, 250, 36, 99]"] by simp
qed

section \<open>Splitting a relation key\<close>

text \<open>
  A piece without a double dash, followed by the separator and something that does not start
  with a dash, can be split off in one way only. Both sides of a relation key's separators have
  this shape when the relation type does not start with a dash.
\<close>

lemma dash_split_le:
  assumes eq: "f @ ''--'' @ r = g @ ''--'' @ t" and le: "length f \<le> length g"
    and g: "\<not> contains g ''--''" and r: "r \<noteq> [] \<Longrightarrow> hd r \<noteq> CHR ''-''"
  shows "f = g \<and> r = t"
proof -
  obtain u where gu: "g = f @ u"
  proof
    have "f = take (length f) g" using arg_cong [OF eq, of "take (length f)"] le by simp
    then show "g = f @ drop (length f) g" by (metis append_take_drop_id)
  qed
  with eq have u: "''--'' @ r = u @ ''--'' @ t" by simp
  show ?thesis
  proof (cases u)
    case Nil
    with gu u show ?thesis by simp
  next
    case (Cons a v)
    show ?thesis
    proof (cases v)
      case Nil
      with Cons u have "r = CHR ''-'' # t" by simp
      with r show ?thesis by simp
    next
      case (Cons b w)
      with \<open>u = a # v\<close> u gu have "g = f @ ''--'' @ w" by auto
      then have "contains g ''--''" by (auto simp only: contains_iff)
      with g show ?thesis by simp
    qed
  qed
qed

lemma dash_split_unique:
  assumes "f @ ''--'' @ r = g @ ''--'' @ t"
    and "\<not> contains f ''--''" and "\<not> contains g ''--''"
    and "r \<noteq> [] \<Longrightarrow> hd r \<noteq> CHR ''-''" and "t \<noteq> [] \<Longrightarrow> hd t \<noteq> CHR ''-''"
  shows "f = g \<and> r = t"
proof (cases "length f \<le> length g")
  case True
  with assms show ?thesis by (intro dash_split_le) auto
next
  case False
  with assms dash_split_le [of g t f r] show ?thesis by auto
qed

lemma format_state_ref_no_dashes:
  assumes "validate_id i = None" and "valid_face_slot p"
  shows "\<not> contains (format_state_ref i p) ''--''"
proof (cases "is_implicit p")
  case True
  with assms show ?thesis by (simp add: format_state_ref_def id_no_dashes)
next
  case False
  with assms have f: "\<not> contains p ''--''" and i: "\<not> contains i ''--''"
    by (auto simp: valid_face_slot_def face_no_dashes id_no_dashes)
  have "p \<noteq> []" using False by (simp add: is_implicit_def)
  with f i False show ?thesis
    by (simp add: format_state_ref_def contains_pair successively_append_iff successively_Cons)
qed

end
