(* ===== verification/Entity_Model.thy ===== *)
theory Entity_Model
  imports Entity_Id
begin

text \<open>
  Entities and relations as records, from \<^verbatim>\<open>internal/entity/entity.go\<close> and reserved.go. A Go map is
  an association list with distinct keys (a dictionary); the order of the list is the iteration
  order, which Go leaves open. A dynamically typed property value is a \<open>pval\<close>, with one
  constructor per type the code's switches name; any other type is \<open>VOther\<close>, carrying its type
  name and its \<open>%v\<close> text. Values here are immutable, so \<open>Clone\<close> is the identity up to the fields
  it normalises; times are integers (nanoseconds since Go's zero time).
\<close>

section \<open>Dictionaries\<close>

type_synonym 'a dict = "(string \<times> 'a) list"

abbreviation dict_get :: "'a dict \<Rightarrow> string \<Rightarrow> 'a option" where
  "dict_get m k \<equiv> map_of m k"

abbreviation dict_set :: "string \<Rightarrow> 'a \<Rightarrow> 'a dict \<Rightarrow> 'a dict" where
  "dict_set k v m \<equiv> AList.update k v m"

abbreviation dict_del :: "string \<Rightarrow> 'a dict \<Rightarrow> 'a dict" where
  "dict_del k m \<equiv> AList.delete k m"

definition dict_keys :: "'a dict \<Rightarrow> string set" where
  "dict_keys m = fst ` set m"

definition dict_ok :: "'a dict \<Rightarrow> bool" where
  "dict_ok m \<longleftrightarrow> distinct (map fst m)"

lemma dict_ok_Nil [simp]: "dict_ok []"
  by (simp add: dict_ok_def)

lemma dict_ok_set [simp]: "dict_ok m \<Longrightarrow> dict_ok (dict_set k v m)"
  by (simp add: dict_ok_def distinct_update)

lemma dict_ok_del [simp]: "dict_ok m \<Longrightarrow> dict_ok (dict_del k m)"
  by (simp add: dict_ok_def distinct_delete)

lemma dict_keys_set [dict_simps]: "dict_keys (dict_set k v m) = insert k (dict_keys m)"
  by (simp add: dict_keys_def dom_update)

lemma dict_keys_del [dict_simps]: "dict_keys (dict_del k m) = dict_keys m - {k}"
  by (auto simp: dict_keys_def delete_keys simp flip: set_map)

lemma dict_keys_Nil [dict_simps]: "dict_keys [] = {}"
  by (simp add: dict_keys_def)

lemma dict_get_set [dict_simps]: "dict_get (dict_set k v m) k' = (if k' = k then Some v else dict_get m k')"
  by (simp add: update_conv)

lemma dict_get_del [dict_simps]: "dict_get (dict_del k m) k' = (if k' = k then None else dict_get m k')"
  by (simp add: delete_conv')

lemma dict_get_None: "dict_get m k = None \<longleftrightarrow> k \<notin> dict_keys m"
  by (simp add: dict_keys_def map_of_eq_None_iff)

lemma dict_get_in: "dict_get m k = Some v \<Longrightarrow> (k, v) \<in> set m"
  by (rule map_of_SomeD)

lemma dict_in_get: "dict_ok m \<Longrightarrow> (k, v) \<in> set m \<longleftrightarrow> dict_get m k = Some v"
  by (auto simp: dict_ok_def)

lemma dict_set_set:
  "dict_ok m \<Longrightarrow> set (dict_set k v m) = insert (k, v) {x \<in> set m. fst x \<noteq> k}"
  unfolding dict_ok_def
  by (induction m) (auto simp: image_iff rev_image_eqI)

lemma dict_set_del: "set (dict_del k m) = {x \<in> set m. fst x \<noteq> k}"
  by (auto simp: AList.delete_eq)

section \<open>Property values\<close>

datatype pval =
    VNil
  | VStr string
  | VBool bool
  | VInt int
  | VStrs "string list"
  | VList "pval list"
  | VMap "(string \<times> pval) list"
  | VStrMap "(string \<times> string) list"
  | VOther string string

text \<open>\<open>fmt.Sprint\<close> with \<open>%v\<close>: slices between brackets, maps sorted by key.\<close>

fun join_sep :: "string \<Rightarrow> string list \<Rightarrow> string" where
  "join_sep sep [] = []"
| "join_sep sep [x] = x"
| "join_sep sep (x # y # xs) = x @ sep @ join_sep sep (y # xs)"

definition show_int :: "int \<Rightarrow> string" where
  "show_int n = fmt_padded 0 n"

fun show_pval :: "pval \<Rightarrow> string" where
  "show_pval VNil = ''<nil>''"
| "show_pval (VStr s) = s"
| "show_pval (VBool b) = (if b then ''true'' else ''false'')"
| "show_pval (VInt n) = show_int n"
| "show_pval (VStrs ss) = ''['' @ join_sep '' '' ss @ '']''"
| "show_pval (VList vs) = ''['' @ join_sep '' '' (map show_pval vs) @ '']''"
| "show_pval (VMap m) =
     ''map['' @ join_sep '' '' (map (\<lambda>(k, s). k @ '':'' @ s)
       (sort_key fst (map (\<lambda>(k, v). (k, show_pval v)) m))) @ '']''"
| "show_pval (VStrMap m) =
     ''map['' @ join_sep '' '' (map (\<lambda>(k, s). k @ '':'' @ s) (sort_key fst m)) @ '']''"
| "show_pval (VOther t s) = s"

text \<open>\<open>%T\<close>.\<close>

fun type_name :: "pval \<Rightarrow> string" where
  "type_name VNil = ''<nil>''"
| "type_name (VStr s) = ''string''"
| "type_name (VBool b) = ''bool''"
| "type_name (VInt n) = ''int''"
| "type_name (VStrs ss) = ''[]string''"
| "type_name (VList vs) = ''[]interface {}''"
| "type_name (VMap m) = ''map[string]interface {}''"
| "type_name (VStrMap m) = ''map[string]string''"
| "type_name (VOther t s) = t"

section \<open>Entities and relations\<close>

record inaccessible_field =
  if_name :: string
  if_reason :: string

record entity =
  ent_id :: string
  ent_type :: string
  ent_face :: face
  ent_props :: "pval dict"
  ent_content :: string
  ent_updated :: int
  ent_inaccessible :: "inaccessible_field list"
  ent_redacted :: "string list"

record relation =
  rel_from :: string
  rel_from_face :: face
  rel_type :: string
  rel_to :: string
  rel_props :: "pval dict option"
  rel_content :: string
  rel_updated :: int
  rel_inaccessible :: "inaccessible_field list"

definition is_redacted :: "entity \<Rightarrow> string \<Rightarrow> bool" where
  "is_redacted e name \<longleftrightarrow> name \<in> set (ent_redacted e)"

definition is_inaccessible :: "entity \<Rightarrow> string \<Rightarrow> bool" where
  "is_inaccessible e name \<longleftrightarrow> list_ex (\<lambda>f. if_name f = name) (ent_inaccessible e)"

definition is_locked :: "entity \<Rightarrow> bool" where
  "is_locked e \<longleftrightarrow> ent_inaccessible e \<noteq> []"

definition new_entity :: "string \<Rightarrow> string \<Rightarrow> entity" where
  "new_entity i t = \<lparr>ent_id = i, ent_type = t, ent_face = [], ent_props = [], ent_content = [],
     ent_updated = 0, ent_inaccessible = [], ent_redacted = []\<rparr>"

definition get_string :: "entity \<Rightarrow> string \<Rightarrow> string" where
  "get_string e key = (case dict_get (ent_props e) key of Some (VStr s) \<Rightarrow> s | _ \<Rightarrow> [])"

definition set_string :: "entity \<Rightarrow> string \<Rightarrow> string \<Rightarrow> entity" where
  "set_string e key v = e\<lparr>ent_props := dict_set key (VStr v) (ent_props e)\<rparr>"

definition entity_ref :: "entity \<Rightarrow> ref" where
  "entity_ref e = \<lparr>ref_id = ent_id e, ref_face = ent_face e\<rparr>"

text \<open>\<open>GetAttribute\<close>: the nil interface of a missing property is \<open>VNil\<close>.\<close>

definition get_attribute :: "entity \<Rightarrow> string \<Rightarrow> pval" where
  "get_attribute e name =
     (if name = ''id'' then VStr (ent_id e)
      else if name = ''type'' then VStr (ent_type e)
      else case dict_get (ent_props e) name of Some v \<Rightarrow> v | None \<Rightarrow> VNil)"

definition get_attribute_string :: "entity \<Rightarrow> string \<Rightarrow> string" where
  "get_attribute_string e name =
     (case get_attribute e name of VNil \<Rightarrow> [] | VStr s \<Rightarrow> s | v \<Rightarrow> show_pval v)"

definition get_attribute_strings :: "entity \<Rightarrow> string \<Rightarrow> string list" where
  "get_attribute_strings e name =
     (case get_attribute e name of
        VStrs ss \<Rightarrow> ss
      | VList vs \<Rightarrow> concat (map (\<lambda>v. case v of VStr s \<Rightarrow> [s] | _ \<Rightarrow> []) vs)
      | _ \<Rightarrow> [])"

definition relation_identity :: "relation \<Rightarrow> relation_key" where
  "relation_identity r = \<lparr>rk_from = rel_from r, rk_from_face = rel_from_face r,
     rk_type = rel_type r, rk_to = rel_to r\<rparr>"

definition relation_key :: "relation \<Rightarrow> string" where
  "relation_key r = relation_key_string (relation_identity r)"

definition new_relation :: "string \<Rightarrow> string \<Rightarrow> string \<Rightarrow> relation" where
  "new_relation f t u = \<lparr>rel_from = f, rel_from_face = [], rel_type = t, rel_to = u,
     rel_props = None, rel_content = [], rel_updated = 0, rel_inaccessible = []\<rparr>"

definition is_reserved_entity_key :: "string \<Rightarrow> bool" where
  "is_reserved_entity_key key \<longleftrightarrow> key = ''id'' \<or> key = ''type''"

definition is_entity_property_key :: "string \<Rightarrow> bool" where
  "is_entity_property_key key \<longleftrightarrow> \<not> is_reserved_entity_key key"

definition is_reserved_relation_key :: "string \<Rightarrow> bool" where
  "is_reserved_relation_key key \<longleftrightarrow>
     key = ''from'' \<or> key = ''from_face'' \<or> key = ''relation'' \<or> key = ''to''"

definition is_relation_property_key :: "string \<Rightarrow> bool" where
  "is_relation_property_key key \<longleftrightarrow> \<not> is_reserved_relation_key key"

definition entity_key :: "entity \<Rightarrow> string" where
  "entity_key e = format_state_ref (ent_id e) (ent_face e)"

end
