(* ===== verification/Sorted_Keys.thy ===== *)
theory Sorted_Keys
  imports Entity_Id "HOL-Library.Product_Lexorder"
begin

text \<open>
  Sorted key slices and pagination, from \<^verbatim>\<open>internal/store/storeutil/storeutil.go\<close>: the binary
  search of Go's \<open>slices\<close> package with the comparator the code passes it, insertion into and
  removal from a sorted slice, the order of entity state keys, opaque cursors (unpadded URL-safe
  base64) and the page scan. The locale \<open>key_order\<close> says what a comparator owes its callers and
  holds the lemmas of all the operations that take one; it is interpreted on \<open>strings.Compare\<close>
  and on \<open>CompareStateKeys\<close>.
\<close>

section \<open>Binary search, insertion and removal\<close>

text \<open>
  \<open>slices.BinarySearchFunc\<close>: the loop halves \<open>[i, j)\<close>; the result is the insertion point and
  whether the target is there.
\<close>

function search_loop :: "('a \<Rightarrow> 'a \<Rightarrow> int) \<Rightarrow> 'a list \<Rightarrow> 'a \<Rightarrow> nat \<Rightarrow> nat \<Rightarrow> nat" where
  "search_loop cmp xs target i j =
     (if i < j then
        let h = (i + j) div 2 in
        if cmp (xs ! h) target < 0 then search_loop cmp xs target (h + 1) j
        else search_loop cmp xs target i h
      else i)"
  by pat_completeness auto
termination
  by (relation "measure (\<lambda>(cmp, xs, target, i, j). j - i)") auto

declare search_loop.simps [simp del]

definition binary_search_func :: "('a \<Rightarrow> 'a \<Rightarrow> int) \<Rightarrow> 'a list \<Rightarrow> 'a \<Rightarrow> nat \<times> bool" where
  "binary_search_func cmp xs target =
     (let i = search_loop cmp xs target 0 (length xs)
      in (i, i < length xs \<and> cmp (xs ! i) target = 0))"

definition sorted_insert_func :: "string list \<Rightarrow> string \<Rightarrow> (string \<Rightarrow> string \<Rightarrow> int) \<Rightarrow> string list" where
  "sorted_insert_func s key cmp =
     (let (i, found) = binary_search_func cmp s key in take i s @ key # drop i s)"

text \<open>\<open>None\<close> is the panic of a missing key.\<close>

definition sorted_remove_func ::
  "string list \<Rightarrow> string \<Rightarrow> (string \<Rightarrow> string \<Rightarrow> int) \<Rightarrow> string list option" where
  "sorted_remove_func s key cmp =
     (let (i, found) = binary_search_func cmp s key
      in if found then Some (take i s @ drop (i + 1) s) else None)"

definition sorted_insert :: "string list \<Rightarrow> string \<Rightarrow> string list" where
  "sorted_insert s key = sorted_insert_func s key str_compare"

definition sorted_remove :: "string list \<Rightarrow> string \<Rightarrow> string list option" where
  "sorted_remove s key = sorted_remove_func s key str_compare"

definition compare_state_keys :: "string \<Rightarrow> string \<Rightarrow> int" where
  "compare_state_keys a b =
     (let (aID, aPtr, fa) = cut (CHR ''@'') a; (bID, bPtr, fb) = cut (CHR ''@'') b; c = str_compare aID bID
      in if c \<noteq> 0 then c else str_compare aPtr bPtr)"

section \<open>Cursors\<close>

text \<open>
  \<open>base64.RawURLEncoding\<close>: three bytes are four sextets, a rest of one or two bytes two or three.
  The decoder skips line breaks and refuses any other foreign character and a single left-over
  sextet; the unused low bits of a last sextet are ignored.
\<close>

definition sextet_char :: "nat \<Rightarrow> char" where
  "sextet_char n =
     (if n < 26 then char_of (65 + n) else if n < 52 then char_of (71 + n)
      else if n < 62 then char_of (n - 4) else if n = 62 then CHR ''-'' else CHR ''_'')"

definition char_sextet :: "char \<Rightarrow> nat option" where
  "char_sextet c =
     (if is_upper c then Some (code c - 65) else if is_lower c then Some (code c - 71)
      else if is_digit c then Some (code c + 4)
      else if c = CHR ''-'' then Some 62 else if c = CHR ''_'' then Some 63 else None)"

fun to_sextets :: "nat list \<Rightarrow> nat list" where
  "to_sextets [] = []"
| "to_sextets [a] = [a div 4, a mod 4 * 16]"
| "to_sextets [a, b] = [a div 4, a mod 4 * 16 + b div 16, b mod 16 * 4]"
| "to_sextets (a # b # c # bs) =
     a div 4 # (a mod 4 * 16 + b div 16) # (b mod 16 * 4 + c div 64) # c mod 64 # to_sextets bs"

fun of_sextets :: "nat list \<Rightarrow> nat list option" where
  "of_sextets [] = Some []"
| "of_sextets [w] = None"
| "of_sextets [w, x] = Some [w * 4 + x div 16]"
| "of_sextets [w, x, y] = Some [w * 4 + x div 16, x mod 16 * 16 + y div 4]"
| "of_sextets (w # x # y # z # ss) =
     map_option (\<lambda>bs. (w * 4 + x div 16) # (x mod 16 * 16 + y div 4) # (y mod 4 * 64 + z) # bs)
       (of_sextets ss)"

definition encode_cursor :: "string \<Rightarrow> string" where
  "encode_cursor key = map sextet_char (to_sextets (map code key))"

definition decode_cursor :: "string \<Rightarrow> string option" where
  "decode_cursor cursor =
     (if cursor = [] then Some []
      else let cs = filter (\<lambda>c. code c \<noteq> 10 \<and> code c \<noteq> 13) cursor in
        if list_all (\<lambda>c. char_sextet c \<noteq> None) cs
        then map_option (map char_of) (of_sextets (map (\<lambda>c. the (char_sextet c)) cs))
        else None)"

section \<open>Pages\<close>

record page_keys =
  pk_keys :: "string list"
  pk_next :: string

text \<open>The scan from the start position: \<open>page\<close> are the keys emitted so far.\<close>

fun page_loop :: "int \<Rightarrow> (string \<Rightarrow> bool) \<Rightarrow> string list \<Rightarrow> string list \<Rightarrow> page_keys" where
  "page_loop limit match [] page = \<lparr>pk_keys = page, pk_next = []\<rparr>"
| "page_loop limit match (key # rest) page =
     (if \<not> match key then page_loop limit match rest page
      else if 0 < limit \<and> int (length page) = limit
      then \<lparr>pk_keys = page, pk_next = encode_cursor (last page)\<rparr>
      else page_loop limit match rest (page @ [key]))"

definition page_start :: "string list \<Rightarrow> string \<Rightarrow> (string \<Rightarrow> string \<Rightarrow> int) \<Rightarrow> nat" where
  "page_start sortedKeys cursorKey cmp =
     (if cursorKey \<noteq> [] then
        let (i, found) = binary_search_func cmp sortedKeys cursorKey
        in if found then i + 1 else i
      else 0)"

definition paginate_sorted_keys_func ::
  "string list \<Rightarrow> string \<Rightarrow> int \<Rightarrow> (string \<Rightarrow> bool) \<Rightarrow> (string \<Rightarrow> string \<Rightarrow> int) \<Rightarrow> page_keys" where
  "paginate_sorted_keys_func sortedKeys cursorKey limit match cmp =
     page_loop limit match (drop (page_start sortedKeys cursorKey cmp) sortedKeys) []"

definition paginate_sorted_keys ::
  "string list \<Rightarrow> string \<Rightarrow> int \<Rightarrow> (string \<Rightarrow> bool) \<Rightarrow> page_keys" where
  "paginate_sorted_keys sortedKeys cursorKey limit match =
     paginate_sorted_keys_func sortedKeys cursorKey limit match str_compare"

section \<open>What a comparator promises, and what it buys\<close>

text \<open>
  A comparator agrees with the order of a key, and on its domain different values have
  different keys. A slice is in order when each element is strictly before the later ones.
\<close>

definition in_order :: "(string \<Rightarrow> string \<Rightarrow> int) \<Rightarrow> string list \<Rightarrow> bool" where
  "in_order cmp xs \<longleftrightarrow> sorted_wrt (\<lambda>a b. cmp a b < 0) xs"

text \<open>The search loop keeps: everything before \<open>i\<close> is smaller, everything from \<open>j\<close> on is not.\<close>

definition splits_at ::
  "(string \<Rightarrow> 'k::linorder) \<Rightarrow> string list \<Rightarrow> string \<Rightarrow> nat \<Rightarrow> nat \<Rightarrow> bool" where
  "splits_at okey xs t i j \<longleftrightarrow> i \<le> j \<and> j \<le> length xs \<and>
     (\<forall>k<i. okey (xs ! k) < okey t) \<and> (\<forall>k. j \<le> k \<and> k < length xs \<longrightarrow> okey t \<le> okey (xs ! k))"

locale key_order =
  fixes cmp :: "string \<Rightarrow> string \<Rightarrow> int"
    and okey :: "string \<Rightarrow> 'k::linorder"
    and dm :: "string \<Rightarrow> bool"
  assumes cmp_less: "cmp a b < 0 \<longleftrightarrow> okey a < okey b"
    and cmp_zero: "cmp a b = 0 \<longleftrightarrow> okey a = okey b"
    and okey_inject: "dm a \<Longrightarrow> dm b \<Longrightarrow> okey a = okey b \<Longrightarrow> a = b"
begin

lemma in_order_Cons: "in_order cmp (x # xs) \<longleftrightarrow> (\<forall>y\<in>set xs. okey x < okey y) \<and> in_order cmp xs"
  by (simp add: in_order_def cmp_less)

lemma in_order_append:
  "in_order cmp (xs @ ys) \<longleftrightarrow>
     in_order cmp xs \<and> in_order cmp ys \<and> (\<forall>x\<in>set xs. \<forall>y\<in>set ys. okey x < okey y)"
  by (auto simp: in_order_def sorted_wrt_append cmp_less)

lemma in_order_nth: "in_order cmp xs \<Longrightarrow> i < j \<Longrightarrow> j < length xs \<Longrightarrow> okey (xs ! i) < okey (xs ! j)"
  by (simp add: in_order_def sorted_wrt_iff_nth_less cmp_less)

lemma in_order_distinct: "in_order cmp xs \<Longrightarrow> distinct xs"
  by (induction xs) (auto simp: in_order_Cons)

lemma in_order_filter: "in_order cmp xs \<Longrightarrow> in_order cmp (filter P xs)"
  by (simp add: in_order_def sorted_wrt_filter)

lemma splits_at_step:
  assumes o: "in_order cmp xs" and s: "splits_at okey xs t i j" and lt: "i < j"
  defines "h \<equiv> (i + j) div 2"
  shows "okey (xs ! h) < okey t \<Longrightarrow> splits_at okey xs t (h + 1) j"
    and "\<not> okey (xs ! h) < okey t \<Longrightarrow> splits_at okey xs t i h"
proof -
  have h: "i \<le> h" "h < j" and j: "j \<le> length xs" using lt s by (auto simp: h_def splits_at_def)
  show "splits_at okey xs t (h + 1) j" if "okey (xs ! h) < okey t"
    unfolding splits_at_def
  proof (intro conjI allI impI)
    fix k
    assume "k < h + 1"
    then have "k = h \<or> k < h" by auto
    then show "okey (xs ! k) < okey t"
      using in_order_nth [OF o, of k h] h j that by (auto intro: less_trans)
  qed (use s h in \<open>auto simp: splits_at_def\<close>)
  show "splits_at okey xs t i h" if "\<not> okey (xs ! h) < okey t"
    unfolding splits_at_def
  proof (intro conjI allI impI)
    fix k
    assume k: "h \<le> k \<and> k < length xs"
    then have "k = h \<or> h < k" by auto
    then show "okey t \<le> okey (xs ! k)"
      using in_order_nth [OF o, of h k] k that by (auto simp: not_less intro: less_imp_le order_trans)
  qed (use s h in \<open>auto simp: splits_at_def\<close>)
qed

lemma search_loop_splits:
  "in_order cmp xs \<Longrightarrow> splits_at okey xs t i j \<Longrightarrow>
   splits_at okey xs t (search_loop cmp xs t i j) (search_loop cmp xs t i j)"
proof (induction "j - i" arbitrary: i j rule: less_induct)
  case less
  let ?h = "(i + j) div 2"
  show ?case
  proof (cases "i < j")
    case True
    note st = splits_at_step [OF less.prems True]
    show ?thesis
    proof (cases "okey (xs ! ?h) < okey t")
      case lo: True
      with less.hyps [of j "?h + 1"] st(1) less.prems(1) True show ?thesis
        by (simp add: search_loop.simps [of cmp xs t i j] Let_def cmp_less)
    next
      case False
      with less.hyps [of ?h i] st(2) less.prems(1) True show ?thesis
        by (simp add: search_loop.simps [of cmp xs t i j] Let_def cmp_less)
    qed
  next
    case False
    then have "search_loop cmp xs t i j = i" by (simp add: search_loop.simps)
    moreover have "i = j" using False less.prems(2) by (simp add: splits_at_def)
    ultimately show ?thesis using less.prems(2) by simp
  qed
qed

text \<open>Both halves at once: the search cuts the slice into the smaller and the other elements.\<close>

lemma binary_search_parts:
  assumes "in_order cmp xs"
  obtains i found where "binary_search_func cmp xs t = (i, found)"
    and "take i xs = filter (\<lambda>x. okey x < okey t) xs"
    and "drop i xs = filter (\<lambda>x. \<not> okey x < okey t) xs"
    and "found \<longleftrightarrow> okey t \<in> okey ` set xs"
    and "found \<Longrightarrow> drop i xs = xs ! i # drop (i + 1) xs \<and> okey (xs ! i) = okey t"
proof -
  let ?i = "search_loop cmp xs t 0 (length xs)"
  have s: "splits_at okey xs t ?i ?i"
    by (rule search_loop_splits [OF assms]) (auto simp: splits_at_def)
  have le: "?i \<le> length xs"
    and lo: "\<And>k. k < ?i \<Longrightarrow> okey (xs ! k) < okey t"
    and hi: "\<And>k. ?i \<le> k \<Longrightarrow> k < length xs \<Longrightarrow> okey t \<le> okey (xs ! k)"
    using s by (auto simp: splits_at_def)
  have lo': "\<forall>x\<in>set (take ?i xs). okey x < okey t"
    using lo le by (auto simp: in_set_conv_nth)
  have hi': "\<forall>x\<in>set (drop ?i xs). \<not> okey x < okey t"
    using hi le by (auto simp: in_set_conv_nth not_less)
  have f: "filter P xs = filter P (take ?i xs) @ filter P (drop ?i xs)" for P
    by (metis append_take_drop_id filter_append)
  have found: "?i < length xs \<and> cmp (xs ! ?i) t = 0 \<longleftrightarrow> okey t \<in> okey ` set xs"
  proof
    assume "okey t \<in> okey ` set xs"
    then obtain k where k: "k < length xs" "okey (xs ! k) = okey t" by (auto simp: in_set_conv_nth)
    with lo have "?i \<le> k" by (metis less_irrefl not_less)
    moreover have "\<not> ?i < k"
      using in_order_nth [OF assms, of ?i k] hi [of ?i] k by auto
    ultimately show "?i < length xs \<and> cmp (xs ! ?i) t = 0" using k by (simp add: cmp_zero)
  qed (auto simp: cmp_zero image_iff intro!: bexI [of _ "xs ! ?i"])
  show ?thesis
  proof (rule that)
    show "binary_search_func cmp xs t = (?i, ?i < length xs \<and> cmp (xs ! ?i) t = 0)"
      by (simp add: binary_search_func_def Let_def)
    show "take ?i xs = filter (\<lambda>x. okey x < okey t) xs"
      and "drop ?i xs = filter (\<lambda>x. \<not> okey x < okey t) xs"
      using lo' hi' by (simp_all add: f)
    show "(?i < length xs \<and> cmp (xs ! ?i) t = 0) = (okey t \<in> okey ` set xs)" by (rule found)
    show "drop ?i xs = xs ! ?i # drop (?i + 1) xs \<and> okey (xs ! ?i) = okey t"
      if "?i < length xs \<and> cmp (xs ! ?i) t = 0"
      using that by (simp add: Cons_nth_drop_Suc cmp_zero)
  qed
qed

lemma sorted_insert_set:
  assumes "in_order cmp xs" and "okey k \<notin> okey ` set xs"
  shows "in_order cmp (sorted_insert_func xs k cmp)"
    and "set (sorted_insert_func xs k cmp) = insert k (set xs)"
proof -
  from binary_search_parts [OF assms(1), of k] obtain i found
    where b: "binary_search_func cmp xs k = (i, found)"
      and t: "take i xs = filter (\<lambda>x. okey x < okey k) xs"
      and d: "drop i xs = filter (\<lambda>x. \<not> okey x < okey k) xs" by metis
  have "okey k < okey x" if "x \<in> set xs" "\<not> okey x < okey k" for x
    using assms(2) that by (metis image_eqI linorder_neqE)
  then show "in_order cmp (sorted_insert_func xs k cmp)"
    using assms(1) by (auto simp: sorted_insert_func_def b t d in_order_append in_order_Cons
        in_order_filter intro: less_trans)
  show "set (sorted_insert_func xs k cmp) = insert k (set xs)"
    by (auto simp: sorted_insert_func_def b t d)
qed

lemma sorted_remove_set:
  assumes o: "in_order cmp xs" and k: "k \<in> set xs" and dm: "\<forall>x\<in>set xs. dm x"
  obtains ys where "sorted_remove_func xs k cmp = Some ys" and "in_order cmp ys"
    and "set ys = set xs - {k}"
proof -
  from binary_search_parts [OF o, of k] obtain i found
    where b: "binary_search_func cmp xs k = (i, found)"
      and t: "take i xs = filter (\<lambda>x. okey x < okey k) xs"
      and f: "found \<longleftrightarrow> okey k \<in> okey ` set xs"
      and c: "found \<Longrightarrow> drop i xs = xs ! i # drop (i + 1) xs \<and> okey (xs ! i) = okey k" by metis
  have found: found using f k by blast
  let ?ys = "take i xs @ drop (i + 1) xs"
  have xs: "xs = take i xs @ xs ! i # drop (i + 1) xs" using c [OF found] by (metis append_take_drop_id)
  then have "xs ! i \<in> set xs" by (metis in_set_conv_decomp)
  then have e: "xs ! i = k" using c [OF found] dm k okey_inject by blast
  have "in_order cmp ?ys"
    using o by (subst (asm) xs) (auto simp: in_order_append in_order_Cons simp del: append_take_drop_id)
  moreover have "set xs = insert k (set ?ys)" using xs e by (metis Un_insert_right list.set(2) set_append)
  moreover have "k \<notin> set ?ys"
    using in_order_distinct [OF o] xs e by (metis distinct.simps(2) distinct_append disjoint_iff set_append Un_iff list.set_intros(1))
  ultimately show ?thesis
    using that [of ?ys] b found by (auto simp: sorted_remove_func_def)
qed

lemma drop_page_start:
  assumes o: "in_order cmp xs" and c: "cur \<noteq> []"
  shows "drop (page_start xs cur cmp) xs = filter (\<lambda>x. okey cur < okey x) xs"
proof -
  from binary_search_parts [OF o, of cur] obtain i found
    where b: "binary_search_func cmp xs cur = (i, found)"
      and d: "drop i xs = filter (\<lambda>x. \<not> okey x < okey cur) xs"
      and f: "found \<longleftrightarrow> okey cur \<in> okey ` set xs"
      and h: "found \<Longrightarrow> drop i xs = xs ! i # drop (i + 1) xs \<and> okey (xs ! i) = okey cur" by metis
  have fl: "filter (\<lambda>x. okey cur < okey x) (drop i xs) = filter (\<lambda>x. okey cur < okey x) xs"
    unfolding d filter_filter by (rule filter_cong) auto
  show ?thesis
  proof (cases found)
    case True
    have o': "in_order cmp (drop i xs)" using o d by (simp add: in_order_filter)
    have "filter (\<lambda>x. okey cur < okey x) (drop i xs) = drop (i + 1) xs"
      using h [OF True] o' by (metis (no_types, lifting) filter.simps(2) filter_True in_order_Cons less_irrefl)
    with True c b fl show ?thesis by (simp add: page_start_def)
  next
    case False
    then have "\<forall>x\<in>set xs. okey x \<noteq> okey cur" using f by (metis image_eqI)
    then have "\<forall>x\<in>set (drop i xs). okey cur < okey x"
      using order_le_imp_less_or_eq by (fastforce simp: d not_less)
    then have "filter (\<lambda>x. okey cur < okey x) (drop i xs) = drop i xs" by (simp add: filter_id_conv)
    with False c b fl show ?thesis by (simp add: page_start_def)
  qed
qed

lemma filter_after_split:
  assumes "in_order cmp (as @ c # bs)"
  shows "filter (\<lambda>x. okey c < okey x) (as @ c # bs) = bs"
  using assms by (auto simp: in_order_append in_order_Cons filter_empty_conv filter_id_conv dest: less_asym)

end

section \<open>The cursor codec\<close>

lemma sextet_char_code:
  "n < 64 \<Longrightarrow> char_sextet (sextet_char n) = Some n \<and> code (sextet_char n) \<noteq> 10 \<and> code (sextet_char n) \<noteq> 13"
proof -
  assume n: "n < 64"
  have "code (CHR ''-'') = 45" "code (CHR ''_'') = 95" by (simp_all add: code_def)
  then have ch: "c = CHR ''-'' \<longleftrightarrow> code c = 45" "c = CHR ''_'' \<longleftrightarrow> code c = 95" for c
    using code_inject by metis+
  have co: "code (sextet_char n) = (if n < 26 then 65 + n else if n < 52 then 71 + n
      else if n < 62 then n - 4 else if n = 62 then 45 else 95)"
    using n by (simp add: sextet_char_def code_char_of \<open>code (CHR ''-'') = 45\<close> \<open>code (CHR ''_'') = 95\<close>)
  have "char_sextet (sextet_char n) = Some n"
    unfolding char_sextet_def is_upper_def is_lower_def is_digit_def ch co using n by auto
  moreover have "code (sextet_char n) \<noteq> 10 \<and> code (sextet_char n) \<noteq> 13" unfolding co by auto
  ultimately show ?thesis by simp
qed

lemma join_parts: "y < k \<Longrightarrow> (x * k + y) div k = x \<and> (x * k + y) mod k = y" for x y k :: nat
  by simp

lemma sextet_parts:
  fixes a b c :: nat
  assumes "a < 256" and "b < 256" and "c < 256"
  shows "a div 4 < 64" "a mod 4 * 16 + b div 16 < 64" "b mod 16 * 4 + c div 64 < 64" "c mod 64 < 64"
    and "a div 4 * 4 + (a mod 4 * 16 + b div 16) div 16 = a"
    and "(a mod 4 * 16 + b div 16) mod 16 * 16 + (b mod 16 * 4 + c div 64) div 4 = b"
    and "(b mod 16 * 4 + c div 64) mod 4 * 64 + c mod 64 = c"
proof -
  have b: "b div 16 < 16" and c: "c div 64 < 4" and m: "a mod 4 < 4" "b mod 16 < 16"
    using assms by auto
  show "a div 4 < 64" "c mod 64 < 64" using assms by auto
  show "a mod 4 * 16 + b div 16 < 64" "b mod 16 * 4 + c div 64 < 64" using b c m by linarith+
  note 1 = join_parts [OF b, of "a mod 4"] and 2 = join_parts [OF c, of "b mod 16"]
  show "a div 4 * 4 + (a mod 4 * 16 + b div 16) div 16 = a" using 1 by simp
  show "(a mod 4 * 16 + b div 16) mod 16 * 16 + (b mod 16 * 4 + c div 64) div 4 = b" using 1 2 by simp
  show "(b mod 16 * 4 + c div 64) mod 4 * 64 + c mod 64 = c" using 2 by simp
qed

lemma of_to_sextets:
  "\<forall>b\<in>set bs. b < 256 \<Longrightarrow> of_sextets (to_sextets bs) = Some bs \<and> (\<forall>x\<in>set (to_sextets bs). x < 64)"
proof (induction bs rule: to_sextets.induct)
  case (4 a b c bs)
  with sextet_parts [of a b c] show ?case by (simp del: div_mult_self3 div_mult_self4 mod_mult_self3 mod_mult_self4)
next
  case (3 a b)
  with sextet_parts [of a b 0] show ?case by simp
next
  case (2 a)
  with sextet_parts [of a 0 0] show ?case by simp
qed simp

lemma to_sextets_nonempty: "bs \<noteq> [] \<Longrightarrow> to_sextets bs \<noteq> []"
  by (cases bs rule: to_sextets.cases) auto

lemma encode_cursor_eq_Nil [simp]: "encode_cursor key = [] \<longleftrightarrow> key = []"
  using to_sextets_nonempty [of "map code key"] by (auto simp: encode_cursor_def)

lemma decode_encode_cursor_eq: "decode_cursor (encode_cursor key) = Some key"
proof (cases "key = []")
  case False
  let ?bs = "map code key"
  have s: "of_sextets (to_sextets ?bs) = Some ?bs" "\<forall>x\<in>set (to_sextets ?bs). x < 64"
    using of_to_sextets [of ?bs] by (auto simp: code_lt_256)
  have f: "filter (\<lambda>c. code c \<noteq> 10 \<and> code c \<noteq> 13) (encode_cursor key) = encode_cursor key"
    using s(2) sextet_char_code by (auto simp: encode_cursor_def filter_id_conv)
  have v: "list_all (\<lambda>c. char_sextet c \<noteq> None) (encode_cursor key)"
    using s(2) sextet_char_code by (auto simp: encode_cursor_def list_all_iff)
  have m: "map (\<lambda>c. the (char_sextet c)) (encode_cursor key) = to_sextets ?bs"
    using s(2) sextet_char_code by (auto simp: encode_cursor_def intro!: map_idI)
  have "map (char_of \<circ> code) key = key" by (simp add: code_def map_idI)
  moreover have "encode_cursor key \<noteq> []" using False by simp
  ultimately show ?thesis
    using False s(1) unfolding decode_cursor_def f Let_def m by (simp only: v if_True if_False) simp
qed (simp add: decode_cursor_def encode_cursor_def)

text \<open>
  A cursor is opaque but exact: decoding what \<open>EncodeCursor\<close> made of any sort key, of any
  length and with any bytes, gives the key back, and only the empty key has the empty cursor,
  which is the mark for "no more results".
\<close>
theorem decode_encode_cursor:
  "decode_cursor (encode_cursor key) = Some key \<and> (encode_cursor key = [] \<longleftrightarrow> key = [])"
  by (simp add: decode_encode_cursor_eq)

section \<open>The two comparators of the code\<close>

definition state_key :: "string \<Rightarrow> string \<times> string" where
  "state_key k = (let (i, p, f) = cut (CHR ''@'') k in (i, p))"

text \<open>A state key is an id, or an id and a non-empty face behind the separator.\<close>

definition is_state_key :: "string \<Rightarrow> bool" where
  "is_state_key k = (let (i, p, f) = cut (CHR ''@'') k in i \<noteq> [] \<and> (f \<longrightarrow> p \<noteq> []))"

lemma cut_not_found: "cut c s = (a, b, f) \<Longrightarrow> \<not> f \<Longrightarrow> b = []"
  by (metis cut_def cut_no_sep prod.inject)

lemma is_state_key_format:
  "CHR ''@'' \<notin> set i \<Longrightarrow> i \<noteq> [] \<Longrightarrow>
   is_state_key (format_state_ref i p) \<and> state_key (format_state_ref i p) = (i, p)"
  by (auto simp: is_state_key_def state_key_def cut_format_state_ref is_implicit_def)

interpretation str: key_order str_compare "\<lambda>s. s" "\<lambda>s. True"
  by unfold_locales (auto simp: str_compare_neg)

interpretation sk: key_order compare_state_keys state_key is_state_key
proof
  fix a b
  obtain i p f where a: "cut (CHR ''@'') a = (i, p, f)" by (cases "cut (CHR ''@'') a") auto
  obtain j q g where b: "cut (CHR ''@'') b = (j, q, g)" by (cases "cut (CHR ''@'') b") auto
  show "(compare_state_keys a b < 0) = (state_key a < state_key b)"
    by (auto simp: compare_state_keys_def state_key_def a b Let_def str_compare_neg)
  show "(compare_state_keys a b = 0) = (state_key a = state_key b)"
    by (simp add: compare_state_keys_def state_key_def a b Let_def)
  show "a = b" if "is_state_key a" "is_state_key b" "state_key a = state_key b"
  proof -
    have "i = j" "p = q" using that(3) by (auto simp: state_key_def a b)
    moreover have "f \<longleftrightarrow> p \<noteq> []" "g \<longleftrightarrow> q \<noteq> []"
      using that(1,2) cut_not_found [OF a] cut_not_found [OF b] by (auto simp: is_state_key_def a b)
    ultimately show ?thesis using cut_join [OF a] cut_join [OF b] by simp
  qed
qed

section \<open>The key index and its pages\<close>

lemma page_loop_all:
  "limit \<le> 0 \<Longrightarrow> page_loop limit match ks page = \<lparr>pk_keys = page @ filter match ks, pk_next = []\<rparr>"
  by (induction ks arbitrary: page) simp_all

lemma page_loop_limit:
  assumes "0 < limit" and "int (length page) \<le> limit"
  shows "page_loop limit match ks page =
    (let found = page @ filter match ks; shown = take (nat limit) found
     in \<lparr>pk_keys = shown, pk_next = (if int (length found) > limit then encode_cursor (last shown) else [])\<rparr>)"
  using assms(2)
proof (induction ks arbitrary: page)
  case Nil
  then show ?case by (simp add: Let_def)
next
  case (Cons k ks)
  show ?case
  proof (cases "match k \<and> int (length page) = limit")
    case True
    then have "nat limit = length page" by auto
    with True assms(1) show ?thesis by (simp add: Let_def)
  next
    case False
    with Cons.IH [of page] Cons.IH [of "page @ [k]"] Cons.prems assms(1) show ?thesis by (auto simp: Let_def)
  qed
qed

text \<open>Following \<open>NextCursor\<close> from a cursor, at most \<open>n\<close> pages.\<close>

fun follow_pages :: "(string \<Rightarrow> page_keys) \<Rightarrow> nat \<Rightarrow> string \<Rightarrow> string list list" where
  "follow_pages fetch 0 cursor = []"
| "follow_pages fetch (Suc n) cursor =
     (case decode_cursor cursor of
        None \<Rightarrow> []
      | Some key \<Rightarrow>
          (let p = fetch key in
           pk_keys p # (if pk_next p = [] then [] else follow_pages fetch n (pk_next p))))"

context key_order
begin

definition after_cursor :: "string \<Rightarrow> string list \<Rightarrow> string list" where
  "after_cursor cur xs = (if cur = [] then xs else filter (\<lambda>x. okey cur < okey x) xs)"

lemma drop_start: "in_order cmp xs \<Longrightarrow> drop (page_start xs cur cmp) xs = after_cursor cur xs"
  by (cases "cur = []") (simp_all add: after_cursor_def drop_page_start, simp add: page_start_def)

lemma filter_after: "filter P (after_cursor cur xs) = after_cursor cur (filter P xs)"
  by (simp add: after_cursor_def filter_filter conj_commute)

lemma after_last:
  assumes "in_order cmp xs" and "after_cursor cur xs = as @ c # bs" and "c \<noteq> []"
  shows "after_cursor c xs = bs"
proof -
  have "in_order cmp (as @ c # bs)"
    using assms(1) by (simp flip: assms(2)) (simp add: after_cursor_def in_order_filter)
  note split = filter_after_split [OF this]
  have "cur = [] \<or> okey cur < okey c"
  proof -
    have "c \<in> set (after_cursor cur xs)" by (simp add: assms(2))
    then show ?thesis by (auto simp: after_cursor_def split: if_splits)
  qed
  then have "filter (\<lambda>x. okey c < okey x) xs = filter (\<lambda>x. okey c < okey x) (after_cursor cur xs)"
    by (auto simp: after_cursor_def filter_filter intro!: filter_cong intro: less_trans)
  with split show ?thesis using assms(2,3) by (simp add: after_cursor_def)
qed

lemma follow_pages_from:
  fixes match :: "string \<Rightarrow> bool"
  assumes o: "in_order cmp xs" and ne: "[] \<notin> set xs" and lim: "0 < limit"
    and fetch: "\<And>cur. cur = [] \<or> cur \<in> set (filter match xs) \<Longrightarrow>
      fetch cur = paginate_sorted_keys_func xs cur limit match cmp"
  shows "cur = [] \<or> cur \<in> set (filter match xs) \<Longrightarrow>
    length (filter match (after_cursor cur xs)) \<le> nat limit * n \<Longrightarrow> 0 < n \<Longrightarrow>
    concat (follow_pages fetch n (encode_cursor cur)) = filter match (after_cursor cur xs) \<and>
    (\<forall>p\<in>set (follow_pages fetch n (encode_cursor cur)). length p \<le> nat limit)"
proof (induction n arbitrary: cur)
  case (Suc n)
  let ?M = "filter match (after_cursor cur xs)" and ?s = "take (nat limit) (filter match (after_cursor cur xs))"
  have f: "fetch cur = \<lparr>pk_keys = ?s,
      pk_next = (if int (length ?M) > limit then encode_cursor (last ?s) else [])\<rparr>"
    using lim page_loop_limit [OF lim, of "[]"] drop_start [OF o]
    unfolding fetch [OF Suc.prems(1)] by (simp add: paginate_sorted_keys_func_def Let_def)
  show ?case
  proof (cases "int (length ?M) > limit")
    case False
    then show ?thesis by (simp add: decode_encode_cursor_eq f)
  next
    case True
    then have len: "length ?s = nat limit" "?s \<noteq> []" using lim by auto
    define c where "c = last ?s"
    have "?s = butlast ?s @ [c]" unfolding c_def using len(2) by (rule append_butlast_last_id [symmetric])
    then have M: "?M = butlast ?s @ c # drop (nat limit) ?M"
      by (metis append_take_drop_id append.assoc append_Cons append_Nil)
    have "c \<in> set ?s" unfolding c_def using len(2) by (rule last_in_set)
    then have cm: "c \<in> set (filter match xs)"
      by (auto simp: after_cursor_def dest!: in_set_takeD split: if_splits)
    with ne have c: "c \<noteq> []" by auto
    have "after_cursor c (filter match xs) = drop (nat limit) ?M"
    proof (rule after_last [OF in_order_filter [OF o] _ c])
      show "after_cursor cur (filter match xs) = butlast ?s @ c # drop (nat limit) ?M"
        using M by (simp add: filter_after)
    qed
    then have rest: "filter match (after_cursor c xs) = drop (nat limit) ?M" by (simp add: filter_after)
    have "0 < n" using Suc.prems(2) True lim by (cases n) auto
    moreover have "length (drop (nat limit) ?M) \<le> nat limit * n" using Suc.prems(2) by simp
    ultimately have IH: "concat (follow_pages fetch n (encode_cursor c)) = drop (nat limit) ?M \<and>
        (\<forall>p\<in>set (follow_pages fetch n (encode_cursor c)). length p \<le> nat limit)"
      using Suc.IH [of c, unfolded rest] cm by blast
    have "follow_pages fetch (Suc n) (encode_cursor cur) = ?s # follow_pages fetch n (encode_cursor c)"
    proof -
      have "pk_next (fetch cur) = encode_cursor c" "pk_keys (fetch cur) = ?s"
        using f True by (simp_all add: c_def)
      with c show ?thesis by (simp add: decode_encode_cursor_eq)
    qed
    moreover have "?s @ drop (nat limit) ?M = ?M" by (rule append_take_drop_id)
    ultimately show ?thesis using IH by (simp del: append_take_drop_id)
  qed
qed simp

end

definition key_index :: "string list \<Rightarrow> bool" where
  "key_index ks \<longleftrightarrow> in_order compare_state_keys ks \<and> list_all is_state_key ks"

text \<open>
  C38: A listing read page by page is the listing. On an index of state keys in the
  \<open>CompareStateKeys\<close> order, following the cursors of \<open>PaginateSortedKeysFunc\<close> from the empty
  cursor gives pages of at most \<open>limit\<close> keys whose concatenation is exactly the matching keys in
  order, each once; enough pages are the number of matches divided by the limit, rounded up
  (one page when nothing matches).
\<close>
theorem pages_are_listing:
  assumes "key_index ks" and "0 < limit" and "0 < n" and "length (filter match ks) \<le> nat limit * n"
  shows "concat (follow_pages (\<lambda>cur. paginate_sorted_keys_func ks cur limit match compare_state_keys) n [])
      = filter match ks \<and>
    list_all (\<lambda>page. length page \<le> nat limit)
      (follow_pages (\<lambda>cur. paginate_sorted_keys_func ks cur limit match compare_state_keys) n [])"
proof -
  have "[] \<notin> set ks" using assms(1) by (auto simp: key_index_def list_all_iff is_state_key_def cut_def)
  then show ?thesis
    using sk.follow_pages_from [of ks limit match
      "\<lambda>cur. paginate_sorted_keys_func ks cur limit match compare_state_keys" "[]" n] assms
    by (simp add: key_index_def sk.after_cursor_def list_all_iff encode_cursor_def)
qed

theorem pages_are_listing_witness:
  "concat (follow_pages (\<lambda>cur. paginate_sorted_keys_func [''P-1'', ''P-1@draft'', ''P-10'', ''P-2''] cur 2
      (\<lambda>k. k \<noteq> ''P-10'') compare_state_keys) 2 []) = [''P-1'', ''P-1@draft'', ''P-2'']"
proof -
  have 1: "key_index [''P-1'', ''P-1@draft'', ''P-10'', ''P-2'']" by code_simp
  have 2: "length (filter (\<lambda>k. k \<noteq> ''P-10'') [''P-1'', ''P-1@draft'', ''P-10'', ''P-2'']) \<le> nat 2 * 2"
    by code_simp
  show ?thesis using pages_are_listing [OF 1 _ _ 2] by simp
qed

text \<open>The index operations of the store, in the form its proofs use them.\<close>

lemma key_index_insert:
  assumes "key_index ks" and "is_state_key k" and "k \<notin> set ks"
  shows "key_index (sorted_insert_func ks k compare_state_keys)"
    and "set (sorted_insert_func ks k compare_state_keys) = insert k (set ks)"
proof -
  have k: "state_key k \<notin> state_key ` set ks"
    using assms sk.okey_inject [of k] by (auto simp: key_index_def list_all_iff)
  note i = sk.sorted_insert_set [of ks k]
  show "set (sorted_insert_func ks k compare_state_keys) = insert k (set ks)"
    using i(2) k assms(1) by (simp add: key_index_def)
  then show "key_index (sorted_insert_func ks k compare_state_keys)"
    using i(1) k assms(1,2) by (simp add: key_index_def list_all_iff)
qed

lemma key_index_remove:
  assumes "key_index ks" and "k \<in> set ks"
  obtains ys where "sorted_remove_func ks k compare_state_keys = Some ys" and "key_index ys"
    and "set ys = set ks - {k}"
  using sk.sorted_remove_set [of ks k] assms by (auto simp: key_index_def list_all_iff)

definition plain_index :: "string list \<Rightarrow> bool" where
  "plain_index ks \<longleftrightarrow> in_order str_compare ks"

lemma plain_index_insert:
  assumes "plain_index ks" and "k \<notin> set ks"
  shows "plain_index (sorted_insert ks k)" and "set (sorted_insert ks k) = insert k (set ks)"
  using str.sorted_insert_set [of ks k] assms by (simp_all add: plain_index_def sorted_insert_def)

lemma plain_index_remove:
  assumes "plain_index ks" and "k \<in> set ks"
  obtains ys where "sorted_remove ks k = Some ys" and "plain_index ys" and "set ys = set ks - {k}"
  using str.sorted_remove_set [of ks k] assms by (auto simp: plain_index_def sorted_remove_def)

end
