(* ===== verification/Store_Rules.thy ===== *)
theory Store_Rules
  imports Entity_Model Sorted_Keys "HOL-Library.Multiset"
begin

text \<open>
  The rules every store backend applies at its boundary, from
  \<^verbatim>\<open>internal/store/storeutil/\<close> (storeutil.go, props.go, familyreplace.go) and \<^verbatim>\<open>internal/store/\<close>
  (store.go, familyreplace.go, version.go): which ids, relation types, property names, property
  texts, attachment names and family replacements are accepted, which relations a query matches,
  and the compare-and-swap token of an entity. SHA-256 is a parameter; its input is modelled.
\<close>

section \<open>Names\<close>

datatype relation_type_error = RTEmpty | RTDashes | RTSeparator | RTControl

definition validate_relation_type :: "string \<Rightarrow> relation_type_error option" where
  "validate_relation_type t =
     (if t = [] then Some RTEmpty
      else if contains t ''--'' then Some RTDashes
      else if list_ex (\<lambda>c. c = CHR ''/'' \<or> code c = 92) t then Some RTSeparator
      else if list_ex is_control t then Some RTControl
      else None)"

datatype property_error = PropEmpty | PropSlash

definition validate_property :: "string \<Rightarrow> property_error option" where
  "validate_property p =
     (if p = [] then Some PropEmpty else if contains p ''/'' then Some PropSlash else None)"

datatype file_name_error = FNEmpty | FNSeparator | FNNul | FNDirectory

definition validate_file_name :: "string \<Rightarrow> file_name_error option" where
  "validate_file_name s =
     (if s = [] then Some FNEmpty
      else if list_ex (\<lambda>c. c = CHR ''/'' \<or> code c = 92) s then Some FNSeparator
      else if list_ex (\<lambda>c. code c = 0) s then Some FNNul
      else if s = ''.'' \<or> s = ''..'' then Some FNDirectory
      else None)"

definition fold_id :: "string \<Rightarrow> string" where
  "fold_id s = to_lower s"

definition is_state_ref :: "string \<Rightarrow> bool" where
  "is_state_ref s \<longleftrightarrow> contains s ''@''"

definition addressable :: "ref \<Rightarrow> bool" where
  "addressable r \<longleftrightarrow>
     \<not> (ref_id r = [] \<or> is_state_ref (ref_id r) \<or> list_ex (\<lambda>c. code c = 0) (ref_id r)) \<and>
     (is_implicit (ref_face r) \<or> (case parse_face (ref_face r) of Inl e \<Rightarrow> False | Inr p \<Rightarrow> True))"

section \<open>UTF-8 and property texts\<close>

definition cont_byte :: "nat \<Rightarrow> nat \<Rightarrow> string \<Rightarrow> nat \<Rightarrow> bool" where
  "cont_byte lo hi s k \<longleftrightarrow> k < length s \<and> lo \<le> code (s ! k) \<and> code (s ! k) \<le> hi"

text \<open>The number of bytes of the rune at the front of a string, 0 when it is not well formed.\<close>

definition rune_width :: "string \<Rightarrow> nat" where
  "rune_width s =
     (if s = [] then 0
      else let b = code (s ! 0) in
        if b < 128 then 1
        else if 194 \<le> b \<and> b \<le> 223 then if cont_byte 128 191 s 1 then 2 else 0
        else if 224 \<le> b \<and> b \<le> 239 then
          if cont_byte (if b = 224 then 160 else 128) (if b = 237 then 159 else 191) s 1 \<and>
             cont_byte 128 191 s 2 then 3 else 0
        else if 240 \<le> b \<and> b \<le> 244 then
          if cont_byte (if b = 240 then 144 else 128) (if b = 244 then 143 else 191) s 1 \<and>
             cont_byte 128 191 s 2 \<and> cont_byte 128 191 s 3 then 4 else 0
        else 0)"

function utf8_valid :: "string \<Rightarrow> bool" where
  "utf8_valid s =
     (if s = [] then True
      else if rune_width s = 0 then False
      else utf8_valid (drop (rune_width s) s))"
  by pat_completeness auto
termination
proof (relation "measure length", goal_cases)
  case (2 s)
  then have "s \<noteq> []" "0 < rune_width s" by auto
  then show ?case by simp
qed simp

declare utf8_valid.simps [simp del]

datatype text_error = BadUtf8 string | HasNul string

definition check_text :: "string \<Rightarrow> string \<Rightarrow> text_error option" where
  "check_text what s =
     (if \<not> utf8_valid s then Some (BadUtf8 what)
      else if list_ex (\<lambda>c. code c = 0) s then Some (HasNul what)
      else None)"

definition indexed :: "string \<Rightarrow> nat \<Rightarrow> string" where
  "indexed path i = path @ ''['' @ show_nat i @ '']''"

fun first_error :: "'e option list \<Rightarrow> 'e option" where
  "first_error [] = None"
| "first_error (None # es) = first_error es"
| "first_error (Some e # es) = Some e"

function (sequential) validate_property_value :: "string \<Rightarrow> pval \<Rightarrow> text_error option" where
  "validate_property_value path (VStr s) = check_text path s"
| "validate_property_value path (VStrs ss) =
     first_error (map (\<lambda>(i, s). check_text (indexed path i) s) (zip [0..<length ss] ss))"
| "validate_property_value path (VList vs) =
     first_error (map (\<lambda>(i, v). validate_property_value (indexed path i) v) (zip [0..<length vs] vs))"
| "validate_property_value path (VStrMap m) =
     first_error (concat (map (\<lambda>(k, s). [check_text path k, check_text (path @ ''.'' @ k) s]) m))"
| "validate_property_value path (VMap m) =
     first_error (concat (map (\<lambda>(k, v). [check_text path k, validate_property_value (path @ ''.'' @ k) v]) m))"
| "validate_property_value path _ = None"
  by pat_completeness auto
termination
proof (relation "measure (\<lambda>(path, v). size v)", goal_cases)
  case (2 path vs x i v)
  then have "v \<in> set vs" by (metis set_zip_rightD)
  then have "size v \<le> size_list size vs" by (intro size_list_estimation' [OF _ order_refl])
  then show ?case by simp
next
  case (3 path m x k v)
  then have "size_prod (\<lambda>k. 0) size (k, v) \<le> size_list (size_prod (\<lambda>k. 0) size) m"
    by (intro size_list_estimation' [OF _ order_refl]) simp
  then show ?case by simp
qed simp

definition validate_properties :: "pval dict \<Rightarrow> text_error option" where
  "validate_properties props =
     first_error (concat (map (\<lambda>(k, v). [check_text k k, validate_property_value k v]) props))"

text \<open>The texts a value holds, at any depth: what the rule is about.\<close>

fun texts_of :: "pval \<Rightarrow> string list" where
  "texts_of (VStr s) = [s]"
| "texts_of (VStrs ss) = ss"
| "texts_of (VList vs) = concat (map texts_of vs)"
| "texts_of (VStrMap m) = concat (map (\<lambda>(k, s). [k, s]) m)"
| "texts_of (VMap m) = concat (map (\<lambda>(k, v). k # texts_of v) m)"
| "texts_of _ = []"

definition clean_text :: "string \<Rightarrow> bool" where
  "clean_text s \<longleftrightarrow> utf8_valid s \<and> \<not> list_ex (\<lambda>c. code c = 0) s"

lemma first_error_None: "first_error es = None \<longleftrightarrow> (\<forall>e\<in>set es. e = None)"
  by (induction es rule: first_error.induct) auto

lemma check_text_None: "check_text w s = None \<longleftrightarrow> clean_text s"
  by (simp add: check_text_def clean_text_def)

lemma zip_index_all: "(\<forall>p\<in>set (zip [0..<length xs] xs). P (snd p)) \<longleftrightarrow> (\<forall>x\<in>set xs. P x)"
proof -
  have "map snd (zip [0..<length xs] xs) = xs" by simp
  then have "set xs = snd ` set (zip [0..<length xs] xs)" by (metis list.set_map)
  then show ?thesis by auto
qed

lemma validate_property_value_None:
  "validate_property_value path v = None \<longleftrightarrow> (\<forall>s\<in>set (texts_of v). clean_text s)"
proof (induction path v rule: validate_property_value.induct)
  case (2 path ss)
  have "validate_property_value path (VStrs ss) = None \<longleftrightarrow>
      (\<forall>p\<in>set (zip [0..<length ss] ss). clean_text (snd p))"
    by (auto simp: first_error_None check_text_None split_beta)
  then show ?case by (simp add: zip_index_all)
next
  case (3 path vs)
  have "validate_property_value path (VList vs) = None \<longleftrightarrow>
      (\<forall>p\<in>set (zip [0..<length vs] vs). validate_property_value (indexed path (fst p)) (snd p) = None)"
    by (auto simp: first_error_None split_beta)
  also have "\<dots> \<longleftrightarrow> (\<forall>p\<in>set (zip [0..<length vs] vs). \<forall>s\<in>set (texts_of (snd p)). clean_text s)"
    using 3 by (metis (no_types, lifting) ball_cong prod.collapse)
  also have "\<dots> \<longleftrightarrow> (\<forall>v\<in>set vs. \<forall>s\<in>set (texts_of v). clean_text s)" by (rule zip_index_all)
  finally show ?case by simp
next
  case (5 path m)
  then show ?case by (fastforce simp: first_error_None check_text_None)
qed (auto simp: first_error_None check_text_None split: prod.splits)

text \<open>
  The text rule is complete: \<open>ValidateProperties\<close> accepts a property map exactly when every
  key and every string in it, at every nesting depth of lists and maps, is valid UTF-8 without
  a NUL byte; a bad text cannot hide in a container.
\<close>
theorem validate_properties_exact:
  "validate_properties props = None \<longleftrightarrow>
     list_all (\<lambda>(k, v). clean_text k \<and> list_all clean_text (texts_of v)) props"
  by (auto simp: validate_properties_def first_error_None check_text_None
      validate_property_value_None list_all_iff)

section \<open>Relation keys\<close>

text \<open>A relation key whose parts the store accepts and whose type does not start with a dash.\<close>

definition canonical_key :: "relation_key \<Rightarrow> bool" where
  "canonical_key k \<longleftrightarrow> validate_id (rk_from k) = None \<and> validate_id (rk_to k) = None \<and>
     valid_face_slot (rk_from_face k) \<and> validate_relation_type (rk_type k) = None \<and>
     hd (rk_type k) \<noteq> CHR ''-''"

lemma relation_key_inject:
  assumes "canonical_key k" and "canonical_key l" and eq: "relation_key_string k = relation_key_string l"
  shows "k = l"
proof -
  note k = assms(1) [unfolded canonical_key_def] and l = assms(2) [unfolded canonical_key_def]
  have t: "rk_type k \<noteq> []" "rk_type l \<noteq> []"
    "\<not> contains (rk_type k) ''--''" "\<not> contains (rk_type l) ''--''"
    using k l by (auto simp: validate_relation_type_def split: if_splits)
  have 1: "format_state_ref (rk_from k) (rk_from_face k) = format_state_ref (rk_from l) (rk_from_face l) \<and>
      rk_type k @ ''--'' @ rk_to k = rk_type l @ ''--'' @ rk_to l"
    using eq k l t by (intro dash_split_unique) (auto simp: relation_key_string_def format_state_ref_no_dashes)
  have 2: "rk_type k = rk_type l \<and> rk_to k = rk_to l"
    using 1 k l t id_start by (intro dash_split_unique) auto
  have "rk_from k = rk_from l \<and> rk_from_face k = rk_from_face l"
    using 1 k l by (simp add: format_state_ref_inject id_no_at)
  with 2 show ?thesis by simp
qed

text \<open>
  The text form of a relation key identifies the edge: two keys with valid ends, faces of the
  grammar (or none) and accepted types that do not start with a dash render the same only when
  they are the same key, tail face included.
\<close>
theorem relation_key_unambiguous:
  assumes "canonical_key k" and "canonical_key l"
  shows "relation_key_string k = relation_key_string l \<longleftrightarrow> k = l"
  using relation_key_inject [OF assms] by blast

theorem relation_key_unambiguous_witness:
  "relation_key_string \<lparr>rk_from = ''A-'', rk_from_face = ''draft'', rk_type = ''uses-'', rk_to = ''B''\<rparr> \<noteq>
   relation_key_string \<lparr>rk_from = ''A-'', rk_from_face = [], rk_type = ''uses-'', rk_to = ''B''\<rparr>"
proof -
  have 1: "canonical_key \<lparr>rk_from = ''A-'', rk_from_face = ''draft'', rk_type = ''uses-'', rk_to = ''B''\<rparr>"
    and 2: "canonical_key \<lparr>rk_from = ''A-'', rk_from_face = [], rk_type = ''uses-'', rk_to = ''B''\<rparr>"
    by code_simp+
  show ?thesis by (simp add: relation_key_unambiguous [OF 1 2])
qed

text \<open>
  The store's own rules do not make relation keys unambiguous: ids may end with a dash and
  relation types may start with one, so two different edges, both accepted by \<open>ValidateID\<close> and
  \<open>ValidateRelationType\<close>, share one key, and creating the second is refused as a duplicate.
\<close>
theorem relation_key_collision:
  "let k = \<lparr>rk_from = ''A-'', rk_from_face = [], rk_type = ''t'', rk_to = ''B''\<rparr>;
       l = \<lparr>rk_from = ''A'', rk_from_face = [], rk_type = ''-t'', rk_to = ''B''\<rparr>
   in k \<noteq> l \<and> relation_key_string k = relation_key_string l \<and>
     list_all (\<lambda>x. validate_id (rk_from x) = None \<and> validate_id (rk_to x) = None \<and>
       validate_relation_type (rk_type x) = None) [k, l]"
  by code_simp

section \<open>Relation queries\<close>

datatype direction = DirectionBoth | DirectionOutgoing | DirectionIncoming

record relation_query =
  rq_type :: string
  rq_from :: string
  rq_to :: string
  rq_entity :: string
  rq_direction :: direction
  rq_limit :: int
  rq_cursor :: string
  rq_entities :: "string list option"
  rq_peers :: "string list option"
  rq_from_face :: "face option"

definition peer_direction :: "direction \<Rightarrow> direction" where
  "peer_direction d =
     (case d of DirectionOutgoing \<Rightarrow> DirectionIncoming | DirectionIncoming \<Rightarrow> DirectionOutgoing
      | DirectionBoth \<Rightarrow> DirectionBoth)"

definition endpoint_matches :: "relation \<Rightarrow> direction \<Rightarrow> (string \<Rightarrow> bool) \<Rightarrow> bool" where
  "endpoint_matches r d want =
     (case d of DirectionOutgoing \<Rightarrow> want (rel_from r) | DirectionIncoming \<Rightarrow> want (rel_to r)
      | DirectionBoth \<Rightarrow> want (rel_from r) \<or> want (rel_to r))"

definition match_relation :: "relation \<Rightarrow> relation_query \<Rightarrow> bool" where
  "match_relation r q =
     (if rq_type q \<noteq> [] \<and> rel_type r \<noteq> rq_type q then False
      else if rq_from q \<noteq> [] \<and> rel_from r \<noteq> rq_from q then False
      else if (case rq_from_face q of None \<Rightarrow> False | Some p \<Rightarrow> rel_from_face r \<noteq> p) then False
      else if rq_to q \<noteq> [] \<and> rel_to r \<noteq> rq_to q then False
      else if rq_entity q \<noteq> [] \<and> \<not> endpoint_matches r (rq_direction q) (\<lambda>i. i = rq_entity q) then False
      else if (case rq_entities q of None \<Rightarrow> False
          | Some ids \<Rightarrow> \<not> endpoint_matches r (rq_direction q) (\<lambda>i. i \<in> set ids)) then False
      else if (case rq_peers q of None \<Rightarrow> False
          | Some ids \<Rightarrow> \<not> endpoint_matches r (peer_direction (rq_direction q)) (\<lambda>i. i \<in> set ids)) then False
      else True)"

section \<open>Family replacements\<close>

record family_replacement =
  fr_source :: face
  fr_entity :: entity

datatype replacement_error =
    FamilyNotFound | NeedsIdAndRows | RowIdOrType | SourceMissingOrRepeated face
  | MixedTypes string string | TargetRepeated face | SourceUnaccounted
  | ReplacementBadId id_error | ReplacementBadText text_error

text \<open>The loop over the rows: the sources and targets seen so far and the type they share.\<close>

fun check_replacements ::
  "string \<Rightarrow> face list \<Rightarrow> family_replacement list \<Rightarrow> face list \<Rightarrow> face list \<Rightarrow> string \<Rightarrow>
   replacement_error + (face list \<times> face list)" where
  "check_replacements i current [] sources targets typeName = Inr (sources, targets)"
| "check_replacements i current (r # rs) sources targets typeName =
     (let e = fr_entity r in
      if ent_id e \<noteq> i \<or> ent_type e = [] then Inl RowIdOrType
      else if fr_source r \<notin> set current \<or> fr_source r \<in> set sources
      then Inl (SourceMissingOrRepeated (fr_source r))
      else if typeName \<noteq> [] \<and> ent_type e \<noteq> typeName then Inl (MixedTypes typeName (ent_type e))
      else if ent_face e \<in> set targets then Inl (TargetRepeated (ent_face e))
      else check_replacements i current rs (fr_source r # sources) (ent_face e # targets)
             (if typeName = [] then ent_type e else typeName))"

definition validate_replacement_shape ::
  "string \<Rightarrow> face list \<Rightarrow> family_replacement list \<Rightarrow> replacement_error + face list" where
  "validate_replacement_shape i current rs =
     (if current = [] then Inl FamilyNotFound
      else if i = [] \<or> rs = [] then Inl NeedsIdAndRows
      else case check_replacements i current rs [] [] [] of
          Inl e \<Rightarrow> Inl e
        | Inr (sources, targets) \<Rightarrow>
            if length sources \<noteq> length current then Inl SourceUnaccounted
            else Inr (filter (\<lambda>f. f \<notin> set targets) current))"

definition validate_family_replacement ::
  "string \<Rightarrow> face list \<Rightarrow> family_replacement list \<Rightarrow> replacement_error + face list" where
  "validate_family_replacement i current rs =
     (case validate_id i of
        Some e \<Rightarrow> Inl (ReplacementBadId e)
      | None \<Rightarrow>
          case validate_replacement_shape i current rs of
            Inl e \<Rightarrow> Inl e
          | Inr emptied \<Rightarrow>
              case first_error (map (\<lambda>r. validate_properties (ent_props (fr_entity r))) rs) of
                Some e \<Rightarrow> Inl (ReplacementBadText e)
              | None \<Rightarrow> Inr emptied)"

definition fr_target :: "family_replacement \<Rightarrow> face" where
  "fr_target r = ent_face (fr_entity r)"

text \<open>The rows that the loop lets through from a given state of its accumulators.\<close>

definition rows_ok :: "string \<Rightarrow> family_replacement list \<Rightarrow> string \<Rightarrow> bool" where
  "rows_ok i rs t \<longleftrightarrow> t \<noteq> [] \<and> (\<forall>r\<in>set rs. ent_id (fr_entity r) = i \<and> ent_type (fr_entity r) = t)"

definition faces_ok :: "face list \<Rightarrow> family_replacement list \<Rightarrow> face list \<Rightarrow> face list \<Rightarrow> bool" where
  "faces_ok cur rs S T \<longleftrightarrow>
     distinct (map fr_source rs) \<and> distinct (map fr_target rs) \<and>
     fr_source ` set rs \<subseteq> set cur - set S \<and> fr_target ` set rs \<inter> set T = {}"

lemma faces_ok_Cons:
  "faces_ok cur (r # rs) S T \<longleftrightarrow>
     fr_source r \<in> set cur \<and> fr_source r \<notin> set S \<and> fr_target r \<notin> set T \<and>
     faces_ok cur rs (fr_source r # S) (fr_target r # T)"
  unfolding faces_ok_def by (simp add: subset_Diff_insert) blast

lemma check_replacements_Inr:
  "check_replacements i cur rs S T ty = Inr (S', T') \<longleftrightarrow>
     S' = rev (map fr_source rs) @ S \<and> T' = rev (map fr_target rs) @ T \<and> faces_ok cur rs S T \<and>
     (\<exists>t. (ty \<noteq> [] \<longrightarrow> t = ty) \<and> rows_ok i rs t)"
proof (induction i cur rs S T ty rule: check_replacements.induct)
  case (1 i cur S T ty)
  show ?case by (cases "ty = []") (auto simp: faces_ok_def rows_ok_def intro!: exI [of _ "''x''"])
next
  case (2 i cur r rs S T ty)
  let ?e = "fr_entity r"
  let ?ty = "if ty = [] then ent_type ?e else ty"
  let ?ok = "ent_id ?e = i \<and> ent_type ?e \<noteq> [] \<and> fr_source r \<in> set cur \<and> fr_source r \<notin> set S \<and>
      (ty \<noteq> [] \<longrightarrow> ent_type ?e = ty) \<and> fr_target r \<notin> set T"
  have types: "(\<exists>t. (ty \<noteq> [] \<longrightarrow> t = ty) \<and> rows_ok i (r # rs) t) \<longleftrightarrow>
      ent_id ?e = i \<and> ent_type ?e \<noteq> [] \<and> (ty \<noteq> [] \<longrightarrow> ent_type ?e = ty) \<and> rows_ok i rs ?ty"
    by (cases "ty = []") (auto simp: rows_ok_def)
  show ?case
  proof (cases ?ok)
    case True
    then have ne: "?ty \<noteq> []" by simp
    have "check_replacements i cur (r # rs) S T ty
        = check_replacements i cur rs (fr_source r # S) (fr_target r # T) ?ty"
      using True by (auto simp: Let_def fr_target_def)
    moreover have "check_replacements i cur rs (fr_source r # S) (fr_target r # T) ?ty = Inr (S', T') \<longleftrightarrow>
        S' = rev (map fr_source (r # rs)) @ S \<and> T' = rev (map fr_target (r # rs)) @ T \<and>
        faces_ok cur rs (fr_source r # S) (fr_target r # T) \<and> rows_ok i rs ?ty"
      using "2.IH" [OF refl] True ne by (auto simp: fr_target_def)
    ultimately show ?thesis unfolding types faces_ok_Cons using True by simp
  next
    case False
    then have "check_replacements i cur (r # rs) S T ty \<noteq> Inr (S', T')"
      by (auto simp: Let_def fr_target_def)
    with False show ?thesis unfolding types faces_ok_Cons by blast
  qed
qed

lemma replacement_shape_Inr:
  assumes "distinct current"
  shows "validate_replacement_shape i current rs = Inr emptied \<longleftrightarrow>
    current \<noteq> [] \<and> i \<noteq> [] \<and> distinct (map fr_source rs) \<and> set (map fr_source rs) = set current \<and>
    distinct (map fr_target rs) \<and>
    (\<exists>t. t \<noteq> [] \<and> (\<forall>r\<in>set rs. ent_id (fr_entity r) = i \<and> ent_type (fr_entity r) = t)) \<and>
    emptied = filter (\<lambda>f. f \<notin> set (map fr_target rs)) current"
    (is "?L = ?R")
proof
  assume L: ?L
  then obtain S T where c: "check_replacements i current rs [] [] [] = Inr (S, T)"
    and cur: "current \<noteq> []" "i \<noteq> []" "rs \<noteq> []" and len: "length S = length current"
    and e: "emptied = filter (\<lambda>f. f \<notin> set T) current"
    by (auto simp: validate_replacement_shape_def split: if_splits sum.splits)
  note c' = c [unfolded check_replacements_Inr]
  have sub: "set (map fr_source rs) \<subseteq> set current" and d: "distinct (map fr_source rs)"
    and t: "distinct (map fr_target rs)"
    using c' by (auto simp: faces_ok_def)
  have "card (set (map fr_source rs)) = card (set current)"
    using c' len distinct_card [OF d] distinct_card [OF assms] by simp
  then have "set (map fr_source rs) = set current" using sub by (simp add: card_subset_eq)
  moreover have "\<exists>t. t \<noteq> [] \<and> (\<forall>r\<in>set rs. ent_id (fr_entity r) = i \<and> ent_type (fr_entity r) = t)"
    using c' by (auto simp: rows_ok_def)
  moreover have "set T = set (map fr_target rs)" using c' by simp
  ultimately show ?R using cur d t e by simp
next
  assume R: ?R
  then have "rs \<noteq> []" by auto
  have "check_replacements i current rs [] [] [] = Inr (rev (map fr_source rs), rev (map fr_target rs))"
    unfolding check_replacements_Inr faces_ok_def rows_ok_def using R by auto
  moreover have "length rs = length current"
    using R distinct_card [of "map fr_source rs"] distinct_card [OF assms] by simp
  ultimately show ?L
    using R \<open>rs \<noteq> []\<close> by (simp add: validate_replacement_shape_def)
qed

text \<open>
  The check of a family replacement is exact. It lets a plan through precisely when the
  sources are the current faces, each once, the targets are pairwise different faces, and every
  row has the family's id and one shared non-empty type; and the faces it reports as emptied are
  the current faces that no row targets, in order.
\<close>
theorem replacement_shape_exact:
  assumes "distinct current"
  shows "validate_replacement_shape i current rs = Inr emptied \<longleftrightarrow>
    current \<noteq> [] \<and> i \<noteq> [] \<and> distinct (map fr_source rs) \<and> set (map fr_source rs) = set current \<and>
    distinct (map fr_target rs) \<and>
    (\<exists>t. t \<noteq> [] \<and> (\<forall>r\<in>set rs. ent_id (fr_entity r) = i \<and> ent_type (fr_entity r) = t)) \<and>
    emptied = filter (\<lambda>f. f \<notin> set (map fr_target rs)) current"
  by (rule replacement_shape_Inr [OF assms])

theorem replacement_shape_exact_witness:
  "validate_replacement_shape ''P-1'' [[], ''draft'']
     [\<lparr>fr_source = [], fr_entity = (new_entity ''P-1'' ''page'')\<lparr>ent_face := ''draft''\<rparr>\<rparr>,
      \<lparr>fr_source = ''draft'', fr_entity = (new_entity ''P-1'' ''page'')\<lparr>ent_face := ''live''\<rparr>\<rparr>] = Inr [[]]"
proof -
  have d: "distinct [[], ''draft'']" by simp
  show ?thesis
    unfolding replacement_shape_exact [OF d] by (auto simp: new_entity_def fr_target_def)
qed

section \<open>The compare-and-swap token\<close>

text \<open>
  \<open>VersionOf\<close> hashes length-prefixed fields. \<open>sha\<close> is \<^verbatim>\<open>crypto/sha256\<close>: the digest of the bytes written.
\<close>

definition version_field :: "string \<Rightarrow> string" where
  "version_field s = show_nat (length s) @ '':'' @ s"

definition version_fields :: "entity \<Rightarrow> string list" where
  "version_fields e =
     [ent_id e, ent_type e, ent_content e] @
     concat (map (\<lambda>(k, v). [k, type_name v, show_pval v]) (sort_key fst (ent_props e)))"

definition version_preimage :: "entity \<Rightarrow> string" where
  "version_preimage e = concat (map version_field (version_fields e))"

definition version_of :: "(string \<Rightarrow> string) \<Rightarrow> entity \<Rightarrow> string" where
  "version_of sha e = encode_cursor (sha (version_preimage e))"

lemma version_field_split:
  assumes "version_field s @ x = version_field t @ y"
  shows "s = t \<and> x = y"
proof -
  have tw: "takeWhile is_digit (show_nat n @ CHR '':'' # z) = show_nat n" for n z
    using show_nat_digits [of n] by (subst takeWhile_append2) (auto simp: list_all_iff str_defs)
  have "show_nat (length s) = show_nat (length t)"
    using arg_cong [OF assms, of "takeWhile is_digit"] by (simp add: version_field_def tw)
  then have "length s = length t" by (metis read_nat_show_nat)
  with assms show ?thesis by (simp add: version_field_def)
qed

lemma version_fields_concat:
  "concat (map version_field ss) = concat (map version_field ts) \<Longrightarrow> ss = ts"
proof (induction ss arbitrary: ts)
  case Nil
  then show ?case by (cases ts) (simp_all add: version_field_def)
next
  case (Cons s ss)
  show ?case
  proof (cases ts)
    case Nil
    then show ?thesis using Cons.prems by (simp add: version_field_def)
  next
    case t: (Cons t ts')
    then have "version_field s @ concat (map version_field ss) = version_field t @ concat (map version_field ts')"
      using Cons.prems by simp
    from version_field_split [OF this] show ?thesis using Cons.IH [of ts'] t by simp
  qed
qed

fun scalar :: "pval \<Rightarrow> bool" where
  "scalar (VStr s) = True"
| "scalar (VBool b) = True"
| "scalar (VInt n) = True"
| "scalar VNil = True"
| "scalar _ = False"

lemma show_int_inject: "show_int m = show_int n \<Longrightarrow> m = n"
proof -
  assume eq: "show_int m = show_int n"
  have hd: "hd (show_nat k) \<noteq> CHR ''-''" for k
    using show_nat_digits [of k] by (cases "show_nat k") (auto simp: str_defs)
  have s: "show_int k = (if k < 0 then CHR ''-'' # show_nat (nat \<bar>k\<bar>) else show_nat (nat \<bar>k\<bar>))" for k
    by (simp add: show_int_def fmt_padded_def Let_def)
  have "(m < 0) = (n < 0)" using eq hd by (auto simp: s split: if_splits) (metis list.sel(1))+
  with eq have "show_nat (nat \<bar>m\<bar>) = show_nat (nat \<bar>n\<bar>)" by (auto simp: s split: if_splits)
  then have "nat \<bar>m\<bar> = nat \<bar>n\<bar>" by (metis read_nat_show_nat)
  with \<open>(m < 0) = (n < 0)\<close> show "m = n" by (cases "m < 0") auto
qed

lemma scalar_inject:
  assumes "scalar v" and "scalar w" and "type_name v = type_name w" and "show_pval v = show_pval w"
  shows "v = w"
  using assms by (cases v; cases w) (auto dest: show_int_inject split: if_splits)

lemma sorted_props_eq:
  assumes "dict_ok m" and "dict_ok n"
  shows "sort_key fst m = sort_key fst n \<longleftrightarrow> map_of m = map_of n"
proof
  assume "sort_key fst m = sort_key fst n"
  then have "set m = set n" by (metis set_sort)
  with assms show "map_of m = map_of n" by (simp add: dict_ok_def map_of_inject_set)
next
  assume "map_of m = map_of n"
  then have "set m = set n" using assms by (simp add: dict_ok_def map_of_inject_set)
  then have "mset n = mset m"
    using assms by (simp add: dict_ok_def distinct_map set_eq_iff_mset_eq_distinct)
  then have "sort_key fst n = sort_key fst m"
    using assms(2) by (intro sort_key_inj_key_eq) (auto simp: dict_ok_def distinct_map)
  then show "sort_key fst m = sort_key fst n" by simp
qed

lemma triple_fields_inject:
  assumes "concat (map (\<lambda>(k, v). [k, type_name v, show_pval v]) m)
      = concat (map (\<lambda>(k, v). [k, type_name v, show_pval v]) n)"
    and "list_all (\<lambda>(k, v). scalar v) m" and "list_all (\<lambda>(k, v). scalar v) n"
  shows "m = n"
  using assms
proof (induction m arbitrary: n)
  case Nil
  then show ?case by (cases n) auto
next
  case (Cons a m)
  then show ?case by (cases a; cases n) (auto dest: scalar_inject)
qed

text \<open>
  On entities whose property values are strings, booleans, integers and nulls, the token is
  exactly the content: two entities have the same \<open>VersionOf\<close> if and only if id, type, body and the
  property maps agree, whatever the iteration order of the maps. The hypothesis on \<open>sha\<close> is that
  SHA-256 does not collide on these two inputs.
\<close>
theorem version_of_exact:
  assumes ok: "dict_ok (ent_props e)" "dict_ok (ent_props f)"
    and scalars: "list_all (\<lambda>(k, v). scalar v) (ent_props e @ ent_props f)"
    and sha: "sha (version_preimage e) = sha (version_preimage f) \<Longrightarrow> version_preimage e = version_preimage f"
  shows "version_of sha e = version_of sha f \<longleftrightarrow>
    ent_id e = ent_id f \<and> ent_type e = ent_type f \<and> ent_content e = ent_content f \<and>
    map_of (ent_props e) = map_of (ent_props f)"
proof
  assume "version_of sha e = version_of sha f"
  then have "sha (version_preimage e) = sha (version_preimage f)"
    unfolding version_of_def by (metis decode_encode_cursor_eq option.inject)
  then have "version_fields e = version_fields f"
    using sha version_fields_concat by (simp add: version_preimage_def)
  then have i: "ent_id e = ent_id f" "ent_type e = ent_type f" "ent_content e = ent_content f"
    and c: "concat (map (\<lambda>(k, v). [k, type_name v, show_pval v]) (sort_key fst (ent_props e)))
      = concat (map (\<lambda>(k, v). [k, type_name v, show_pval v]) (sort_key fst (ent_props f)))"
    by (simp_all add: version_fields_def)
  have "sort_key fst (ent_props e) = sort_key fst (ent_props f)"
    using scalars by (intro triple_fields_inject [OF c]) (auto simp: list_all_iff)
  with i show "ent_id e = ent_id f \<and> ent_type e = ent_type f \<and> ent_content e = ent_content f \<and>
      map_of (ent_props e) = map_of (ent_props f)"
    using sorted_props_eq [OF ok] by simp
next
  assume "ent_id e = ent_id f \<and> ent_type e = ent_type f \<and> ent_content e = ent_content f \<and>
      map_of (ent_props e) = map_of (ent_props f)"
  then show "version_of sha e = version_of sha f"
    using sorted_props_eq [OF ok] by (simp add: version_of_def version_preimage_def version_fields_def)
qed

theorem version_of_exact_witness:
  "version_of id (set_string (new_entity ''P-1'' ''page'') ''title'' ''a'')
     \<noteq> version_of id (set_string (new_entity ''P-1'' ''page'') ''title'' ''b'')"
proof -
  let ?e = "set_string (new_entity ''P-1'' ''page'') ''title'' ''a''"
  let ?f = "set_string (new_entity ''P-1'' ''page'') ''title'' ''b''"
  have 1: "dict_ok (ent_props ?e)" "dict_ok (ent_props ?f)" by code_simp+
  have 2: "list_all (\<lambda>(k, v). scalar v) (ent_props ?e @ ent_props ?f)" by code_simp
  have 3: "id (version_preimage ?e) = id (version_preimage ?f) \<Longrightarrow> version_preimage ?e = version_preimage ?f"
    by simp
  have "map_of (ent_props ?e) ''title'' \<noteq> map_of (ent_props ?f) ''title''" by code_simp
  then show ?thesis using version_of_exact [where sha = id, OF 1 2 3] by metis
qed

text \<open>
  On list values the token does not tell states apart, whatever the hash: the tags
  \<^verbatim>\<open>["a b"]\<close> and \<^verbatim>\<open>["a", "b"]\<close> print alike and have one type, so a conditional update
  computed from the one is applied over the other.
\<close>
theorem version_of_list_collision:
  "let e = set_string (new_entity ''T-1'' ''task'') ''title'' ''x'';
       e1 = e\<lparr>ent_props := dict_set ''tags'' (VStrs [''a b'']) (ent_props e)\<rparr>;
       e2 = e\<lparr>ent_props := dict_set ''tags'' (VStrs [''a'', ''b'']) (ent_props e)\<rparr>
   in get_attribute_strings e1 ''tags'' \<noteq> get_attribute_strings e2 ''tags'' \<and>
      version_of sha e1 = version_of sha e2"
proof -
  define e where "e = set_string (new_entity ''T-1'' ''task'') ''title'' ''x''"
  define e1 where "e1 = e\<lparr>ent_props := dict_set ''tags'' (VStrs [''a b'']) (ent_props e)\<rparr>"
  define e2 where "e2 = e\<lparr>ent_props := dict_set ''tags'' (VStrs [''a'', ''b'']) (ent_props e)\<rparr>"
  have "version_fields e1 = version_fields e2" "get_attribute_strings e1 ''tags'' \<noteq> get_attribute_strings e2 ''tags''"
    unfolding e1_def e2_def e_def by code_simp+
  then show ?thesis
    by (simp add: Let_def version_of_def version_preimage_def flip: e_def e1_def e2_def)
qed

end
