(* ===== verification/World.thy ===== *)
theory World
  imports Store_Rules
begin

text \<open>
  Worlds and face selections, from \<^verbatim>\<open>internal/store/\<close> (world.go, worldresolve.go, faceselect.go)
  and the world half of \<^verbatim>\<open>storeutil.go\<close>. A world ranks, per entity type, the faces an entity may be
  served at; resolving it picks at most one stored face per entity, its prime. The lemmas relate
  the one-pass resolution to the three rules stated per family, and the paged listing to the
  whole one.
\<close>

section \<open>World scopes\<close>

datatype fallback = FallbackExclude | FallbackDefaultState

record type_resolution =
  tr_chain :: "face list"
  tr_fallback :: fallback

record world_scope =
  ws_by_type :: "type_resolution dict"
  ws_set :: bool

definition fallback_string :: "fallback \<Rightarrow> string" where
  "fallback_string f = (case f of FallbackExclude \<Rightarrow> ''exclude'' | FallbackDefaultState \<Rightarrow> ''default-state'')"

definition unset_scope :: world_scope where
  "unset_scope = \<lparr>ws_by_type = [], ws_set = False\<rparr>"

definition trivial_scope :: world_scope where
  "trivial_scope = \<lparr>ws_by_type = [], ws_set = True\<rparr>"

definition new_world_scope :: "type_resolution dict \<Rightarrow> world_scope" where
  "new_world_scope m = (if m = [] then trivial_scope else \<lparr>ws_by_type = m, ws_set = True\<rparr>)"

definition ws_is_trivial :: "world_scope \<Rightarrow> bool" where
  "ws_is_trivial w \<longleftrightarrow> ws_by_type w = []"

definition ws_for :: "world_scope \<Rightarrow> string \<Rightarrow> type_resolution option" where
  "ws_for w t = dict_get (ws_by_type w) t"

definition ws_types :: "world_scope \<Rightarrow> string list" where
  "ws_types w = map fst (ws_by_type w)"

definition flat_faces :: "world_scope \<Rightarrow> string \<Rightarrow> face list option" where
  "flat_faces w t =
     (case ws_for w t of
        None \<Rightarrow> Some [[]]
      | Some res \<Rightarrow>
          (let faces = (if tr_fallback res = FallbackDefaultState \<and> [] \<notin> set (tr_chain res)
                        then tr_chain res @ [[]] else tr_chain res)
           in if 1 < length faces then None else Some faces))"

section \<open>Resolution\<close>

datatype resolution_rule =
  ResolutionUnscoped | ResolutionChain | ResolutionFallbackDefault | ResolutionExcluded

definition rule_string :: "resolution_rule \<Rightarrow> string" where
  "rule_string r = (case r of ResolutionUnscoped \<Rightarrow> ''unscoped'' | ResolutionChain \<Rightarrow> ''chain''
     | ResolutionFallbackDefault \<Rightarrow> ''fallback-default'' | ResolutionExcluded \<Rightarrow> ''excluded'')"

record world_candidate =
  wc_id :: string
  wc_type :: string
  wc_face :: face

record world_resolved =
  wr_face :: face
  wr_via :: resolution_rule
  wr_position :: nat

record family_state =
  fs_type :: string
  fs_best :: "(nat \<times> face) option"
  fs_default :: bool

text \<open>\<open>slices.Index\<close>.\<close>

fun index_of :: "'a list \<Rightarrow> 'a \<Rightarrow> nat option" where
  "index_of [] x = None"
| "index_of (y # ys) x = (if y = x then Some 0 else map_option Suc (index_of ys x))"

text \<open>One candidate row seen by the loop.\<close>

definition see_row :: "world_scope \<Rightarrow> world_candidate \<Rightarrow> family_state option \<Rightarrow> family_state" where
  "see_row w c old =
     (let f = (case old of Some f \<Rightarrow> f | None \<Rightarrow> \<lparr>fs_type = wc_type c, fs_best = None, fs_default = False\<rparr>);
          f1 = (if is_implicit (wc_face c) then f\<lparr>fs_default := True, fs_type := wc_type c\<rparr> else f) in
      case ws_for w (wc_type c) of
        None \<Rightarrow> f1
      | Some res \<Rightarrow>
          case index_of (tr_chain res) (wc_face c) of
            None \<Rightarrow> f1
          | Some rank \<Rightarrow>
              (case fs_best f1 of
                 None \<Rightarrow> f1\<lparr>fs_best := Some (rank, wc_face c)\<rparr>
               | Some (best, bf) \<Rightarrow> if rank < best then f1\<lparr>fs_best := Some (rank, wc_face c)\<rparr> else f1))"

fun see_rows :: "world_scope \<Rightarrow> world_candidate list \<Rightarrow> family_state dict \<Rightarrow> family_state dict" where
  "see_rows w [] fams = fams"
| "see_rows w (c # cs) fams =
     see_rows w cs (dict_set (wc_id c) (see_row w c (dict_get fams (wc_id c))) fams)"

definition decide_family :: "world_scope \<Rightarrow> family_state \<Rightarrow> world_resolved option" where
  "decide_family w f =
     (case ws_for w (fs_type f) of
        None \<Rightarrow> if fs_default f
                then Some \<lparr>wr_face = [], wr_via = ResolutionUnscoped, wr_position = 0\<rparr> else None
      | Some res \<Rightarrow>
          case fs_best f of
            Some (rank, p) \<Rightarrow> Some \<lparr>wr_face = p, wr_via = ResolutionChain, wr_position = rank\<rparr>
          | None \<Rightarrow>
              if tr_fallback res = FallbackDefaultState \<and> fs_default f
              then Some \<lparr>wr_face = [], wr_via = ResolutionFallbackDefault, wr_position = 0\<rparr>
              else None)"

definition resolve_world_primes :: "world_scope \<Rightarrow> world_candidate list \<Rightarrow> world_resolved dict" where
  "resolve_world_primes w candidates =
     (if candidates = [] \<or> \<not> ws_set w then []
      else concat (map (\<lambda>(i, f). case decide_family w f of None \<Rightarrow> [] | Some r \<Rightarrow> [(i, r)])
             (see_rows w candidates [])))"

definition world_primes :: "world_scope \<Rightarrow> world_candidate list \<Rightarrow> face dict" where
  "world_primes w candidates = map (\<lambda>(i, r). (i, wr_face r)) (resolve_world_primes w candidates)"

definition rule_at :: "world_scope \<Rightarrow> string \<Rightarrow> face \<Rightarrow> resolution_rule \<times> nat" where
  "rule_at w t p =
     (case ws_for w t of
        None \<Rightarrow> (ResolutionUnscoped, 0)
      | Some res \<Rightarrow>
          case index_of (tr_chain res) p of
            Some i \<Rightarrow> (ResolutionChain, i)
          | None \<Rightarrow> (ResolutionFallbackDefault, 0))"

section \<open>Face selections\<close>

datatype face_selection = SelectUnset | SelectWorld world_scope | SelectAll | SelectFaces "face list"

definition in_world :: "world_scope \<Rightarrow> face_selection" where
  "in_world w = SelectWorld w"

definition all_faces :: face_selection where
  "all_faces = SelectAll"

definition at_faces :: "face list \<Rightarrow> face_selection" where
  "at_faces fs = SelectFaces fs"

definition flattened_when_unranked :: "face_selection \<Rightarrow> string \<Rightarrow> face_selection" where
  "flattened_when_unranked s t =
     (case s of
        SelectWorld w \<Rightarrow>
          if t = [] \<or> \<not> ws_set w then s
          else (case flat_faces w t of Some faces \<Rightarrow> at_faces faces | None \<Rightarrow> s)
      | _ \<Rightarrow> s)"

definition sel_is_zero :: "face_selection \<Rightarrow> bool" where
  "sel_is_zero s \<longleftrightarrow> s = SelectUnset"

definition sel_world :: "face_selection \<Rightarrow> world_scope option" where
  "sel_world s = (case s of SelectWorld w \<Rightarrow> Some w | _ \<Rightarrow> None)"

definition sel_faces :: "face_selection \<Rightarrow> face list option" where
  "sel_faces s = (case s of SelectFaces fs \<Rightarrow> Some fs | _ \<Rightarrow> None)"

definition sel_is_all :: "face_selection \<Rightarrow> bool" where
  "sel_is_all s \<longleftrightarrow> s = SelectAll"

definition sel_is_trivial :: "face_selection \<Rightarrow> bool" where
  "sel_is_trivial s = (case s of SelectWorld w \<Rightarrow> ws_is_trivial w | _ \<Rightarrow> False)"

definition sel_admits :: "face_selection \<Rightarrow> face \<Rightarrow> bool" where
  "sel_admits s f =
     (case s of SelectAll \<Rightarrow> True | SelectWorld w \<Rightarrow> True | SelectFaces fs \<Rightarrow> f \<in> set fs | SelectUnset \<Rightarrow> False)"

datatype query_error = NoSelection | UnsetWorld

definition sel_validate :: "face_selection \<Rightarrow> query_error option" where
  "sel_validate s =
     (case s of
        SelectUnset \<Rightarrow> Some NoSelection
      | SelectWorld w \<Rightarrow> if \<not> ws_set w then Some UnsetWorld else None
      | _ \<Rightarrow> None)"

section \<open>Entity queries and their pages\<close>

record entity_query =
  eq_type :: string
  eq_ids :: "string list"
  eq_limit :: int
  eq_cursor :: string
  eq_faces :: face_selection
  eq_face_in :: "face list"

text \<open>The rule of \<open>MatchEntityQuery\<close>; its id set is the set of the query's ids.\<close>

definition match_entity_query :: "string \<Rightarrow> string \<Rightarrow> face \<Rightarrow> entity_query \<Rightarrow> bool" where
  "match_entity_query t i p q =
     (if sel_is_trivial (eq_faces q) \<and> \<not> is_implicit p then False
      else if \<not> sel_is_trivial (eq_faces q) \<and> \<not> sel_admits (eq_faces q) p then False
      else if eq_type q \<noteq> [] \<and> t \<noteq> eq_type q then False
      else if eq_ids q \<noteq> [] \<and> i \<notin> set (eq_ids q) then False
      else if eq_face_in q \<noteq> [] \<and> p \<notin> set (eq_face_in q) then False
      else True)"

definition ranking_world :: "entity_query \<Rightarrow> world_scope" where
  "ranking_world q = (case sel_world (eq_faces q) of Some w \<Rightarrow> w | None \<Rightarrow> unset_scope)"

definition key_id :: "string \<Rightarrow> string" where
  "key_id k = fst (cut (CHR ''@'') k)"

text \<open>
  \<open>flush\<close>: the primes of one buffered family go to the page; \<open>Inr\<close> is a full page with its cursor.
\<close>

fun flush_rows ::
  "face dict \<Rightarrow> int \<Rightarrow> (string \<times> world_candidate) list \<Rightarrow> string list \<Rightarrow> string list + page_keys" where
  "flush_rows primes limit [] page = Inl page"
| "flush_rows primes limit ((k, c) # rows) page =
     (if dict_get primes (wc_id c) \<noteq> Some (wc_face c) then flush_rows primes limit rows page
      else if 0 < limit \<and> int (length page) = limit
      then Inr \<lparr>pk_keys = page, pk_next = encode_cursor (last page)\<rparr>
      else flush_rows primes limit rows (page @ [k]))"

definition flush_family ::
  "world_scope \<Rightarrow> int \<Rightarrow> (string \<times> world_candidate) list \<Rightarrow> string list \<Rightarrow> string list + page_keys" where
  "flush_family w limit fam page =
     (if fam = [] then Inl page else flush_rows (world_primes w (map snd fam)) limit fam page)"

text \<open>The walk: the current id, the buffered family and the page so far.\<close>

fun world_loop ::
  "world_scope \<Rightarrow> int \<Rightarrow> (string \<Rightarrow> bool) \<Rightarrow> (string \<Rightarrow> world_candidate option) \<Rightarrow> string list \<Rightarrow>
   string \<Rightarrow> (string \<times> world_candidate) list \<Rightarrow> string list \<Rightarrow> page_keys" where
  "world_loop w limit match load [] cur fam page =
     (case flush_family w limit fam page of Inl p \<Rightarrow> \<lparr>pk_keys = p, pk_next = []\<rparr> | Inr full \<Rightarrow> full)"
| "world_loop w limit match load (k # ks) cur fam page =
     (case load k of
        None \<Rightarrow> world_loop w limit match load ks cur fam page
      | Some c \<Rightarrow>
          if wc_id c \<noteq> cur then
            (case flush_family w limit fam page of
               Inr full \<Rightarrow> full
             | Inl p \<Rightarrow> world_loop w limit match load ks (wc_id c) (if match k then [(k, c)] else []) p)
          else world_loop w limit match load ks cur (if match k then fam @ [(k, c)] else fam) page)"

definition paginate_world_primes ::
  "string list \<Rightarrow> string \<Rightarrow> int \<Rightarrow> world_scope \<Rightarrow> (string \<Rightarrow> bool) \<Rightarrow>
   (string \<Rightarrow> world_candidate option) \<Rightarrow> page_keys" where
  "paginate_world_primes ks cursorKey limit w match load =
     (let rest = drop (page_start ks cursorKey compare_state_keys) ks;
          rest' = (if cursorKey \<noteq> [] then dropWhile (\<lambda>k. key_id k = key_id cursorKey) rest else rest)
      in world_loop w limit match load rest' [] [] [])"

section \<open>Resolution family by family\<close>

definition fold_rows :: "world_scope \<Rightarrow> world_candidate list \<Rightarrow> family_state option \<Rightarrow> family_state option" where
  "fold_rows w cs st = foldl (\<lambda>st c. Some (see_row w c st)) st cs"

definition rows_of :: "string \<Rightarrow> world_candidate list \<Rightarrow> world_candidate list" where
  "rows_of i cs = filter (\<lambda>c. wc_id c = i) cs"

lemma fold_rows_simps [simp]:
  "fold_rows w [] st = st"
  "fold_rows w (cs @ [c]) st = Some (see_row w c (fold_rows w cs st))"
  by (simp_all add: fold_rows_def)

lemma see_rows_get:
  "dict_get (see_rows w cs fams) i = fold_rows w (rows_of i cs) (dict_get fams i)"
  by (induction w cs fams rule: see_rows.induct) (simp_all add: rows_of_def fold_rows_def dict_simps)

lemma see_rows_ok: "dict_ok fams \<Longrightarrow> dict_ok (see_rows w cs fams)"
  by (induction w cs fams rule: see_rows.induct) simp_all

lemma dict_get_filter_map:
  assumes "dict_ok m"
  shows "dict_get (concat (map (\<lambda>(i, f). case g f of None \<Rightarrow> [] | Some r \<Rightarrow> [(i, r)]) m)) i
    = Option.bind (dict_get m i) g"
  using assms
proof (induction m)
  case (Cons a m)
  obtain j f where a: "a = (j, f)" by (cases a)
  have nm: "j \<notin> fst ` set m" and ok: "dict_ok m" using Cons.prems by (auto simp: a dict_ok_def)
  have none: "dict_get m j = None" using nm by (simp add: map_of_eq_None_iff)
  show ?case
    using Cons.IH [OF ok] none by (cases "g f") (auto simp: a)
qed simp

lemma resolve_get:
  "dict_get (resolve_world_primes w cs) i =
     (if ws_set w then Option.bind (fold_rows w (rows_of i cs) None) (decide_family w) else None)"
  by (auto simp: resolve_world_primes_def dict_get_filter_map see_rows_ok see_rows_get)
    (simp add: rows_of_def)

lemma resolve_get_rows: "dict_get (resolve_world_primes w (rows_of i cs)) i = dict_get (resolve_world_primes w cs) i"
  by (simp add: resolve_get) (simp add: rows_of_def)

lemma world_primes_get: "dict_get (world_primes w cs) i = map_option wr_face (dict_get (resolve_world_primes w cs) i)"
  by (simp add: world_primes_def map_of_map)

lemma fold_rows_stored:
  "fold_rows w cs None = Some f \<Longrightarrow>
   (fs_default f \<longrightarrow> [] \<in> wc_face ` set cs) \<and>
   (\<forall>r p. fs_best f = Some (r, p) \<longrightarrow> p \<in> wc_face ` set cs) \<and> fs_type f \<in> wc_type ` set cs"
proof (induction cs arbitrary: f rule: rev_induct)
  case (snoc c cs)
  show ?case
  proof (cases "fold_rows w cs None")
    case None
    with snoc.prems show ?thesis
      by (cases "wc_face c = []") (auto simp: see_row_def Let_def is_implicit_def split: option.splits)
  next
    case (Some g)
    with snoc.IH [OF Some] snoc.prems show ?thesis
      by (cases "wc_face c = []") (auto simp: see_row_def Let_def is_implicit_def split: option.splits if_splits)
  qed
qed simp

text \<open>
  A world never serves a face that is not stored: whatever the candidates are, even a family
  of mixed types, the prime of an id is the face of one of the rows offered for that id; and an
  unset world serves nothing.
\<close>
theorem prime_is_stored:
  "case dict_get (resolve_world_primes w cs) i of
     None \<Rightarrow> True
   | Some r \<Rightarrow> ws_set w \<and> wr_face r \<in> set (map wc_face (rows_of i cs))"
proof (cases "dict_get (resolve_world_primes w cs) i")
  case (Some r)
  then obtain f where w: "ws_set w" and f: "fold_rows w (rows_of i cs) None = Some f"
    and d: "decide_family w f = Some r"
    by (auto simp: resolve_get bind_eq_Some_conv split: if_splits)
  from d fold_rows_stored [OF f] have "wr_face r \<in> wc_face ` set (rows_of i cs)"
    by (auto simp: decide_family_def split: option.splits if_splits)
  with w Some show ?thesis by simp
qed simp

subsection \<open>The three rules\<close>

text \<open>What world \<open>w\<close> serves of a family of type \<open>t\<close> that has these faces.\<close>

definition prime_of :: "world_scope \<Rightarrow> string \<Rightarrow> face list \<Rightarrow> world_resolved option" where
  "prime_of w t faces =
     (case ws_for w t of
        None \<Rightarrow> if [] \<in> set faces
                then Some \<lparr>wr_face = [], wr_via = ResolutionUnscoped, wr_position = 0\<rparr> else None
      | Some res \<Rightarrow>
          case filter (\<lambda>p. p \<in> set faces) (tr_chain res) of
            p # _ \<Rightarrow> Some \<lparr>wr_face = p, wr_via = ResolutionChain,
                         wr_position = length (takeWhile (\<lambda>q. q \<notin> set faces) (tr_chain res))\<rparr>
          | [] \<Rightarrow>
              if tr_fallback res = FallbackDefaultState \<and> [] \<in> set faces
              then Some \<lparr>wr_face = [], wr_via = ResolutionFallbackDefault, wr_position = 0\<rparr>
              else None)"

definition best_of :: "face list \<Rightarrow> face list \<Rightarrow> (nat \<times> face) option" where
  "best_of chain faces =
     (case filter (\<lambda>p. p \<in> set faces) chain of
        p # _ \<Rightarrow> Some (length (takeWhile (\<lambda>q. q \<notin> set faces) chain), p)
      | [] \<Rightarrow> None)"

lemma best_of_simps:
  "best_of [] F = None"
  "best_of (p # ps) F = (if p \<in> set F then Some (0, p) else map_option (map_prod Suc id) (best_of ps F))"
  by (auto simp: best_of_def split: list.splits)

lemma best_of_snoc:
  "best_of chain (F @ [p]) =
     (case index_of chain p of
        None \<Rightarrow> best_of chain F
      | Some r \<Rightarrow> (case best_of chain F of
          None \<Rightarrow> Some (r, p)
        | Some (b, q) \<Rightarrow> if r < b then Some (r, p) else Some (b, q)))"
proof (induction chain)
  case (Cons c chain)
  then show ?case
    by (cases "c = p"; cases "c \<in> set F") (auto simp: best_of_simps split: option.splits)
qed (simp add: best_of_simps)

lemma fold_rows_typed:
  "cs \<noteq> [] \<Longrightarrow> \<forall>c\<in>set cs. wc_type c = t \<Longrightarrow>
   fold_rows w cs None = Some \<lparr>fs_type = t,
     fs_best = (case ws_for w t of None \<Rightarrow> None | Some res \<Rightarrow> best_of (tr_chain res) (map wc_face cs)),
     fs_default = ([] \<in> wc_face ` set cs)\<rparr>"
proof (induction cs rule: rev_induct)
  case (snoc c cs)
  have t: "wc_type c = t" using snoc.prems by simp
  have cb: "index_of ch p = None \<Longrightarrow> best_of ch [p] = None" "index_of ch p = Some r \<Longrightarrow> best_of ch [p] = Some (r, p)"
    for ch p r
    using best_of_snoc [of ch "[]" p] by (simp_all add: best_of_def)
  show ?case
  proof (cases "cs = []")
    case True
    then show ?thesis
      using t by (auto simp: fold_rows_def see_row_def Let_def is_implicit_def cb split: option.splits)
  next
    case False
    with snoc have "fold_rows w cs None = Some \<lparr>fs_type = t,
       fs_best = (case ws_for w t of None \<Rightarrow> None | Some res \<Rightarrow> best_of (tr_chain res) (map wc_face cs)),
       fs_default = ([] \<in> wc_face ` set cs)\<rparr>" by simp
    then show ?thesis
      using t by (auto simp: see_row_def Let_def is_implicit_def best_of_snoc split: option.splits)
  qed
qed simp

lemma decide_prime_of:
  assumes "cs \<noteq> []" and "\<forall>c\<in>set cs. wc_type c = t"
  shows "Option.bind (fold_rows w cs None) (decide_family w) = prime_of w t (map wc_face cs)"
  unfolding fold_rows_typed [OF assms]
  by (auto simp: decide_family_def prime_of_def best_of_def split: option.splits list.splits)

lemma prime_of_Nil: "prime_of w t [] = None"
  by (simp add: prime_of_def split: option.splits)

lemma resolve_typed:
  assumes "ws_set w" and "\<forall>c\<in>set cs. wc_id c = i \<longrightarrow> wc_type c = t"
  shows "dict_get (resolve_world_primes w cs) i = prime_of w t (map wc_face (rows_of i cs))"
proof (cases "rows_of i cs = []")
  case True
  with assms show ?thesis by (simp add: resolve_get prime_of_Nil)
next
  case False
  have "\<forall>c\<in>set (rows_of i cs). wc_type c = t" using assms(2) by (simp add: rows_of_def)
  with False assms(1) show ?thesis by (simp add: resolve_get decide_prime_of)
qed

text \<open>
  C37: World resolution follows its three rules. For a set world and an id whose rows have one
  type, the single pass over the candidates of all families gives that id exactly what the rules
  say of its set of faces: the implicit face when the type is unscoped, else the first chain face
  that is stored, with its position, else what the fallback says. In particular the answer does
  not depend on the order of the rows, nor on the rows of other ids.
\<close>
theorem resolve_follows_rules:
  assumes "ws_set w" and "\<forall>c\<in>set cs. wc_id c = i \<longrightarrow> wc_type c = t"
  shows "dict_get (resolve_world_primes w cs) i = prime_of w t (map wc_face (rows_of i cs))"
  by (rule resolve_typed [OF assms])

definition demo_world :: world_scope where
  "demo_world = new_world_scope
     [(''page'', \<lparr>tr_chain = [''live'', ''draft''], tr_fallback = FallbackDefaultState\<rparr>)]"

theorem resolve_follows_rules_witness:
  "dict_get (resolve_world_primes demo_world
     [\<lparr>wc_id = ''P-1'', wc_type = ''page'', wc_face = []\<rparr>, \<lparr>wc_id = ''P-2'', wc_type = ''task'', wc_face = []\<rparr>,
      \<lparr>wc_id = ''P-1'', wc_type = ''page'', wc_face = ''draft''\<rparr>]) ''P-1''
   = Some \<lparr>wr_face = ''draft'', wr_via = ResolutionChain, wr_position = 1\<rparr>"
proof -
  let ?cs = "[\<lparr>wc_id = ''P-1'', wc_type = ''page'', wc_face = []\<rparr>, \<lparr>wc_id = ''P-2'', wc_type = ''task'', wc_face = []\<rparr>,
      \<lparr>wc_id = ''P-1'', wc_type = ''page'', wc_face = ''draft''\<rparr>]"
  have 1: "ws_set demo_world" by code_simp
  have 2: "\<forall>c\<in>set ?cs. wc_id c = ''P-1'' \<longrightarrow> wc_type c = ''page''" by simp
  show ?thesis unfolding resolve_follows_rules [OF 1 2] by code_simp
qed

text \<open>
  For a family of mixed types, which only a hand-edited tree can hold, the answer depends on
  the order in which the rows arrive, against the comment on \<open>ResolveWorldPrimes\<close>: without an
  implicit row, the first row's type decides.
\<close>
theorem resolve_mixed_types_order:
  "let w = new_world_scope [(''page'', \<lparr>tr_chain = [''live''], tr_fallback = FallbackExclude\<rparr>),
             (''task'', \<lparr>tr_chain = [''done''], tr_fallback = FallbackExclude\<rparr>)];
       a = \<lparr>wc_id = ''X'', wc_type = ''page'', wc_face = ''live''\<rparr>;
       b = \<lparr>wc_id = ''X'', wc_type = ''task'', wc_face = ''done''\<rparr>
   in map_option wr_face (dict_get (resolve_world_primes w [a, b]) ''X'') = Some ''live'' \<and>
      map_option wr_face (dict_get (resolve_world_primes w [b, a]) ''X'') = Some ''done''"
  by code_simp

subsection \<open>Flat types, and naming the rule afterwards\<close>

lemma index_of_first:
  "filter P xs = x # ys \<Longrightarrow> index_of xs x = Some (length (takeWhile (\<lambda>y. \<not> P y) xs))"
  by (induction xs) (auto split: if_splits dest: filter_eq_ConsD)

lemma index_of_None: "index_of xs x = None \<longleftrightarrow> x \<notin> set xs"
  by (induction xs) auto

lemma prime_of_flat:
  assumes "flat_faces w t = Some fs"
  shows "map_option wr_face (prime_of w t F) = Some p \<longleftrightarrow> p \<in> set F \<and> p \<in> set fs"
proof (cases "ws_for w t")
  case None
  with assms show ?thesis by (auto simp: prime_of_def flat_faces_def)
next
  case (Some res)
  show ?thesis
  proof (cases "tr_chain res")
    case Nil
    with Some assms show ?thesis by (cases "tr_fallback res") (auto simp: prime_of_def flat_faces_def)
  next
    case (Cons a chain)
    with Some assms have "chain = []" "fs = [a]" "tr_fallback res = FallbackDefaultState \<Longrightarrow> a = []"
      by (auto simp: flat_faces_def Let_def split: if_splits)
    with Some Cons show ?thesis by (cases "tr_fallback res") (auto simp: prime_of_def)
  qed
qed

text \<open>
  Flattening is sound: when \<open>FlatFaces\<close> says that a type needs no ranking, the rows a world
  serves of that type are exactly the stored rows at the listed faces, so the plain face filter
  that \<open>FlattenedWhenUnranked\<close> puts in place of the world selects the same rows.
\<close>
theorem flat_faces_select_primes:
  assumes flat: "flat_faces w t = Some fs" and set: "ws_set w"
    and typed: "\<forall>d\<in>set cs. wc_id d = wc_id c \<longrightarrow> wc_type d = t" and c: "c \<in> set cs"
  shows "dict_get (world_primes w cs) (wc_id c) = Some (wc_face c) \<longleftrightarrow>
    sel_admits (at_faces fs) (wc_face c)"
proof -
  have "wc_face c \<in> set (map wc_face (rows_of (wc_id c) cs))" using c by (auto simp: rows_of_def)
  then show ?thesis
    unfolding world_primes_get resolve_typed [OF set typed] prime_of_flat [OF flat]
    by (simp add: sel_admits_def at_faces_def)
qed

theorem flat_faces_select_primes_witness:
  "let w = new_world_scope [(''page'', \<lparr>tr_chain = [''live''], tr_fallback = FallbackExclude\<rparr>)];
       c = \<lparr>wc_id = ''P-1'', wc_type = ''page'', wc_face = ''live''\<rparr>;
       d = \<lparr>wc_id = ''P-1'', wc_type = ''page'', wc_face = []\<rparr>
   in flattened_when_unranked (in_world w) ''page'' = at_faces [''live''] \<and>
      dict_get (world_primes w [d, c]) ''P-1'' = Some ''live''"
proof -
  let ?w = "new_world_scope [(''page'', \<lparr>tr_chain = [''live''], tr_fallback = FallbackExclude\<rparr>)]"
  let ?c = "\<lparr>wc_id = ''P-1'', wc_type = ''page'', wc_face = ''live''\<rparr>"
  let ?d = "\<lparr>wc_id = ''P-1'', wc_type = ''page'', wc_face = []\<rparr>"
  have 1: "flat_faces ?w ''page'' = Some [''live'']" and 2: "ws_set ?w" by code_simp+
  have 3: "\<forall>d\<in>set [?d, ?c]. wc_id d = wc_id ?c \<longrightarrow> wc_type d = ''page''" by simp
  have "flattened_when_unranked (in_world ?w) ''page'' = at_faces [''live'']" by code_simp
  with flat_faces_select_primes [OF 1 2 3] show ?thesis
    by (simp add: Let_def sel_admits_def at_faces_def)
qed

text \<open>
  \<open>RuleAt\<close>, which names the rule for a face already chosen without the family in hand, agrees
  with the resolution that chose the face: same rule and same chain position.
\<close>
theorem rule_at_agrees:
  assumes "ws_set w" and "\<forall>c\<in>set cs. wc_id c = i \<longrightarrow> wc_type c = t"
    and "dict_get (resolve_world_primes w cs) i = Some r"
  shows "rule_at w t (wr_face r) = (wr_via r, wr_position r)"
proof -
  have p: "prime_of w t (map wc_face (rows_of i cs)) = Some r"
    using assms(3) unfolding resolve_typed [OF assms(1,2)] .
  show ?thesis
  proof (cases "ws_for w t")
    case None
    with p show ?thesis by (auto simp: prime_of_def rule_at_def split: if_splits)
  next
    case (Some res)
    show ?thesis
    proof (cases "filter (\<lambda>q. q \<in> set (map wc_face (rows_of i cs))) (tr_chain res)")
      case Nil
      with p Some have "[] \<in> set (map wc_face (rows_of i cs))" and r: "wr_face r = []" "wr_position r = 0"
        "wr_via r = ResolutionFallbackDefault"
        by (auto simp: prime_of_def split: if_splits)
      with Nil have "index_of (tr_chain res) [] = None" by (auto simp: index_of_None filter_empty_conv)
      with r Some show ?thesis by (simp add: rule_at_def)
    next
      case (Cons q qs)
      with p Some index_of_first [OF Cons] show ?thesis by (auto simp: prime_of_def rule_at_def)
    qed
  qed
qed

theorem rule_at_agrees_witness:
  "rule_at demo_world ''page'' ''draft'' = (ResolutionChain, 1)"
proof -
  let ?cs = "[\<lparr>wc_id = ''P-1'', wc_type = ''page'', wc_face = ''draft''\<rparr>]"
  let ?r = "\<lparr>wr_face = ''draft'', wr_via = ResolutionChain, wr_position = 1\<rparr>"
  have 1: "ws_set demo_world" by code_simp
  have 2: "\<forall>c\<in>set ?cs. wc_id c = ''P-1'' \<longrightarrow> wc_type c = ''page''" by simp
  have 3: "dict_get (resolve_world_primes demo_world ?cs) ''P-1'' = Some ?r" by code_simp
  show ?thesis using rule_at_agrees [OF 1 2 3] by simp
qed

section \<open>Paging a world\<close>

definition loaded :: "(string \<Rightarrow> world_candidate option) \<Rightarrow> string list \<Rightarrow> world_candidate list" where
  "loaded load ks = concat (map (\<lambda>k. case load k of None \<Rightarrow> [] | Some c \<Rightarrow> [c]) ks)"

lemma page_loop_filter: "page_loop limit P ks page = page_loop limit P (filter P ks) page"
  by (induction ks arbitrary: page) auto

lemma page_loop_flush:
  assumes "\<forall>(k, c)\<in>set rows. P k \<longleftrightarrow> dict_get primes (wc_id c) = Some (wc_face c)"
  shows "page_loop limit P (map fst rows @ rest) page =
    (case flush_rows primes limit rows page of Inl p \<Rightarrow> page_loop limit P rest p | Inr full \<Rightarrow> full)"
  using assms
  by (induction primes limit rows page rule: flush_rows.induct) auto

text \<open>The rows in the buffer and those still to come, and what the loop needs to know of them.\<close>

definition loop_rows ::
  "(string \<Rightarrow> bool) \<Rightarrow> (string \<Rightarrow> world_candidate option) \<Rightarrow> string list \<Rightarrow>
   (string \<times> world_candidate) list \<Rightarrow> world_candidate list" where
  "loop_rows match load ks fam = map snd fam @ loaded load (filter match ks)"

lemma loaded_simps:
  "loaded load [] = []"
  "loaded load (k # ks) = (case load k of None \<Rightarrow> loaded load ks | Some c \<Rightarrow> c # loaded load ks)"
  by (auto simp: loaded_def split: option.splits)

lemma loaded_filter_ids: "set (loaded load (filter match ks)) \<subseteq> set (loaded load ks)"
  by (induction ks) (auto simp: loaded_simps split: option.splits)

lemma world_primes_rows:
  "rows_of i cs = rows_of i ds \<Longrightarrow> dict_get (world_primes w cs) i = dict_get (world_primes w ds) i"
  by (metis resolve_get_rows world_primes_get)

definition row_prime :: "world_scope \<Rightarrow> world_candidate list \<Rightarrow> world_candidate \<Rightarrow> bool" where
  "row_prime w rows c \<longleftrightarrow> dict_get (world_primes w rows) (wc_id c) = Some (wc_face c)"

definition prime_key ::
  "(world_candidate \<Rightarrow> bool) \<Rightarrow> (string \<Rightarrow> bool) \<Rightarrow> (string \<Rightarrow> world_candidate option) \<Rightarrow> string \<Rightarrow> bool" where
  "prime_key Q match load k \<longleftrightarrow> match k \<and> (case load k of None \<Rightarrow> False | Some c \<Rightarrow> Q c)"

text \<open>
  The loop's invariant: the buffer holds matching rows of the current id, the ids still to come
  are in order, and \<open>Q\<close> says of each row at hand whether it is the prime among all of them.
\<close>

definition loop_ok ::
  "world_scope \<Rightarrow> (string \<Rightarrow> bool) \<Rightarrow> (string \<Rightarrow> world_candidate option) \<Rightarrow> (world_candidate \<Rightarrow> bool) \<Rightarrow>
   string list \<Rightarrow> string \<Rightarrow> (string \<times> world_candidate) list \<Rightarrow> bool" where
  "loop_ok w match load Q ks cur fam \<longleftrightarrow>
     (\<forall>(k, c)\<in>set fam. wc_id c = cur \<and> match k \<and> load k = Some c) \<and>
     sorted (cur # map wc_id (loaded load ks)) \<and>
     (\<forall>c\<in>set (loop_rows match load ks fam). Q c \<longleftrightarrow> row_prime w (loop_rows match load ks fam) c)"

lemma flush_family_page:
  assumes ok: "loop_ok w match load Q ks cur fam"
    and rest: "cur \<notin> wc_id ` set (loaded load (filter match ks))"
  shows "page_loop limit (prime_key Q match load) (map fst fam @ later) page =
    (case flush_family w limit fam page of
       Inl p \<Rightarrow> page_loop limit (prime_key Q match load) later p | Inr full \<Rightarrow> full)"
proof (cases "fam = []")
  case False
  have "rows_of cur (loop_rows match load ks fam) = rows_of cur (map snd fam)"
    using rest by (auto simp: rows_of_def loop_rows_def filter_empty_conv)
  note pr = world_primes_rows [OF this]
  have "prime_key Q match load k \<longleftrightarrow> dict_get (world_primes w (map snd fam)) (wc_id c) = Some (wc_face c)"
    if "(k, c) \<in> set fam" for k c
  proof -
    have kc: "wc_id c = cur" "match k" "load k = Some c" using ok that by (auto simp: loop_ok_def)
    have "c \<in> set (loop_rows match load ks fam)" using that by (force simp: loop_rows_def)
    then have "Q c \<longleftrightarrow> row_prime w (loop_rows match load ks fam) c" using ok by (simp add: loop_ok_def)
    with kc show ?thesis by (simp add: prime_key_def row_prime_def pr)
  qed
  then have "\<forall>(k, c)\<in>set fam. prime_key Q match load k \<longleftrightarrow>
      dict_get (world_primes w (map snd fam)) (wc_id c) = Some (wc_face c)" by blast
  from page_loop_flush [OF this] False show ?thesis by (simp add: flush_family_def)
qed (simp add: flush_family_def)

lemma loop_ok_keep:
  assumes ok: "loop_ok w match load Q (k # ks) cur fam" and k: "load k = Some c" "wc_id c = cur"
  shows "loop_ok w match load Q ks cur (if match k then fam @ [(k, c)] else fam)"
proof -
  have rows: "loop_rows match load ks (if match k then fam @ [(k, c)] else fam)
      = loop_rows match load (k # ks) fam"
    using k by (simp add: loop_rows_def loaded_simps)
  show ?thesis
    using ok k unfolding loop_ok_def rows by (simp add: loaded_simps)
qed

lemma loop_ok_skip:
  assumes ok: "loop_ok w match load Q (k # ks) cur fam" and k: "load k = None"
  shows "loop_ok w match load Q ks cur fam"
proof -
  have "loop_rows match load (k # ks) fam = loop_rows match load ks fam"
    using k by (simp add: loop_rows_def loaded_simps)
  with ok k show ?thesis unfolding loop_ok_def by (simp add: loaded_simps)
qed

lemma loop_ok_next:
  assumes ok: "loop_ok w match load Q (k # ks) cur fam" and k: "load k = Some c" "wc_id c \<noteq> cur"
  shows "loop_ok w match load Q ks (wc_id c) (if match k then [(k, c)] else [])"
    and "cur \<notin> wc_id ` set (loaded load (filter match (k # ks)))"
proof -
  let ?fam = "if match k then [(k, c)] else []"
  let ?old = "loop_rows match load (k # ks) fam" and ?new = "loop_rows match load ks ?fam"
  have s: "sorted (cur # wc_id c # map wc_id (loaded load ks))"
    using ok k by (simp add: loop_ok_def loaded_simps)
  have lt: "cur < wc_id d" if "d \<in> set (loaded load (k # ks))" for d
    using that k s by (fastforce simp: loaded_simps)
  then show "cur \<notin> wc_id ` set (loaded load (filter match (k # ks)))"
    using loaded_filter_ids [of load match "k # ks"] by fastforce
  have new: "?new = loaded load (filter match (k # ks))"
    using k by (simp add: loop_rows_def loaded_simps)
  have "Q d \<longleftrightarrow> row_prime w ?new d" if d: "d \<in> set ?new" for d
  proof -
    have "wc_id d \<noteq> cur" using lt [of d] d loaded_filter_ids [of load match "k # ks"] by (auto simp: new)
    then have "rows_of (wc_id d) ?old = rows_of (wc_id d) ?new"
      using ok unfolding new by (auto simp: loop_rows_def rows_of_def filter_empty_conv loop_ok_def)
    moreover have "d \<in> set ?old" using d by (simp add: new) (simp add: loop_rows_def)
    ultimately show ?thesis
      using ok world_primes_rows [of "wc_id d" ?old ?new] by (simp add: loop_ok_def row_prime_def)
  qed
  then show "loop_ok w match load Q ks (wc_id c) ?fam"
    using s k unfolding loop_ok_def by (simp add: split_beta)
qed

lemma world_loop_page:
  "loop_ok w match load Q ks cur fam \<Longrightarrow>
   world_loop w limit match load ks cur fam page
     = page_loop limit (prime_key Q match load) (map fst fam @ ks) page"
proof (induction w limit match load ks cur fam page rule: world_loop.induct)
  case (1 w limit match load cur fam page)
  from flush_family_page [OF 1, of limit "[]" page]
  show ?case by (auto simp: loaded_simps split: sum.splits)
next
  case (2 w limit match load k ks cur fam page)
  let ?P = "prime_key Q match load"
  have skip: "page_loop limit ?P (as @ k # ks) p = page_loop limit ?P (as @ ks) p" if "\<not> ?P k" for as p
    using that by (simp add: page_loop_filter [of limit ?P "as @ k # ks"] page_loop_filter [of limit ?P "as @ ks"])
  show ?case
  proof (cases "load k")
    case None
    then have "\<not> ?P k" by (simp add: prime_key_def)
    with "2.IH"(1) [OF None loop_ok_skip [OF "2.prems" None]] None skip show ?thesis by simp
  next
    case (Some c)
    have nm: "\<not> match k \<Longrightarrow> \<not> ?P k" by (simp add: prime_key_def)
    show ?thesis
    proof (cases "wc_id c = cur")
      case True
      have "world_loop w limit match load ks cur (if match k then fam @ [(k, c)] else fam) page =
          page_loop limit ?P (map fst (if match k then fam @ [(k, c)] else fam) @ ks) page"
        using True by (intro "2.IH"(3) [OF Some _ loop_ok_keep [OF "2.prems" Some True]]) simp
      with True Some skip nm show ?thesis by (cases "match k") simp_all
    next
      case False
      note nx = loop_ok_next [OF "2.prems" Some False]
      note fl = flush_family_page [OF "2.prems" nx(2), of limit "k # ks" page]
      have "page_loop limit ?P (k # ks) p
          = page_loop limit ?P (map fst (if match k then [(k, c)] else []) @ ks) p" for p
        using skip [of "[]"] nm by (cases "match k") simp_all
      note tail = this
      show ?thesis
      proof (cases "flush_family w limit fam page")
        case (Inl p)
        have "world_loop w limit match load (k # ks) cur fam page
            = world_loop w limit match load ks (wc_id c) (if match k then [(k, c)] else []) p"
          using Some False Inl by simp
        also have "\<dots> = page_loop limit ?P (k # ks) p"
          unfolding tail by (rule "2.IH"(2) [OF Some False Inl nx(1)])
        finally show ?thesis using fl Inl by simp
      next
        case (Inr full)
        with fl Some False show ?thesis by simp
      qed
    qed
  qed
qed

text \<open>A key whose row matches and is the prime of its id among all matching rows.\<close>

definition is_prime ::
  "world_scope \<Rightarrow> (string \<Rightarrow> bool) \<Rightarrow> (string \<Rightarrow> world_candidate option) \<Rightarrow> string list \<Rightarrow> string \<Rightarrow> bool" where
  "is_prime w match load ks = prime_key (row_prime w (loaded load (filter match ks))) match load"

text \<open>An index of state keys and the rows it loads: each row is stored under its own key.\<close>

definition row_key :: "string \<Rightarrow> world_candidate \<Rightarrow> bool" where
  "row_key k c \<longleftrightarrow> wc_id c \<noteq> [] \<and> CHR ''@'' \<notin> set (wc_id c) \<and> k = format_state_ref (wc_id c) (wc_face c)"

definition world_index :: "(string \<Rightarrow> world_candidate option) \<Rightarrow> string list \<Rightarrow> bool" where
  "world_index load ks \<longleftrightarrow> key_index ks \<and>
     list_all (\<lambda>k. case load k of None \<Rightarrow> True | Some c \<Rightarrow> row_key k c) ks"

lemma key_id_fst: "key_id k = fst (state_key k)"
  by (simp add: key_id_def state_key_def split_beta)

lemma row_key_state: "row_key k c \<Longrightarrow> state_key k = (wc_id c, wc_face c)"
  by (simp add: row_key_def is_state_key_format)

lemma world_index_append: "world_index load (xs @ ys) \<Longrightarrow> world_index load xs \<and> world_index load ys"
  by (simp add: world_index_def key_index_def in_order_def sorted_wrt_append)

lemma loaded_set: "c \<in> set (loaded load ks) \<longleftrightarrow> (\<exists>k\<in>set ks. load k = Some c)"
  by (induction ks) (auto simp: loaded_simps split: option.splits)

lemma world_index_ids: "world_index load ks \<Longrightarrow> sorted (map wc_id (loaded load ks))"
proof (induction ks)
  case (Cons k ks)
  then have IH: "sorted (map wc_id (loaded load ks))"
    using world_index_append [of load "[k]" ks] by simp
  show ?case
  proof (cases "load k")
    case (Some c)
    have "wc_id c \<le> wc_id d" if "d \<in> set (loaded load ks)" for d
    proof -
      obtain q where q: "q \<in> set ks" "load q = Some d" using \<open>d \<in> _\<close> by (auto simp: loaded_set)
      with Cons.prems Some have "row_key k c" "row_key q d" "state_key k < state_key q"
        by (auto simp: world_index_def list_all_iff key_index_def sk.in_order_Cons)
      then show ?thesis by (auto simp: row_key_state)
    qed
    with IH Some show ?thesis by (simp add: loaded_simps)
  qed (use IH in \<open>simp add: loaded_simps\<close>)
qed (simp add: loaded_simps)

lemma loaded_append: "loaded load (xs @ ys) = loaded load xs @ loaded load ys"
  by (simp add: loaded_def)

lemma world_suffix_page:
  assumes wi: "world_index load ks" and ks: "ks = xs @ ys"
    and lt: "\<forall>k\<in>set xs. key_id k \<le> b" "\<forall>k\<in>set ys. b < key_id k"
  shows "world_loop w limit match load ys [] [] [] = page_loop limit (is_prime w match load ks) ys []"
proof -
  let ?all = "loaded load (filter match ks)" and ?ys = "loaded load (filter match ys)"
  have rk: "row_key k c" if "k \<in> set ks" "load k = Some c" for k c
    using wi that by (auto simp: world_index_def list_all_iff)
  have le: "wc_id c \<le> b" if "c \<in> set (loaded load (filter match xs))" for c
    using that lt(1) rk row_key_state by (fastforce simp: loaded_set ks key_id_fst)
  have gt: "b < wc_id c" if "c \<in> set ?ys" for c
    using that lt(2) rk row_key_state by (fastforce simp: loaded_set ks key_id_fst)
  have "row_prime w ?all c \<longleftrightarrow> row_prime w ?ys c" if "c \<in> set ?ys" for c
  proof -
    have "wc_id d \<noteq> wc_id c" if "d \<in> set (loaded load (filter match xs))" for d
      using le [OF that] gt [OF \<open>c \<in> set ?ys\<close>] by auto
    then have "rows_of (wc_id c) ?all = rows_of (wc_id c) ?ys"
      by (auto simp: rows_of_def ks loaded_append filter_empty_conv)
    from world_primes_rows [OF this] show ?thesis by (simp add: row_prime_def)
  qed
  moreover have "sorted ([] # map wc_id (loaded load ys))"
    using world_index_ids [of load ys] world_index_append [of load xs ys] wi ks by simp
  ultimately have "loop_ok w match load (row_prime w ?all) ys [] []"
    unfolding loop_ok_def loop_rows_def by auto
  from world_loop_page [OF this] show ?thesis by (simp add: is_prime_def)
qed

lemma is_prime_unique:
  assumes wi: "world_index load ks" and p: "is_prime w match load ks k" "is_prime w match load ks q"
    and in_ks: "k \<in> set ks" "q \<in> set ks" and same: "key_id k = key_id q"
  shows "k = q"
proof -
  obtain c d where c: "load k = Some c" "row_prime w (loaded load (filter match ks)) c"
    and d: "load q = Some d" "row_prime w (loaded load (filter match ks)) d"
    using p by (auto simp: is_prime_def prime_key_def split: option.splits)
  have rk: "row_key k c" "row_key q d" using wi in_ks c(1) d(1) by (auto simp: world_index_def list_all_iff)
  with same have "wc_id c = wc_id d" by (simp add: key_id_fst row_key_state)
  with c(2) d(2) have "wc_face c = wc_face d" by (simp add: row_prime_def)
  with \<open>wc_id c = wc_id d\<close> rk show ?thesis by (simp add: row_key_def)
qed

lemma world_page_is_key_page:
  assumes wi: "world_index load ks"
    and cur: "cur = [] \<or> cur \<in> set (filter (is_prime w match load ks) ks)"
  shows "paginate_world_primes ks cur limit w match load
    = paginate_sorted_keys_func ks cur limit (is_prime w match load ks) compare_state_keys"
proof (cases "cur = []")
  case True
  have "loop_ok w match load (row_prime w (loaded load (filter match ks))) ks [] []"
    using world_index_ids [OF wi] by (simp add: loop_ok_def loop_rows_def)
  from world_loop_page [OF this] True show ?thesis
    by (simp add: paginate_world_primes_def paginate_sorted_keys_func_def page_start_def is_prime_def)
next
  case False
  let ?P = "is_prime w match load ks" and ?n = "page_start ks cur compare_state_keys"
  let ?same = "\<lambda>k. key_id k = key_id cur"
  define A where "A = drop ?n ks"
  define R where "R = dropWhile ?same A"
  have o: "in_order compare_state_keys ks" using wi by (simp add: world_index_def key_index_def)
  have A: "A = filter (\<lambda>k. state_key cur < state_key k) ks"
    unfolding A_def using sk.drop_page_start [OF o False] .
  have ks: "ks = (take ?n ks @ takeWhile ?same A) @ R" by (simp add: A_def R_def)
  have "filter (\<lambda>k. state_key cur < state_key k) (take ?n ks) = []"
  proof -
    let ?Q = "\<lambda>k. state_key cur < state_key k"
    have "filter ?Q (take ?n ks) @ filter ?Q A = A"
      unfolding A_def by (metis A A_def append_take_drop_id filter_append)
    moreover have "filter ?Q A = A" by (simp add: A)
    ultimately show ?thesis by simp
  qed
  then have lo: "\<forall>k\<in>set (take ?n ks @ takeWhile ?same A). key_id k \<le> key_id cur"
    by (auto simp: filter_empty_conv key_id_fst less_prod_def not_less dest!: set_takeWhileD)
  have Ro: "in_order compare_state_keys R"
    using o by (subst (asm) ks) (simp add: sk.in_order_append)
  have hi: "key_id cur < key_id k" if "k \<in> set R" for k
  proof -
    have ge: "key_id cur \<le> key_id q" if "q \<in> set R" for q
      using that by (auto simp: R_def A key_id_fst less_prod_def dest!: set_dropWhileD)
    obtain r rs where R: "R = r # rs" using \<open>k \<in> set R\<close> by (cases R) auto
    then have "key_id r \<noteq> key_id cur" using hd_dropWhile [of ?same A] by (simp flip: R_def)
    with ge [of r] R have "key_id cur < key_id r" by auto
    moreover have "key_id r \<le> key_id k"
      using Ro R \<open>k \<in> set R\<close> by (auto simp: sk.in_order_Cons key_id_fst less_prod_def)
    ultimately show ?thesis by simp
  qed
  have "world_loop w limit match load R [] [] [] = page_loop limit ?P R []"
    using hi by (intro world_suffix_page [OF wi ks lo]) blast
  moreover have "filter ?P A = filter ?P R"
  proof -
    have "\<not> ?P k" if "k \<in> set (takeWhile ?same A)" for k
    proof
      assume "?P k"
      have "k \<in> set A" and s: "key_id k = key_id cur" using that by (auto dest: set_takeWhileD)
      then have "k \<in> set ks" "state_key cur < state_key k" by (auto simp: A)
      with is_prime_unique [OF wi \<open>?P k\<close> _ _ _ s] cur False show False by auto
    qed
    then have "filter ?P (takeWhile ?same A) = []" by (auto simp: filter_empty_conv)
    then show ?thesis by (metis R_def append_Nil filter_append takeWhile_dropWhile_id)
  qed
  then have "page_loop limit ?P A [] = page_loop limit ?P R []" by (metis page_loop_filter)
  ultimately show ?thesis
    using False
    by (simp add: paginate_world_primes_def paginate_sorted_keys_func_def A_def [symmetric] R_def [symmetric])
qed

lemma world_pages:
  assumes wi: "world_index load ks" and lim: "0 < limit" and n: "0 < n"
    and enough: "length (filter (is_prime w match load ks) ks) \<le> nat limit * n"
  shows "concat (follow_pages (\<lambda>cur. paginate_world_primes ks cur limit w match load) n [])
      = filter (is_prime w match load ks) ks \<and>
    list_all (\<lambda>page. length page \<le> nat limit)
      (follow_pages (\<lambda>cur. paginate_world_primes ks cur limit w match load) n [])"
proof -
  have o: "in_order compare_state_keys ks" using wi by (simp add: world_index_def key_index_def)
  have ne: "[] \<notin> set ks"
    using wi by (auto simp: world_index_def key_index_def list_all_iff is_state_key_def cut_def)
  show ?thesis
    using sk.follow_pages_from [OF o ne lim world_page_is_key_page [OF wi], of w match "[]" n] enough n
    by (simp add: sk.after_cursor_def list_all_iff encode_cursor_def)
qed

text \<open>
  C36: A world's listing can be read page by page: \<open>PaginateWorldPrimes\<close> buffers one family at a
  time and resumes at the next family, and following its cursors from the start gives, in pages of
  at most \<open>limit\<close> primes, exactly the keys whose row is the prime of its id among all matching rows,
  each once and in index order. So no page boundary can split a family and change a verdict.
\<close>
theorem world_pages_are_primes:
  assumes wi: "world_index load ks" and lim: "0 < limit" and n: "0 < n"
    and enough: "length (filter (is_prime w match load ks) ks) \<le> nat limit * n"
  shows "concat (follow_pages (\<lambda>cur. paginate_world_primes ks cur limit w match load) n [])
      = filter (is_prime w match load ks) ks \<and>
    list_all (\<lambda>page. length page \<le> nat limit)
      (follow_pages (\<lambda>cur. paginate_world_primes ks cur limit w match load) n [])"
  by (rule world_pages [OF assms])

theorem world_pages_are_primes_witness:
  "let load = (\<lambda>k. case parse_state_ref k of Inl e \<Rightarrow> None
         | Inr (i, p) \<Rightarrow> Some \<lparr>wc_id = i, wc_type = ''page'', wc_face = p\<rparr>);
       ks = [''P-1'', ''P-1@draft'', ''P-10@draft'', ''P-10@live'', ''P-2'']
   in concat (follow_pages (\<lambda>cur. paginate_world_primes ks cur 1 demo_world (\<lambda>k. True) load) 3 [])
      = [''P-1@draft'', ''P-10@live'', ''P-2'']"
proof -
  let ?load = "\<lambda>k. case parse_state_ref k of Inl e \<Rightarrow> None
         | Inr (i, p) \<Rightarrow> Some \<lparr>wc_id = i, wc_type = ''page'', wc_face = p\<rparr>"
  let ?ks = "[''P-1'', ''P-1@draft'', ''P-10@draft'', ''P-10@live'', ''P-2'']"
  have 1: "world_index ?load ?ks" by code_simp
  have f: "filter (is_prime demo_world (\<lambda>k. True) ?load ?ks) ?ks = [''P-1@draft'', ''P-10@live'', ''P-2'']"
    by code_simp
  have 2: "length (filter (is_prime demo_world (\<lambda>k. True) ?load ?ks) ?ks) \<le> nat 1 * 3"
    unfolding f by simp
  show ?thesis
    using world_pages_are_primes [OF 1 _ _ 2] f by (simp add: Let_def)
qed

end
