(* ===== verification/Graph_Query.thy ===== *)
theory Graph_Query
  imports World
begin

text \<open>
  Graph queries: the shapes of \<^verbatim>\<open>internal/store/graphquery.go\<close>, the property comparisons of
  \<^verbatim>\<open>internal/propmatch\<close>, and the reference evaluator \<^verbatim>\<open>internal/store/graphquerynaive\<close>
  that the in-memory and file stores run and the SQL stores are held to. A reader is a record of
  the two iterators the evaluator pulls from; an iterator is the list of what it yields, a row or
  an error, so an error in the middle of a scan is a value here too. \<open>Inl\<close> is the error return.
\<close>

section \<open>Property values and predicates\<close>

definition prop_empty :: "pval \<Rightarrow> bool" where
  "prop_empty v = (case v of VNil \<Rightarrow> True | VStr s \<Rightarrow> s = [] | VStrs ss \<Rightarrow> ss = [] | VList vs \<Rightarrow> vs = [] | _ \<Rightarrow> False)"

definition stringify :: "pval \<Rightarrow> string" where
  "stringify v = (case v of VNil \<Rightarrow> [] | VStr s \<Rightarrow> s | _ \<Rightarrow> show_pval v)"

definition equals_target :: "pval \<Rightarrow> string \<Rightarrow> bool" where
  "equals_target v target =
     (case v of
        VStr s \<Rightarrow> s = target
      | VStrs ss \<Rightarrow> target \<in> set ss
      | VList vs \<Rightarrow> list_ex (\<lambda>item. stringify item = target) vs
      | _ \<Rightarrow> stringify v = target)"

datatype match_op = OpEqual | OpNotEqual

text \<open>\<open>Decide\<close> on the two operators it is given: \<open>Match\<close> is \<open>True\<close>.\<close>

definition decide :: "pval \<Rightarrow> match_op \<Rightarrow> string \<Rightarrow> bool" where
  "decide v op target =
     (if prop_empty v then op = OpEqual \<and> target = []
      else if target = [] then op = OpNotEqual
      else if op = OpNotEqual then \<not> equals_target v target else equals_target v target)"

datatype prop_op =
    PropEqual | PropNotEqual | PropNotEqualOrEmpty | PropGreaterEqual | PropLessEqual | PropKeyEqual
  | PropUnknown int

record prop_predicate =
  pp_property :: string
  pp_op :: prop_op
  pp_value :: string
  pp_scalar :: bool
  pp_key :: string

datatype row_error = ConflictedRow | ReadFailed string

datatype graph_error =
    QueryShape query_error | UnknownOperator string prop_op | KeyNotAllowed string | KeyMissing string
  | BadKey string | NestedTooDeep | NestedInheritance | RowError row_error

definition key_char :: "char \<Rightarrow> bool" where
  "key_char c \<longleftrightarrow> is_lower c \<or> is_digit c \<or> c = CHR ''_''"

definition validate_prop_predicate :: "prop_predicate \<Rightarrow> graph_error option" where
  "validate_prop_predicate p =
     (case pp_op p of
        PropUnknown n \<Rightarrow> Some (UnknownOperator (pp_property p) (pp_op p))
      | PropKeyEqual \<Rightarrow>
          if pp_key p = [] \<or> pp_value p = [] then Some (KeyMissing (pp_property p))
          else if \<not> list_all key_char (pp_key p) then Some (BadKey (pp_property p)) else None
      | _ \<Rightarrow> if pp_key p \<noteq> [] then Some (KeyNotAllowed (pp_property p)) else None)"

definition validate_prop_predicates :: "prop_predicate list \<Rightarrow> graph_error option" where
  "validate_prop_predicates ps = first_error (map validate_prop_predicate ps)"

section \<open>Queries\<close>

text \<open>A relation predicate and its endpoint match nest in each other.\<close>

datatype relation_predicate =
    RelationPredicate (rp_endpoints: "string list") (rp_types: "string list") (rp_negate: bool)
      (rp_through: "string list") (rp_depth: int) (rp_entity_through: "string list") (rp_entity_depth: int)
      (rp_match: "endpoint_predicate option")
and endpoint_predicate =
    EndpointPredicate (ep_faces: face_selection) (ep_type: string) (ep_props: "prop_predicate list")
      (ep_inbound: "relation_predicate option") (ep_outbound: "relation_predicate option")

record graph_branch =
  gb_inbound :: "relation_predicate option"
  gb_face_in :: "face list"

record directed_relation =
  dr_incoming :: bool
  dr_pred :: relation_predicate

record order_spec =
  os_property :: string
  os_descending :: bool
  os_values :: "string list"

record graph_query =
  gq_type :: string
  gq_props :: "prop_predicate list"
  gq_inbound :: "relation_predicate option"
  gq_outbound :: "relation_predicate option"
  gq_faces :: face_selection
  gq_face_in :: "face list"
  gq_any :: "graph_branch list"
  gq_skip_unreadable :: bool
  gq_narrowing :: "prop_predicate list list"
  gq_related :: "directed_relation list"
  gq_order :: "order_spec list"
  gq_limit :: int
  gq_offset :: int

record graph_reader =
  read_entities :: "entity_query \<Rightarrow> (row_error + entity) list"
  read_relations :: "relation_query \<Rightarrow> (row_error + relation) list"

definition depth_cap :: nat where
  "depth_cap = 5"

section \<open>The shape check\<close>

definition inherits :: "relation_predicate \<Rightarrow> bool" where
  "inherits p \<longleftrightarrow> rp_through p \<noteq> [] \<or> rp_entity_through p \<noteq> []"

fun check_endpoint_shape :: "nat \<Rightarrow> relation_predicate \<Rightarrow> graph_error option" where
  "check_endpoint_shape nesting (RelationPredicate eps ts neg th d eth ed None) = None"
| "check_endpoint_shape nesting (RelationPredicate eps ts neg th d eth ed
       (Some (EndpointPredicate faces t props inb outb))) =
     (if depth_cap \<le> nesting then Some NestedTooDeep
      else first_error
        [validate_prop_predicates props,
         if sel_is_zero faces then None else map_option QueryShape (sel_validate faces),
         case inb of None \<Rightarrow> None
         | Some p \<Rightarrow> if inherits p then Some NestedInheritance else check_endpoint_shape (Suc nesting) p,
         case outb of None \<Rightarrow> None
         | Some p \<Rightarrow> if inherits p then Some NestedInheritance else check_endpoint_shape (Suc nesting) p])"

definition check_predicate :: "relation_predicate option \<Rightarrow> graph_error option" where
  "check_predicate p = (case p of None \<Rightarrow> None | Some p \<Rightarrow> check_endpoint_shape 0 p)"

definition check_query_shape :: "graph_query \<Rightarrow> graph_error option" where
  "check_query_shape q = first_error
     ([map_option QueryShape (sel_validate (gq_faces q)), validate_prop_predicates (gq_props q)] @
      map validate_prop_predicates (gq_narrowing q) @
      [check_predicate (gq_inbound q), check_predicate (gq_outbound q)] @
      map (\<lambda>br. check_predicate (gb_inbound br)) (gq_any q) @
      map (\<lambda>rel. check_endpoint_shape 0 (dr_pred rel)) (gq_related q))"

section \<open>Conjunctions and scans that stop at an error\<close>

definition both :: "'e + bool \<Rightarrow> 'e + bool \<Rightarrow> 'e + bool" where
  "both x y = (case x of Inl e \<Rightarrow> Inl e | Inr b \<Rightarrow> if b then y else Inr False)"

fun all_hold :: "('x \<Rightarrow> 'e + bool) \<Rightarrow> 'x list \<Rightarrow> 'e + bool" where
  "all_hold f [] = Inr True"
| "all_hold f (x # xs) = both (f x) (all_hold f xs)"

fun any_holds :: "('x \<Rightarrow> 'e + bool) \<Rightarrow> 'x list \<Rightarrow> 'e + bool" where
  "any_holds f [] = Inr False"
| "any_holds f (x # xs) = (case f x of Inl e \<Rightarrow> Inl e | Inr b \<Rightarrow> if b then Inr True else any_holds f xs)"

definition on_row :: "('x \<Rightarrow> graph_error + bool) \<Rightarrow> row_error + 'x \<Rightarrow> graph_error + bool" where
  "on_row f x = (case x of Inl e \<Rightarrow> Inl (RowError e) | Inr x \<Rightarrow> f x)"

section \<open>Property predicates\<close>

definition matches_key :: "pval \<Rightarrow> string \<Rightarrow> string \<Rightarrow> bool" where
  "matches_key raw key v =
     (case raw of
        VMap m \<Rightarrow> map_of m key = Some (VStr v)
      | VStrMap m \<Rightarrow> (case map_of m key of Some s \<Rightarrow> s = v | None \<Rightarrow> v = [])
      | _ \<Rightarrow> False)"

definition is_list_value :: "pval \<Rightarrow> bool" where
  "is_list_value v = (case v of VStrs ss \<Rightarrow> True | VList vs \<Rightarrow> True | _ \<Rightarrow> False)"

definition matches_ordered :: "pval \<Rightarrow> prop_op \<Rightarrow> string \<Rightarrow> bool" where
  "matches_ordered raw op v =
     (if prop_empty raw \<or> is_list_value raw then False
      else if op = PropGreaterEqual then v \<le> show_pval raw else show_pval raw \<le> v)"

definition prop_value :: "entity \<Rightarrow> string \<Rightarrow> pval" where
  "prop_value e name = (case dict_get (ent_props e) name of None \<Rightarrow> VNil | Some v \<Rightarrow> v)"

definition matches_prop :: "entity \<Rightarrow> prop_predicate \<Rightarrow> graph_error + bool" where
  "matches_prop e p =
     (let raw = prop_value e (pp_property p) in
      case pp_op p of
        PropKeyEqual \<Rightarrow> Inr (matches_key raw (pp_key p) (pp_value p))
      | PropEqual \<Rightarrow>
          if pp_scalar p \<and> pp_value p \<noteq> [] then Inr (raw = VStr (pp_value p))
          else Inr (decide raw OpEqual (pp_value p))
      | PropNotEqual \<Rightarrow> Inr (decide raw OpNotEqual (pp_value p))
      | PropNotEqualOrEmpty \<Rightarrow> Inr (prop_empty raw \<or> decide raw OpNotEqual (pp_value p))
      | PropGreaterEqual \<Rightarrow> Inr (matches_ordered raw (pp_op p) (pp_value p))
      | PropLessEqual \<Rightarrow> Inr (matches_ordered raw (pp_op p) (pp_value p))
      | PropUnknown n \<Rightarrow> Inl (UnknownOperator (pp_property p) (pp_op p)))"

definition matches_props :: "entity \<Rightarrow> prop_predicate list \<Rightarrow> graph_error + bool" where
  "matches_props e ps = all_hold (matches_prop e) ps"

definition matches_narrowing :: "entity \<Rightarrow> prop_predicate list list \<Rightarrow> graph_error + bool" where
  "matches_narrowing e branches =
     (if branches = [] then Inr True else any_holds (matches_props e) branches)"

section \<open>Inheritance expansion\<close>

definition edges_from :: "string \<Rightarrow> direction \<Rightarrow> face option \<Rightarrow> relation_query" where
  "edges_from i dir tail = \<lparr>rq_type = [], rq_from = [], rq_to = [], rq_entity = i, rq_direction = dir,
     rq_limit = 0, rq_cursor = [], rq_entities = None, rq_peers = None, rq_from_face = tail\<rparr>"

definition first_seen :: "string list \<Rightarrow> string list" where
  "first_seen xs = fold (\<lambda>s order. if s \<in> set order then order else order @ [s]) xs []"

fun expand_rows ::
  "string list \<Rightarrow> (row_error + relation) list \<Rightarrow> string list \<times> string list \<Rightarrow>
   graph_error + string list \<times> string list" where
  "expand_rows through [] st = Inr st"
| "expand_rows through (Inl e # rows) st = Inl (RowError e)"
| "expand_rows through (Inr r # rows) (order, next) =
     (if rel_type r \<notin> set through \<or> rel_to r \<in> set order then expand_rows through rows (order, next)
      else expand_rows through rows (order @ [rel_to r], next @ [rel_to r]))"

fun expand_frontier ::
  "graph_reader \<Rightarrow> string list \<Rightarrow> string list \<Rightarrow> string list \<times> string list \<Rightarrow>
   graph_error + string list \<times> string list" where
  "expand_frontier r through [] st = Inr st"
| "expand_frontier r through (n # ns) st =
     (case expand_rows through (read_relations r (edges_from n DirectionOutgoing (Some []))) st of
        Inl e \<Rightarrow> Inl e
      | Inr st' \<Rightarrow> expand_frontier r through ns st')"

fun expand_loop ::
  "graph_reader \<Rightarrow> string list \<Rightarrow> nat \<Rightarrow> string list \<Rightarrow> string list \<Rightarrow> graph_error + string list" where
  "expand_loop r through 0 order frontier = Inr order"
| "expand_loop r through (Suc d) order frontier =
     (if frontier = [] then Inr order
      else case expand_frontier r through frontier (order, []) of
          Inl e \<Rightarrow> Inl e
        | Inr (order', next) \<Rightarrow> expand_loop r through d order' next)"

definition expand_set ::
  "graph_reader \<Rightarrow> string list \<Rightarrow> string list \<Rightarrow> int \<Rightarrow> graph_error + string list" where
  "expand_set r seeds through depth =
     (if seeds = [] then Inr []
      else if through = [] \<or> depth \<le> 0 then Inr (first_seen seeds)
      else expand_loop r through (nat (min depth (int depth_cap))) (first_seen seeds) (first_seen seeds))"

section \<open>Relation predicates\<close>

definition far_end :: "direction \<Rightarrow> relation \<Rightarrow> string" where
  "far_end dir r = (if dir = DirectionIncoming then rel_from r else rel_to r)"

definition has_matching_relation ::
  "graph_reader \<Rightarrow> string list \<Rightarrow> direction \<Rightarrow> string list \<Rightarrow> string list \<Rightarrow> bool \<Rightarrow>
   (string \<Rightarrow> graph_error + bool) option \<Rightarrow> graph_error + bool" where
  "has_matching_relation r candidates dir types endpoints anyEndpoint match =
     any_holds (\<lambda>c. any_holds (on_row (\<lambda>rel.
         if types \<noteq> [] \<and> rel_type rel \<notin> set types then Inr False
         else if \<not> anyEndpoint \<and> far_end dir rel \<notin> set endpoints then Inr False
         else case match of None \<Rightarrow> Inr True | Some m \<Rightarrow> m (far_end dir rel)))
       (read_relations r (edges_from c dir (case match of None \<Rightarrow> None | Some m \<Rightarrow> Some []))))
     candidates"

text \<open>The predicate for one entity id, and the rows of an endpoint; \<open>nesting\<close> counts the hops written.\<close>

function matches_predicate_at ::
  "graph_reader \<Rightarrow> relation_predicate \<Rightarrow> direction \<Rightarrow> face_selection \<Rightarrow> nat \<Rightarrow> string \<Rightarrow> graph_error + bool"
and matches_endpoint ::
  "graph_reader \<Rightarrow> endpoint_predicate \<Rightarrow> face_selection \<Rightarrow> nat \<Rightarrow> string \<Rightarrow> graph_error + bool" where
  "matches_predicate_at r (RelationPredicate eps ts neg th d eth ed mt) dir sel nesting i =
     (case expand_set r eps th d of Inl e \<Rightarrow> Inl e | Inr endpoints \<Rightarrow>
      case expand_set r [i] eth ed of Inl e \<Rightarrow> Inl e | Inr candidates \<Rightarrow>
      map_sum id (\<lambda>found. if neg then \<not> found else found)
        (has_matching_relation r candidates dir ts endpoints (eps = [])
          (case mt of None \<Rightarrow> None | Some m \<Rightarrow> Some (\<lambda>j. matches_endpoint r m sel nesting j))))"
| "matches_endpoint r (EndpointPredicate faces t props inb outb) sel nesting j =
     (if depth_cap \<le> nesting then Inl NestedTooDeep
      else if (case inb of None \<Rightarrow> False | Some p \<Rightarrow> inherits p) \<or> (case outb of None \<Rightarrow> False | Some p \<Rightarrow> inherits p)
      then Inl NestedInheritance
      else
        let sel' = (if sel_is_zero faces then sel else faces) in
        any_holds (on_row (\<lambda>row.
            both (matches_props row props)
              (both (case inb of None \<Rightarrow> Inr True
                     | Some p \<Rightarrow> matches_predicate_at r p DirectionIncoming sel' (Suc nesting) (ent_id row))
                    (case outb of None \<Rightarrow> Inr True
                     | Some p \<Rightarrow> matches_predicate_at r p DirectionOutgoing sel' (Suc nesting) (ent_id row)))))
          (read_entities r \<lparr>eq_type = t, eq_ids = [j], eq_limit = 0, eq_cursor = [], eq_faces = sel', eq_face_in = []\<rparr>))"
  by pat_completeness auto
termination by (relation "measure (\<lambda>x. case x of Inl (r, p, _) \<Rightarrow> size p | Inr (r, m, _) \<Rightarrow> size m)") auto

definition matches_predicate ::
  "graph_reader \<Rightarrow> string \<Rightarrow> direction \<Rightarrow> face_selection \<Rightarrow> relation_predicate \<Rightarrow> graph_error + bool" where
  "matches_predicate r i dir sel p = matches_predicate_at r p dir sel 0 i"

definition optional_predicate ::
  "graph_reader \<Rightarrow> string \<Rightarrow> direction \<Rightarrow> face_selection \<Rightarrow> relation_predicate option \<Rightarrow> graph_error + bool" where
  "optional_predicate r i dir sel p =
     (case p of None \<Rightarrow> Inr True | Some p \<Rightarrow> matches_predicate r i dir sel p)"

definition branch_faces :: "graph_branch \<Rightarrow> face \<Rightarrow> bool" where
  "branch_faces br f \<longleftrightarrow> gb_face_in br = [] \<or> f \<in> set (gb_face_in br)"

definition matches_any :: "graph_reader \<Rightarrow> entity \<Rightarrow> graph_branch list \<Rightarrow> face_selection \<Rightarrow> graph_error + bool" where
  "matches_any r e branches sel = any_holds (\<lambda>br.
     if \<not> branch_faces br (ent_face e) then Inr False
     else optional_predicate r (ent_id e) DirectionIncoming sel (gb_inbound br)) branches"

definition related_direction :: "directed_relation \<Rightarrow> direction" where
  "related_direction rel = (if dr_incoming rel then DirectionIncoming else DirectionOutgoing)"

definition matches :: "graph_reader \<Rightarrow> entity \<Rightarrow> graph_query \<Rightarrow> graph_error + bool" where
  "matches r e q =
     both (matches_props e (gq_props q))
    (both (matches_narrowing e (gq_narrowing q))
    (both (optional_predicate r (ent_id e) DirectionIncoming (gq_faces q) (gq_inbound q))
    (both (optional_predicate r (ent_id e) DirectionOutgoing (gq_faces q) (gq_outbound q))
    (both (all_hold (\<lambda>rel. matches_predicate r (ent_id e) (related_direction rel) (gq_faces q) (dr_pred rel))
             (gq_related q))
    (if gq_any q \<noteq> [] then matches_any r e (gq_any q) (gq_faces q) else Inr True)))))"

section \<open>Candidates\<close>

definition candidate_query :: "graph_query \<Rightarrow> face_selection \<Rightarrow> entity_query" where
  "candidate_query q sel = \<lparr>eq_type = gq_type q, eq_ids = [], eq_limit = 0, eq_cursor = [],
     eq_faces = sel, eq_face_in = gq_face_in q\<rparr>"

definition skip_unreadable :: "graph_query \<Rightarrow> row_error \<Rightarrow> bool" where
  "skip_unreadable q e \<longleftrightarrow> gq_skip_unreadable q \<and> e = ConflictedRow"

fun collect_rows :: "graph_query \<Rightarrow> (row_error + entity) list \<Rightarrow> graph_error + entity list" where
  "collect_rows q [] = Inr []"
| "collect_rows q (Inl e # rows) = (if skip_unreadable q e then collect_rows q rows else Inl (RowError e))"
| "collect_rows q (Inr x # rows) = map_sum id (\<lambda>xs. x # xs) (collect_rows q rows)"

text \<open>\<open>branchRelationHolds\<close>: the relation half of every branch.\<close>

fun branch_relation_holds ::
  "graph_reader \<Rightarrow> string \<Rightarrow> face_selection \<Rightarrow> graph_branch list \<Rightarrow> graph_error + bool list" where
  "branch_relation_holds r i sel [] = Inr []"
| "branch_relation_holds r i sel (br # brs) =
     (case optional_predicate r i DirectionIncoming sel (gb_inbound br) of
        Inl e \<Rightarrow> Inl e
      | Inr b \<Rightarrow> map_sum id (\<lambda>bs. b # bs) (branch_relation_holds r i sel brs))"

definition eligible :: "bool list \<Rightarrow> graph_branch list \<Rightarrow> face \<Rightarrow> bool" where
  "eligible holds branches f = list_ex (\<lambda>(h, br). h \<and> branch_faces br f) (zip holds branches)"

text \<open>The scan of \<open>collectBranchPrimes\<close>: the verdicts per id, then the rows kept.\<close>

fun branch_rows ::
  "graph_reader \<Rightarrow> graph_query \<Rightarrow> (row_error + entity) list \<Rightarrow> bool list dict \<Rightarrow> graph_error + entity list" where
  "branch_rows r q [] cache = Inr []"
| "branch_rows r q (Inl e # rows) cache =
     (if skip_unreadable q e then branch_rows r q rows cache else Inl (RowError e))"
| "branch_rows r q (Inr x # rows) cache =
     (case (case dict_get cache (ent_id x) of Some holds \<Rightarrow> Inr holds
            | None \<Rightarrow> branch_relation_holds r (ent_id x) (gq_faces q) (gq_any q)) of
        Inl e \<Rightarrow> Inl e
      | Inr holds \<Rightarrow>
          (let cache' = dict_set (ent_id x) holds cache in
           if eligible holds (gq_any q) (ent_face x)
           then map_sum id (\<lambda>xs. x # xs) (branch_rows r q rows cache')
           else branch_rows r q rows cache'))"

definition row_candidate :: "entity \<Rightarrow> world_candidate" where
  "row_candidate e = \<lparr>wc_id = ent_id e, wc_type = ent_type e, wc_face = ent_face e\<rparr>"

definition tagged_key :: "string \<Rightarrow> face \<Rightarrow> string" where
  "tagged_key i p = i @ ''@'' @ p"

definition rows_of_primes :: "world_scope \<Rightarrow> entity list \<Rightarrow> entity list" where
  "rows_of_primes w kept =
     (let rows = fold (\<lambda>e d. dict_set (tagged_key (ent_id e) (ent_face e)) e d) kept [] in
      sort_key ent_id (concat (map (\<lambda>(i, res).
          case dict_get rows (tagged_key i (wr_face res)) of None \<Rightarrow> [] | Some e \<Rightarrow> [e])
        (resolve_world_primes w (map row_candidate kept)))))"

definition collect_by_type :: "graph_reader \<Rightarrow> graph_query \<Rightarrow> graph_error + entity list" where
  "collect_by_type r q =
     (case sel_world (gq_faces q) of
        Some w \<Rightarrow>
          if gq_any q \<noteq> [] \<and> \<not> ws_is_trivial w
          then map_sum id (rows_of_primes w)
                 (branch_rows r q (read_entities r (candidate_query q all_faces)) [])
          else collect_rows q (read_entities r (candidate_query q (gq_faces q)))
      | None \<Rightarrow> collect_rows q (read_entities r (candidate_query q (gq_faces q))))"

section \<open>Order and pages\<close>

definition sort_value :: "entity \<Rightarrow> string \<Rightarrow> string option" where
  "sort_value e property =
     (case dict_get (ent_props e) property of
        None \<Rightarrow> None | Some v \<Rightarrow> if v = VNil then None else Some (show_pval v))"

definition compare_order_values :: "string \<Rightarrow> string \<Rightarrow> string list \<Rightarrow> int" where
  "compare_order_values a b values =
     (if values = [] then str_compare a b
      else case (index_of values a, index_of values b) of
          (Some ia, Some ib) \<Rightarrow> if ia < ib then -1 else if ib < ia then 1 else 0
        | (Some ia, None) \<Rightarrow> -1
        | (None, Some ib) \<Rightarrow> 1
        | (None, None) \<Rightarrow> str_compare a b)"

fun order_less :: "order_spec list \<Rightarrow> entity \<Rightarrow> entity \<Rightarrow> bool" where
  "order_less [] x y \<longleftrightarrow> ent_id x < ent_id y"
| "order_less (spec # specs) x y =
     (case (sort_value x (os_property spec), sort_value y (os_property spec)) of
        (Some s, Some t) \<Rightarrow>
          (let c = compare_order_values s t (os_values spec) in
           if c = 0 then order_less specs x y else if os_descending spec then c > 0 else c < 0)
      | (Some s, None) \<Rightarrow> \<not> os_descending spec
      | (None, Some t) \<Rightarrow> os_descending spec
      | (None, None) \<Rightarrow> order_less specs x y)"

text \<open>\<open>sort.SliceStable\<close> as insertion; any stable sort by a strict weak order gives the same list.\<close>

fun insert_by :: "('a \<Rightarrow> 'a \<Rightarrow> bool) \<Rightarrow> 'a \<Rightarrow> 'a list \<Rightarrow> 'a list" where
  "insert_by before x [] = [x]"
| "insert_by before x (y # ys) = (if before y x then y # insert_by before x ys else x # y # ys)"

definition stable_sort :: "('a \<Rightarrow> 'a \<Rightarrow> bool) \<Rightarrow> 'a list \<Rightarrow> 'a list" where
  "stable_sort before xs = foldr (insert_by before) xs []"

definition order_rows :: "entity list \<Rightarrow> order_spec list \<Rightarrow> entity list" where
  "order_rows rows specs = (if specs = [] then rows else stable_sort (order_less specs) rows)"

text \<open>The window; \<open>None\<close> is the panic of a slice whose end is before its start.\<close>

definition page_rows :: "'a list \<Rightarrow> int \<Rightarrow> int \<Rightarrow> 'a list option" where
  "page_rows rows offset0 limit =
     (let offset = max offset0 0; n = int (length rows) in
      if n \<le> offset then Some []
      else
        let end = (if 0 < limit \<and> wrap64 (offset + limit) < n then wrap64 (offset + limit) else n) in
        if end < offset then None else Some (take (nat (end - offset)) (drop (nat offset) rows)))"

section \<open>Running a query\<close>

definition judge_row :: "graph_reader \<Rightarrow> graph_query \<Rightarrow> entity \<Rightarrow> (graph_error + entity) list" where
  "judge_row r q e = (case matches r e q of Inl err \<Rightarrow> [Inl err] | Inr b \<Rightarrow> if b then [Inr e] else [])"

definition is_paged :: "graph_query \<Rightarrow> bool" where
  "is_paged q \<longleftrightarrow> gq_order q \<noteq> [] \<or> 0 < gq_limit q \<or> 0 < gq_offset q"

definition is_row :: "'e + 'a \<Rightarrow> bool" where
  "is_row x = (case x of Inl e \<Rightarrow> False | Inr a \<Rightarrow> True)"

definition run_query :: "graph_reader \<Rightarrow> graph_query \<Rightarrow> (graph_error + entity) list option" where
  "run_query r q =
     (case check_query_shape q of Some err \<Rightarrow> Some [Inl err] | None \<Rightarrow>
      case collect_by_type r q of Inl err \<Rightarrow> Some [Inl err] | Inr candidates \<Rightarrow>
      let judged = concat (map (judge_row r q) candidates) in
      if \<not> is_paged q then Some judged
      else map_option (\<lambda>rows. filter (\<lambda>x. \<not> is_row x) judged @ map Inr rows)
        (page_rows (order_rows (map projr (filter is_row judged)) (gq_order q)) (gq_offset q) (gq_limit q)))"

fun count_matches :: "graph_reader \<Rightarrow> graph_query \<Rightarrow> entity list \<Rightarrow> nat \<Rightarrow> graph_error + nat" where
  "count_matches r q [] n = Inr n"
| "count_matches r q (e # es) n =
     (case matches r e q of Inl err \<Rightarrow> Inl err | Inr b \<Rightarrow> count_matches r q es (if b then Suc n else n))"

definition count_query :: "graph_reader \<Rightarrow> graph_query \<Rightarrow> graph_error + nat \<times> nat" where
  "count_query r q =
     (case check_query_shape q of Some err \<Rightarrow> Inl err | None \<Rightarrow>
      case collect_by_type r q of Inl err \<Rightarrow> Inl err | Inr candidates \<Rightarrow>
      map_sum id (\<lambda>n. (n, length candidates)) (count_matches r q candidates 0))"

definition sorted_faces_of :: "face list \<Rightarrow> face list" where
  "sorted_faces_of fs = remdups_adj (sort fs)"

fun matching_rows ::
  "graph_reader \<Rightarrow> graph_query \<Rightarrow> string list \<Rightarrow> entity list \<Rightarrow> face list dict \<Rightarrow> graph_error + face list dict" where
  "matching_rows r q ids [] out = Inr out"
| "matching_rows r q ids (e # es) out =
     (if ent_id e \<notin> set ids then matching_rows r q ids es out
      else case matches r e q of
          Inl err \<Rightarrow> Inl err
        | Inr b \<Rightarrow>
            if b then matching_rows r q ids es (dict_set (ent_id e)
                   ((case dict_get out (ent_id e) of None \<Rightarrow> [] | Some fs \<Rightarrow> fs) @ [ent_face e]) out)
            else matching_rows r q ids es out)"

definition matching_faces :: "graph_reader \<Rightarrow> graph_query \<Rightarrow> string list \<Rightarrow> graph_error + face list dict" where
  "matching_faces r q ids =
     (case check_query_shape q of Some err \<Rightarrow> Inl err | None \<Rightarrow>
      if ids = [] then Inr []
      else case collect_by_type r q of Inl err \<Rightarrow> Inl err | Inr candidates \<Rightarrow>
        map_sum id (map (\<lambda>(i, fs). (i, sorted_faces_of fs))) (matching_rows r q ids candidates []))"

definition matching_ids :: "graph_reader \<Rightarrow> graph_query \<Rightarrow> string list \<Rightarrow> graph_error + (string \<times> bool) list" where
  "matching_ids r q ids =
     map_sum id (\<lambda>faces. map (\<lambda>i. (i, case dict_get faces i of None \<Rightarrow> False | Some fs \<Rightarrow> fs \<noteq> [])) ids)
       (matching_faces r q ids)"

end
