(* ===== verification/Graph_Spec.thy ===== *)
theory Graph_Spec
  imports Graph_Query
begin

text \<open>
  What graph queries guarantee. The interface is the locale \<open>graph_source\<close>: a state whose two
  iterators yield no errors. Over it, a query that passes the shape check never fails half way, the
  inheritance expansion is exactly bounded reachability, counting and matching agree with running,
  a caller's conditions only narrow, and a branch of the access ceiling holds for every row.
\<close>

section \<open>The reader's promise\<close>

definition clean_reader :: "graph_reader \<Rightarrow> bool" where
  "clean_reader r \<longleftrightarrow> (\<forall>q. \<exists>rs. read_relations r q = map Inr rs) \<and>
     (\<forall>q. sel_validate (eq_faces q) = None \<longrightarrow> (\<exists>es. read_entities r q = map Inr es))"

lemma clean_relations: "clean_reader r \<Longrightarrow> \<exists>rs. read_relations r q = map Inr rs"
  by (simp add: clean_reader_def)

lemma clean_entities:
  "clean_reader r \<Longrightarrow> sel_validate (eq_faces q) = None \<Longrightarrow> \<exists>es. read_entities r q = map Inr es"
  by (simp add: clean_reader_def)

text \<open>A verdict that is not an error.\<close>

definition decided :: "'e + 'a \<Rightarrow> bool" where
  "decided x = (\<exists>a. x = Inr a)"

lemma decided_simps [simp]: "decided (Inr a)" "\<not> decided (Inl e)"
  by (auto simp: decided_def)

lemma decided_both: "decided x \<Longrightarrow> (x = Inr True \<Longrightarrow> decided y) \<Longrightarrow> decided (both x y)"
  by (auto simp: decided_def both_def split: if_splits)

lemma decided_all: "\<forall>x\<in>set xs. decided (f x) \<Longrightarrow> decided (all_hold f xs)"
  by (induction xs) (auto intro: decided_both)

lemma decided_any: "\<forall>x\<in>set xs. decided (f x) \<Longrightarrow> decided (any_holds f xs)"
  by (induction xs) (auto simp: decided_def split: if_splits)

lemma decided_map [simp]: "decided (map_sum f g x) \<longleftrightarrow> decided x"
  by (cases x) simp_all

lemma both_True [simp]: "both x y = Inr True \<longleftrightarrow> x = Inr True \<and> y = Inr True"
  by (auto simp: both_def split: sum.splits if_splits)

lemma all_hold_True: "all_hold f xs = Inr True \<longleftrightarrow> (\<forall>x\<in>set xs. f x = Inr True)"
  by (induction xs) auto

lemma any_holds_True: "\<forall>x\<in>set xs. decided (f x) \<Longrightarrow> any_holds f xs = Inr True \<longleftrightarrow> (\<exists>x\<in>set xs. f x = Inr True)"
  by (induction xs) (auto simp: decided_def split: if_splits sum.splits)

lemma any_holds_TrueD: "any_holds f xs = Inr True \<Longrightarrow> \<exists>x\<in>set xs. f x = Inr True"
  by (induction xs) (auto split: if_splits sum.splits)

section \<open>Inheritance expansion is bounded reachability\<close>

text \<open>The identity edges of the given types, as the reader yields them.\<close>

definition through_edges :: "graph_reader \<Rightarrow> string list \<Rightarrow> (string \<times> string) set" where
  "through_edges r through = {(i, j). \<exists>rel. Inr rel \<in> set (read_relations r (edges_from i DirectionOutgoing (Some []))) \<and>
     rel_type rel \<in> set through \<and> rel_to rel = j}"

lemma first_seen_fold:
  "distinct order \<Longrightarrow> distinct (fold (\<lambda>s order. if s \<in> set order then order else order @ [s]) xs order) \<and>
   set (fold (\<lambda>s order. if s \<in> set order then order else order @ [s]) xs order) = set order \<union> set xs"
  by (induction xs arbitrary: order) auto

lemma first_seen_set [simp]: "set (first_seen xs) = set xs" and first_seen_distinct [simp]: "distinct (first_seen xs)"
  using first_seen_fold [of "[]" xs] by (simp_all add: first_seen_def)

lemma expand_rows_ok:
  assumes "distinct order" and "set next \<subseteq> set order"
  shows "\<exists>order' next'. expand_rows through (map Inr rs) (order, next) = Inr (order', next') \<and> distinct order' \<and>
    (let new = {rel_to r | r. r \<in> set rs \<and> rel_type r \<in> set through} - set order
     in set order' = set order \<union> new \<and> set next' = set next \<union> new)"
  using assms
proof (induction rs arbitrary: order "next")
  case (Cons r rs)
  show ?case
  proof (cases "rel_type r \<notin> set through \<or> rel_to r \<in> set order")
    case True
    then show ?thesis using Cons.IH [OF Cons.prems] by (auto simp: Let_def)
  next
    case False
    have "distinct (order @ [rel_to r])" "set (next @ [rel_to r]) \<subseteq> set (order @ [rel_to r])"
      using False Cons.prems by auto
    from Cons.IH [OF this] False show ?thesis by (fastforce simp: Let_def)
  qed
qed simp

lemma expand_frontier_ok:
  assumes "clean_reader r" and "distinct order" and "set next \<subseteq> set order"
  shows "\<exists>order' next'. expand_frontier r through ns (order, next) = Inr (order', next') \<and> distinct order' \<and>
    (let new = through_edges r through `` set ns - set order
     in set order' = set order \<union> new \<and> set next' = set next \<union> new)"
  using assms(2,3)
proof (induction ns arbitrary: order "next")
  case (Cons n ns)
  obtain rs where rs: "read_relations r (edges_from n DirectionOutgoing (Some [])) = map Inr rs"
    using clean_relations [OF assms(1)] by blast
  have e: "{rel_to q | q. q \<in> set rs \<and> rel_type q \<in> set through} = through_edges r through `` {n}"
    by (auto simp: through_edges_def rs)
  from expand_rows_ok [OF Cons.prems, of through rs, unfolded e] obtain order1 next1 where
    1: "expand_rows through (map Inr rs) (order, next) = Inr (order1, next1)" "distinct order1"
      "set order1 = set order \<union> (through_edges r through `` {n} - set order)"
      "set next1 = set next \<union> (through_edges r through `` {n} - set order)"
    by (auto simp: Let_def)
  have "set next1 \<subseteq> set order1" using 1 Cons.prems by auto
  from Cons.IH [OF 1(2) this] obtain order2 next2 where
    2: "expand_frontier r through ns (order1, next1) = Inr (order2, next2)" "distinct order2"
      "set order2 = set order1 \<union> (through_edges r through `` set ns - set order1)"
      "set next2 = set next1 \<union> (through_edges r through `` set ns - set order1)"
    by (auto simp: Let_def)
  have "expand_frontier r through (n # ns) (order, next) = Inr (order2, next2)" using 1(1) 2(1) by (simp add: rs)
  moreover have "through_edges r through `` set (n # ns)
      = through_edges r through `` {n} \<union> through_edges r through `` set ns" by auto
  ultimately show ?case using 1(3,4) 2(2,3,4) by (auto simp: Let_def)
qed simp

text \<open>What a set of nodes reaches in at most \<open>d\<close> steps.\<close>

definition reach_within :: "('a \<times> 'a) set \<Rightarrow> nat \<Rightarrow> 'a set \<Rightarrow> 'a set" where
  "reach_within E d S = {j. \<exists>i\<in>S. \<exists>n\<le>d. (i, j) \<in> E ^^ n}"

lemma reach_within_0: "reach_within E 0 S = S"
  by (auto simp: reach_within_def)

lemma reach_within_self: "S \<subseteq> reach_within E d S"
  unfolding reach_within_def by (auto intro!: bexI exI [of _ 0])

lemma reach_within_Suc: "reach_within E (Suc d) S = S \<union> reach_within E d (E `` S)"
proof -
  have step: "(\<exists>n\<le>Suc d. (i, j) \<in> E ^^ n) \<longleftrightarrow> i = j \<or> (\<exists>k. (i, k) \<in> E \<and> (\<exists>n\<le>d. (k, j) \<in> E ^^ n))" for i j
  proof
    assume "\<exists>n\<le>Suc d. (i, j) \<in> E ^^ n"
    then obtain n where n: "n \<le> Suc d" "(i, j) \<in> E ^^ n" by blast
    show "i = j \<or> (\<exists>k. (i, k) \<in> E \<and> (\<exists>n\<le>d. (k, j) \<in> E ^^ n))"
    proof (cases n)
      case (Suc m)
      then obtain k where "(i, k) \<in> E" "(k, j) \<in> E ^^ m" using n(2) by (meson relpow_Suc_D2)
      with n(1) Suc show ?thesis by auto
    qed (use n(2) in simp)
  next
    assume "i = j \<or> (\<exists>k. (i, k) \<in> E \<and> (\<exists>n\<le>d. (k, j) \<in> E ^^ n))"
    then show "\<exists>n\<le>Suc d. (i, j) \<in> E ^^ n"
    proof
      assume "i = j"
      then show ?thesis by (intro exI [of _ 0]) simp
    next
      assume "\<exists>k. (i, k) \<in> E \<and> (\<exists>n\<le>d. (k, j) \<in> E ^^ n)"
      then obtain k n where "(i, k) \<in> E" "n \<le> d" "(k, j) \<in> E ^^ n" by blast
      then show ?thesis using relpow_Suc_I2 by fastforce
    qed
  qed
  show ?thesis unfolding reach_within_def step by auto
qed

text \<open>From a set closed except at its frontier, only paths through the frontier leave it.\<close>

lemma reach_frontier:
  assumes "\<forall>x\<in>S - F. E `` {x} \<subseteq> S"
  shows "x \<in> S \<Longrightarrow> (x, j) \<in> E ^^ n \<Longrightarrow> n \<le> d \<Longrightarrow> j \<in> S \<union> reach_within E d F"
proof (induction n arbitrary: x)
  case (Suc n)
  show ?case
  proof (cases "x \<in> F")
    case True
    then show ?thesis using Suc.prems unfolding reach_within_def by blast
  next
    case False
    obtain y where "(x, y) \<in> E" "(y, j) \<in> E ^^ n" using Suc.prems(2) by (meson relpow_Suc_D2)
    with False Suc show ?thesis using assms by auto
  qed
qed simp

text \<open>One level of a walk: the frontier moves on and the nodes seen stay closed behind it.\<close>

lemma reach_step:
  assumes "F \<subseteq> S" and "\<forall>x\<in>S - F. E `` {x} \<subseteq> S"
    and S': "S' = S \<union> (E `` F - S)" and F': "F' = E `` F - S"
  shows "F' \<subseteq> S'" and "\<forall>x\<in>S' - F'. E `` {x} \<subseteq> S'"
    and "S' \<union> reach_within E d F' = S \<union> reach_within E (Suc d) F"
proof -
  show closed: "\<forall>x\<in>S' - F'. E `` {x} \<subseteq> S'" using assms by auto
  show "F' \<subseteq> S'" using S' F' by auto
  have "reach_within E d F' \<subseteq> reach_within E d (E `` F)" using F' by (auto simp: reach_within_def)
  moreover have "reach_within E d (E `` F) \<subseteq> S' \<union> reach_within E d F'"
  proof
    fix j
    assume "j \<in> reach_within E d (E `` F)"
    then obtain x n where x: "x \<in> E `` F" "n \<le> d" "(x, j) \<in> E ^^ n" by (auto simp: reach_within_def)
    then have "x \<in> S'" unfolding S' by blast
    from reach_frontier [OF closed this x(3,2)] show "j \<in> S' \<union> reach_within E d F'" .
  qed
  ultimately show "S' \<union> reach_within E d F' = S \<union> reach_within E (Suc d) F"
    unfolding reach_within_Suc using reach_within_self [of "E `` F" E d] assms(1) S' by auto
qed

lemma expand_loop_ok:
  fixes through :: "string list"
  assumes c: "clean_reader r"
  defines "E \<equiv> through_edges r through"
  shows "distinct order \<Longrightarrow> set frontier \<subseteq> set order \<Longrightarrow>
    \<forall>x\<in>set order - set frontier. E `` {x} \<subseteq> set order \<Longrightarrow>
    \<exists>out. expand_loop r through d order frontier = Inr out \<and> distinct out \<and>
      set out = set order \<union> reach_within E d (set frontier)"
proof (induction d arbitrary: order frontier)
  case 0
  then show ?case by (auto simp: reach_within_0)
next
  case (Suc d)
  show ?case
  proof (cases "frontier = []")
    case True
    then show ?thesis using Suc.prems by (simp add: reach_within_def)
  next
    case False
    from expand_frontier_ok [OF c Suc.prems(1), of "[]" through frontier, folded E_def] obtain order' next' where
      1: "expand_frontier r through frontier (order, []) = Inr (order', next')" "distinct order'"
        "set order' = set order \<union> (E `` set frontier - set order)" "set next' = E `` set frontier - set order"
      by (auto simp: Let_def)
    note step = reach_step [OF Suc.prems(2,3) 1(3,4)]
    from Suc.IH [OF 1(2) step(1,2)] 1(1) False step(3) show ?thesis by auto
  qed
qed

lemma expand_set_ok:
  assumes "clean_reader r"
  shows "\<exists>out. expand_set r seeds through depth = Inr out \<and> distinct out \<and>
    set out = reach_within (through_edges r through) (nat (min depth (int depth_cap))) (set seeds)"
proof -
  have none: "reach_within {} d S = S" for d and S :: "string set"
    by (cases d) (simp_all add: reach_within_0 reach_within_Suc, simp add: reach_within_def)
  consider "seeds = []" | "seeds \<noteq> []" "through = [] \<or> depth \<le> 0" | "seeds \<noteq> []" "through \<noteq> []" "0 < depth"
    by force
  then show ?thesis
  proof cases
    case 1
    then show ?thesis by (simp add: expand_set_def reach_within_def)
  next
    case 2
    then have "reach_within (through_edges r through) (nat (min depth (int depth_cap))) (set seeds) = set seeds"
    proof (cases "through = []")
      case True
      then have "through_edges r through = {}" by (auto simp: through_edges_def)
      then show ?thesis by (simp add: none)
    next
      case False
      with 2 have "nat (min depth (int depth_cap)) = 0" by simp
      then show ?thesis by (simp only: reach_within_0)
    qed
    with 2 show ?thesis by (auto simp: expand_set_def)
  next
    case 3
    let ?d = "nat (min depth (int depth_cap))" and ?E = "through_edges r through"
    from expand_loop_ok [OF assms, of "first_seen seeds" "first_seen seeds" through ?d] obtain out where
      "expand_loop r through ?d (first_seen seeds) (first_seen seeds) = Inr out" "distinct out"
      "set out = set seeds \<union> reach_within ?E ?d (set seeds)"
      by auto
    moreover have "set seeds \<subseteq> reach_within ?E ?d (set seeds)" by (rule reach_within_self)
    ultimately show ?thesis using 3 by (auto simp: expand_set_def)
  qed
qed

section \<open>A checked query does not fail\<close>

lemma decided_prop: "validate_prop_predicate p = None \<Longrightarrow> decided (matches_prop e p)"
  by (cases "pp_op p") (auto simp: validate_prop_predicate_def matches_prop_def Let_def)

lemma decided_props: "validate_prop_predicates ps = None \<Longrightarrow> decided (matches_props e ps)"
  unfolding matches_props_def validate_prop_predicates_def first_error_None
  by (intro decided_all ballI decided_prop) auto

lemma decided_narrowing:
  "\<forall>ps\<in>set brs. validate_prop_predicates ps = None \<Longrightarrow> decided (matches_narrowing e brs)"
  by (auto simp: matches_narrowing_def intro: decided_any decided_props)

definition endpoint_ok :: "nat \<Rightarrow> endpoint_predicate \<Rightarrow> bool" where
  "endpoint_ok n m \<longleftrightarrow> check_endpoint_shape n (RelationPredicate [] [] False [] 0 [] 0 (Some m)) = None"

lemma endpoint_ok_iff:
  "endpoint_ok n (EndpointPredicate faces t props inb outb) \<longleftrightarrow>
     n < depth_cap \<and> validate_prop_predicates props = None \<and>
     (sel_is_zero faces \<or> sel_validate faces = None) \<and>
     (\<forall>p. inb = Some p \<or> outb = Some p \<longrightarrow> \<not> inherits p \<and> check_endpoint_shape (Suc n) p = None)"
  by (auto simp: endpoint_ok_def first_error_None split: option.splits if_splits)

lemma check_shape_match:
  "check_endpoint_shape n (RelationPredicate eps ts neg th d eth ed (Some m)) = None \<longleftrightarrow> endpoint_ok n m"
  by (cases m) (simp add: endpoint_ok_def)

lemma decided_on_rows:
  "rows = map Inr xs \<Longrightarrow> \<forall>x\<in>set xs. decided (f x) \<Longrightarrow> decided (any_holds (on_row f) rows)"
  by (intro decided_any) (auto simp: on_row_def)

lemma decided_relation:
  assumes "clean_reader r" and "\<And>m j. match = Some m \<Longrightarrow> decided (m j)"
  shows "decided (has_matching_relation r cs dir ts eps any match)"
proof -
  have "decided (any_holds (on_row (\<lambda>rel.
         if ts \<noteq> [] \<and> rel_type rel \<notin> set ts then Inr False
         else if \<not> any \<and> far_end dir rel \<notin> set eps then Inr False
         else case match of None \<Rightarrow> Inr True | Some m \<Rightarrow> m (far_end dir rel))) (read_relations r q))" for q
  proof -
    obtain rs where "read_relations r q = map Inr rs" using clean_relations [OF assms(1)] by blast
    then show ?thesis
      by (rule decided_on_rows) (auto split: option.split intro: assms(2))
  qed
  then show ?thesis unfolding has_matching_relation_def by (rule decided_any [OF ballI])
qed

lemma decided_predicate:
  "clean_reader r \<Longrightarrow> sel_validate sel = None \<Longrightarrow> check_endpoint_shape n p = None \<Longrightarrow>
     decided (matches_predicate_at r p dir sel n i)"
  "clean_reader r \<Longrightarrow> sel_validate sel = None \<Longrightarrow> endpoint_ok n m \<Longrightarrow> decided (matches_endpoint r m sel n j)"
proof (induction r p dir sel n i and r m sel n j rule: matches_predicate_at_matches_endpoint.induct)
  case (1 r eps ts neg th d eth ed mt dir sel nesting i)
  obtain out1 out2 where "expand_set r eps th d = Inr out1" "expand_set r [i] eth ed = Inr out2"
    using expand_set_ok [OF 1(2)] by meson
  moreover have "decided (has_matching_relation r out2 dir ts out1 (eps = [])
      (case mt of None \<Rightarrow> None | Some m \<Rightarrow> Some (\<lambda>j. matches_endpoint r m sel nesting j)))"
    using 1 calculation by (intro decided_relation) (auto simp: check_shape_match split: option.splits)
  ultimately show ?case by simp
next
  case (2 r faces t props inb outb sel nesting j)
  let ?sel = "if sel_is_zero faces then sel else faces"
  note ok = 2(5) [unfolded endpoint_ok_iff]
  have v: "sel_validate ?sel = None" using 2(4) ok by auto
  then obtain es where es: "read_entities r \<lparr>eq_type = t, eq_ids = [j], eq_limit = 0, eq_cursor = [],
      eq_faces = ?sel, eq_face_in = []\<rparr> = map Inr es"
    using clean_entities [OF 2(3)] by fastforce
  have g: "\<not> depth_cap \<le> nesting"
    "\<not> ((case inb of None \<Rightarrow> False | Some p \<Rightarrow> inherits p) \<or> (case outb of None \<Rightarrow> False | Some p \<Rightarrow> inherits p))"
    using ok by (auto split: option.splits)
  have i: "decided (case inb of None \<Rightarrow> Inr True
      | Some p \<Rightarrow> matches_predicate_at r p DirectionIncoming ?sel (Suc nesting) (ent_id row))" for row :: entity
  proof (cases inb)
    case (Some p)
    with ok have "check_endpoint_shape (Suc nesting) p = None" by simp
    from 2(1) [OF g refl Some 2(3) v this] show ?thesis by (simp add: Some split del: if_split)
  qed simp
  have o: "decided (case outb of None \<Rightarrow> Inr True
      | Some p \<Rightarrow> matches_predicate_at r p DirectionOutgoing ?sel (Suc nesting) (ent_id row))" for row :: entity
  proof (cases outb)
    case (Some p)
    with ok have "check_endpoint_shape (Suc nesting) p = None" by simp
    from 2(2) [OF g refl Some 2(3) v this] show ?thesis by (simp add: Some split del: if_split)
  qed simp
  show ?case
    using g ok unfolding matches_endpoint.simps Let_def
    by (auto split del: if_split intro!: decided_on_rows [OF es] decided_both decided_props i o)
qed

lemma decided_optional:
  "clean_reader r \<Longrightarrow> sel_validate sel = None \<Longrightarrow> check_predicate p = None \<Longrightarrow> decided (optional_predicate r i dir sel p)"
  by (auto simp: optional_predicate_def check_predicate_def matches_predicate_def intro: decided_predicate(1)
      split: option.splits)

lemma query_shape_ok:
  assumes "check_query_shape q = None"
  shows "sel_validate (gq_faces q) = None" and "validate_prop_predicates (gq_props q) = None"
    and "\<forall>ps\<in>set (gq_narrowing q). validate_prop_predicates ps = None"
    and "check_predicate (gq_inbound q) = None" and "check_predicate (gq_outbound q) = None"
    and "\<forall>br\<in>set (gq_any q). check_predicate (gb_inbound br) = None"
    and "\<forall>rel\<in>set (gq_related q). check_endpoint_shape 0 (dr_pred rel) = None"
  using assms by (auto simp: check_query_shape_def first_error_None)

lemma decided_matches:
  assumes c: "clean_reader r" and q: "check_query_shape q = None"
  shows "decided (matches r e q)"
proof -
  note ok = query_shape_ok [OF q]
  have "decided (matches_any r e (gq_any q) (gq_faces q))"
    unfolding matches_any_def using ok(6) decided_optional [OF c ok(1)] by (auto intro!: decided_any)
  moreover have "decided (all_hold (\<lambda>rel. matches_predicate r (ent_id e) (related_direction rel) (gq_faces q) (dr_pred rel))
      (gq_related q))"
    using ok(7) decided_predicate(1) [OF c ok(1)] by (auto simp: matches_predicate_def intro!: decided_all)
  ultimately show ?thesis
    unfolding matches_def using ok decided_optional [OF c ok(1)]
    by (auto intro!: decided_both decided_props decided_narrowing)
qed

section \<open>Branches of the access ceiling\<close>

text \<open>Some branch of \<open>Any\<close> grants this face and its relation holds.\<close>

definition branch_grants :: "graph_reader \<Rightarrow> graph_query \<Rightarrow> entity \<Rightarrow> bool" where
  "branch_grants r q e \<longleftrightarrow> (\<exists>br\<in>set (gq_any q). branch_faces br (ent_face e) \<and>
     optional_predicate r (ent_id e) DirectionIncoming (gq_faces q) (gb_inbound br) = Inr True)"

lemma matches_any_grants:
  assumes "clean_reader r" and "check_query_shape q = None"
  shows "matches_any r e (gq_any q) (gq_faces q) = Inr True \<longleftrightarrow> branch_grants r q e"
proof -
  note ok = query_shape_ok [OF assms(2)]
  let ?f = "\<lambda>br. if \<not> branch_faces br (ent_face e) then Inr False
     else optional_predicate r (ent_id e) DirectionIncoming (gq_faces q) (gb_inbound br)"
  have "\<forall>br\<in>set (gq_any q). decided (?f br)" using ok(6) decided_optional [OF assms(1) ok(1)] by auto
  from any_holds_True [OF this] show ?thesis
    by (auto simp: matches_any_def branch_grants_def split: if_splits)
qed

lemma branch_relations:
  assumes "\<forall>br\<in>set brs. decided (optional_predicate r i DirectionIncoming sel (gb_inbound br))"
  shows "\<exists>holds. branch_relation_holds r i sel brs = Inr holds \<and>
    (\<forall>f. eligible holds brs f \<longleftrightarrow> (\<exists>br\<in>set brs. branch_faces br f \<and>
       optional_predicate r i DirectionIncoming sel (gb_inbound br) = Inr True))"
  using assms
proof (induction brs)
  case (Cons br brs)
  then obtain holds where h: "branch_relation_holds r i sel brs = Inr holds"
    "\<forall>f. eligible holds brs f \<longleftrightarrow> (\<exists>br\<in>set brs. branch_faces br f \<and>
       optional_predicate r i DirectionIncoming sel (gb_inbound br) = Inr True)" by auto
  obtain b where b: "optional_predicate r i DirectionIncoming sel (gb_inbound br) = Inr b"
    using Cons.prems by (auto simp: decided_def)
  show ?case using h b by (auto simp: eligible_def)
qed (simp add: eligible_def)

lemma branch_rows_ok:
  assumes "clean_reader r" and "check_query_shape q = None"
  shows "\<forall>i h. dict_get cache i = Some h \<longrightarrow> branch_relation_holds r i (gq_faces q) (gq_any q) = Inr h \<Longrightarrow>
    branch_rows r q (map Inr es) cache = Inr (filter (branch_grants r q) es)"
proof (induction es arbitrary: cache)
  case (Cons e es)
  note ok = query_shape_ok [OF assms(2)]
  have "\<forall>br\<in>set (gq_any q). decided (optional_predicate r (ent_id e) DirectionIncoming (gq_faces q) (gb_inbound br))"
    using ok(6) decided_optional [OF assms(1) ok(1)] by auto
  from branch_relations [OF this] obtain holds where
    h: "branch_relation_holds r (ent_id e) (gq_faces q) (gq_any q) = Inr holds"
      "eligible holds (gq_any q) (ent_face e) \<longleftrightarrow> branch_grants r q e"
    by (auto simp: branch_grants_def)
  have look: "(case dict_get cache (ent_id e) of Some holds \<Rightarrow> Inr holds
      | None \<Rightarrow> branch_relation_holds r (ent_id e) (gq_faces q) (gq_any q)) = Inr holds"
    using Cons.prems h(1) by (auto split: option.split)
  have "\<forall>i h. dict_get (dict_set (ent_id e) holds cache) i = Some h \<longrightarrow>
      branch_relation_holds r i (gq_faces q) (gq_any q) = Inr h"
    using Cons.prems h(1) by (auto simp: dict_simps)
  from Cons.IH [OF this] show ?case using h(2) by (simp add: look Let_def)
qed simp

lemma collect_rows_clean: "collect_rows q (map Inr es) = Inr es"
  by (induction es) simp_all

text \<open>The candidates of a query over a reader without errors.\<close>

definition is_branched :: "graph_query \<Rightarrow> bool" where
  "is_branched q \<longleftrightarrow> gq_any q \<noteq> [] \<and> \<not> ws_is_trivial (case sel_world (gq_faces q) of Some w \<Rightarrow> w | None \<Rightarrow> unset_scope)"

lemma unset_trivial [simp]: "ws_is_trivial unset_scope"
  by (simp add: ws_is_trivial_def unset_scope_def)

lemma collect_ok:
  assumes "clean_reader r" and "check_query_shape q = None"
  shows "\<exists>es. read_entities r (candidate_query q (if is_branched q then all_faces else gq_faces q)) = map Inr es \<and>
    collect_by_type r q = Inr (if is_branched q
      then rows_of_primes (ranking_world (candidate_query q (gq_faces q))) (filter (branch_grants r q) es) else es)"
proof -
  let ?sel = "if is_branched q then all_faces else gq_faces q"
  have "sel_validate (eq_faces (candidate_query q ?sel)) = None"
    using query_shape_ok(1) [OF assms(2)] by (simp add: candidate_query_def all_faces_def sel_validate_def)
  from clean_entities [OF assms(1) this] obtain es where es: "read_entities r (candidate_query q ?sel) = map Inr es"
    by blast
  show ?thesis
  proof (cases "sel_world (gq_faces q)")
    case None
    then show ?thesis using es by (auto simp: collect_by_type_def is_branched_def collect_rows_clean)
  next
    case (Some w)
    then show ?thesis
      using es branch_rows_ok [OF assms, of "[]" es]
      by (auto simp: collect_by_type_def is_branched_def collect_rows_clean ranking_world_def candidate_query_def
          split: if_splits)
  qed
qed

section \<open>Rows of the primes\<close>

lemma dict_ok_filter_map:
  "dict_ok m \<Longrightarrow> dict_ok (concat (map (\<lambda>(i, f). case g f of None \<Rightarrow> [] | Some r \<Rightarrow> [(i, r)]) m)) \<and>
   fst ` set (concat (map (\<lambda>(i, f). case g f of None \<Rightarrow> [] | Some r \<Rightarrow> [(i, r)]) m)) \<subseteq> fst ` set m"
proof (induction m)
  case (Cons x m)
  obtain i f where x: "x = (i, f)" by (cases x)
  let ?rest = "concat (map (\<lambda>(i, f). case g f of None \<Rightarrow> [] | Some r \<Rightarrow> [(i, r)]) m)"
  have ok: "dict_ok m" and i: "i \<notin> fst ` set m" using Cons.prems by (auto simp: x dict_ok_def)
  have r: "dict_ok ?rest" "fst ` set ?rest \<subseteq> fst ` set m" using Cons.IH [OF ok] by blast+
  then have "i \<notin> fst ` set ?rest" using i by blast
  with r show ?case by (cases "g f") (simp_all add: x dict_ok_def subset_insertI2 del: set_concat)
qed simp

lemma set_concat_option:
  "set (concat (map (\<lambda>(i, x). case h i x of None \<Rightarrow> [] | Some e \<Rightarrow> [e]) xs)) = {e. \<exists>i x. (i, x) \<in> set xs \<and> h i x = Some e}"
proof -
  have "(\<exists>p\<in>set xs. e \<in> set (case p of (i, x) \<Rightarrow> case h i x of None \<Rightarrow> [] | Some e \<Rightarrow> [e])) \<longleftrightarrow>
      (\<exists>i x. (i, x) \<in> set xs \<and> h i x = Some e)" for e
    by (force split: option.splits)
  then show ?thesis unfolding set_concat set_map UN_simps image_image by blast
qed

lemma resolve_ok: "dict_ok (resolve_world_primes w cs)"
  by (simp add: resolve_world_primes_def dict_ok_filter_map see_rows_ok)

lemma dict_get_fold:
  assumes "inj_on f (set xs)"
  shows "dict_get (fold (\<lambda>e d. dict_set (f e) e d) xs []) k = Some e \<longleftrightarrow> e \<in> set xs \<and> k = f e"
  using assms
proof (induction xs rule: rev_induct)
  case (snoc x xs)
  then have "inj_on f (set xs)" by (auto intro: inj_on_subset)
  with snoc show ?case by (auto simp: dict_simps inj_on_def)
qed simp

lemma tagged_key_inject:
  "CHR ''@'' \<notin> set i \<Longrightarrow> CHR ''@'' \<notin> set j \<Longrightarrow> tagged_key i p = tagged_key j s \<longleftrightarrow> i = j \<and> p = s"
  unfolding tagged_key_def
  by (metis append_Cons append_Nil append_eq_append_conv2 append_same_eq cut_at fst_conv prod.inject)

definition plain_rows :: "entity list \<Rightarrow> bool" where
  "plain_rows es \<longleftrightarrow> distinct (map entity_ref es) \<and> (\<forall>e\<in>set es. CHR ''@'' \<notin> set (ent_id e))"

lemma plain_rows_inj: "plain_rows es \<Longrightarrow> inj_on (\<lambda>e. tagged_key (ent_id e) (ent_face e)) (set es)"
  by (auto simp: plain_rows_def distinct_map inj_on_def entity_ref_def tagged_key_inject)

lemma plain_rows_filter: "plain_rows es \<Longrightarrow> plain_rows (filter P es)"
  by (auto simp: plain_rows_def distinct_map_filter)

lemma rows_of_primes_set:
  assumes "plain_rows kept"
  shows "e \<in> set (rows_of_primes w kept) \<longleftrightarrow>
    e \<in> set kept \<and> dict_get (world_primes w (map row_candidate kept)) (ent_id e) = Some (ent_face e)"
proof -
  let ?rs = "resolve_world_primes w (map row_candidate kept)"
  let ?rows = "fold (\<lambda>e d. dict_set (tagged_key (ent_id e) (ent_face e)) e d) kept []"
  note g = dict_get_fold [OF plain_rows_inj [OF assms]]
  have "e \<in> set (rows_of_primes w kept) \<longleftrightarrow>
      (\<exists>i res. (i, res) \<in> set ?rs \<and> dict_get ?rows (tagged_key i (wr_face res)) = Some e)"
    by (simp add: rows_of_primes_def Let_def set_concat_option del: set_concat)
  also have "\<dots> \<longleftrightarrow> (\<exists>i res. dict_get ?rs i = Some res \<and> e \<in> set kept \<and> tagged_key i (wr_face res) = tagged_key (ent_id e) (ent_face e))"
    by (simp add: g dict_in_get [OF resolve_ok])
  also have "\<dots> \<longleftrightarrow> e \<in> set kept \<and> (\<exists>res. dict_get ?rs (ent_id e) = Some res \<and> wr_face res = ent_face e)"
  proof -
    have "CHR ''@'' \<notin> set i" if "dict_get ?rs i = Some res" for i res
    proof -
      have "rows_of i (map row_candidate kept) \<noteq> []"
      proof
        assume "rows_of i (map row_candidate kept) = []"
        then have "dict_get ?rs i = None" by (simp add: resolve_get)
        with that show False by simp
      qed
      then obtain k where "k \<in> set kept" "ent_id k = i"
        by (auto simp: rows_of_def filter_empty_conv row_candidate_def)
      then show ?thesis using assms by (auto simp: plain_rows_def)
    qed
    then show ?thesis using assms unfolding plain_rows_def by (metis tagged_key_inject)
  qed
  finally show ?thesis by (auto simp: world_primes_get)
qed

section \<open>Order and pages\<close>

text \<open>A sort key in a linear order: missing values last, declared values by position, others by text.\<close>

definition order_key :: "order_spec \<Rightarrow> entity \<Rightarrow> nat \<times> nat \<times> string" where
  "order_key spec e =
     (case sort_value e (os_property spec) of
        None \<Rightarrow> (1, 0, [])
      | Some s \<Rightarrow> (0, case index_of (os_values spec) s of
            Some i \<Rightarrow> (i, []) | None \<Rightarrow> (length (os_values spec), s)))"

lemma index_of_less: "index_of xs x = Some i \<Longrightarrow> i < length xs \<and> xs ! i = x"
  by (induction xs arbitrary: i) (auto split: if_splits)

lemma order_less_key:
  "order_less (spec # specs) x y \<longleftrightarrow>
     (if order_key spec x = order_key spec y then order_less specs x y
      else if os_descending spec then order_key spec y < order_key spec x else order_key spec x < order_key spec y)"
proof -
  let ?sx = "sort_value x (os_property spec)" and ?sy = "sort_value y (os_property spec)"
  show ?thesis
  proof (cases "\<exists>s t. ?sx = Some s \<and> ?sy = Some t")
    case True
    then obtain s t where st: "?sx = Some s" "?sy = Some t" by blast
    show ?thesis
      using index_of_less [of "os_values spec" s] index_of_less [of "os_values spec" t]
      by (cases "index_of (os_values spec) s"; cases "index_of (os_values spec) t")
        (auto simp: st order_key_def compare_order_values_def str_compare_def Let_def)
  next
    case False
    then show ?thesis by (cases ?sx; cases ?sy) (auto simp: order_key_def)
  qed
qed

text \<open>A strict weak order: asymmetric, and not being before is transitive.\<close>

definition weak_order :: "('a \<Rightarrow> 'a \<Rightarrow> bool) \<Rightarrow> bool" where
  "weak_order before \<longleftrightarrow> (\<forall>x y. before x y \<longrightarrow> \<not> before y x) \<and>
     (\<forall>x y z. \<not> before y x \<longrightarrow> \<not> before z y \<longrightarrow> \<not> before z x)"

lemma weak_order_asym: "weak_order before \<Longrightarrow> before x y \<Longrightarrow> \<not> before y x"
  unfolding weak_order_def by blast

lemma weak_order_trans: "weak_order before \<Longrightarrow> \<not> before y x \<Longrightarrow> \<not> before z y \<Longrightarrow> \<not> before z x"
  unfolding weak_order_def by blast

lemma weak_order_lex:
  fixes k :: "'a \<Rightarrow> 'b::linorder"
  assumes b: "weak_order before"
  shows "weak_order (\<lambda>x y. if k x = k y then before x y else k x < k y)" (is "weak_order ?B")
  unfolding weak_order_def
proof (intro conjI allI impI)
  show "\<not> ?B y x" if "?B x y" for x y
    using that weak_order_asym [OF b] by (auto split: if_splits)
  show "\<not> ?B z x" if 1: "\<not> ?B y x" and 2: "\<not> ?B z y" for x y z
  proof -
    have le: "k x \<le> k y" "k y \<le> k z" using 1 2 by (auto split: if_splits)
    show ?thesis
    proof (cases "k z = k x")
      case True
      with le have "k y = k x" by simp
      with True 1 2 show ?thesis using weak_order_trans [OF b, of y x z] by simp
    qed (use le in auto)
  qed
qed

lemma weak_order_lex_desc:
  fixes k :: "'a \<Rightarrow> 'b::linorder"
  assumes b: "weak_order before"
  shows "weak_order (\<lambda>x y. if k x = k y then before x y else k y < k x)" (is "weak_order ?B")
  unfolding weak_order_def
proof (intro conjI allI impI)
  show "\<not> ?B y x" if "?B x y" for x y
    using that weak_order_asym [OF b] by (auto split: if_splits)
  show "\<not> ?B z x" if 1: "\<not> ?B y x" and 2: "\<not> ?B z y" for x y z
  proof -
    have le: "k y \<le> k x" "k z \<le> k y" using 1 2 by (auto split: if_splits)
    show ?thesis
    proof (cases "k z = k x")
      case True
      with le have "k y = k x" by simp
      with True 1 2 show ?thesis using weak_order_trans [OF b, of y x z] by simp
    qed (use le in auto)
  qed
qed

lemma order_less_weak: "weak_order (order_less specs)"
proof (induction specs)
  case Nil
  have "order_less [] = (\<lambda>x y. ent_id x < ent_id y)" by (intro ext) simp
  then show ?case by (auto simp: weak_order_def)
next
  case (Cons spec specs)
  have "order_less (spec # specs) = (if os_descending spec
      then (\<lambda>x y. if order_key spec x = order_key spec y then order_less specs x y else order_key spec y < order_key spec x)
      else (\<lambda>x y. if order_key spec x = order_key spec y then order_less specs x y else order_key spec x < order_key spec y))"
    by (intro ext) (simp add: order_less_key del: order_less.simps)
  then show ?case
    by (cases "os_descending spec")
      (simp_all only: if_True if_False weak_order_lex [OF Cons] weak_order_lex_desc [OF Cons])
qed

lemma insert_by_mset [simp]: "mset (insert_by before x xs) = add_mset x (mset xs)"
  by (induction xs) auto

lemma stable_sort_mset: "mset (stable_sort before xs) = mset xs"
  by (induction xs) (simp_all add: stable_sort_def)

lemma stable_sort_set: "set (stable_sort before xs) = set xs"
  using stable_sort_mset [of before xs] by (metis set_mset_mset)

lemma insert_by_set: "set (insert_by before x xs) = insert x (set xs)"
  by (induction xs) auto

lemma insert_by_sorted:
  assumes "weak_order before" and "sorted_wrt (\<lambda>a b. \<not> before b a) xs"
  shows "sorted_wrt (\<lambda>a b. \<not> before b a) (insert_by before x xs)"
  using assms(2)
proof (induction xs)
  case (Cons y ys)
  show ?case
  proof (cases "before y x")
    case True
    then show ?thesis using Cons weak_order_asym [OF assms(1) True] by (simp add: insert_by_set)
  next
    case False
    then show ?thesis using Cons.prems weak_order_trans [OF assms(1) False] by auto
  qed
qed simp

lemma stable_sort_sorted: "weak_order before \<Longrightarrow> sorted_wrt (\<lambda>a b. \<not> before b a) (stable_sort before xs)"
  by (induction xs) (simp_all add: stable_sort_def insert_by_sorted)

text \<open>Stability: rows that the order does not tell apart keep their order.\<close>

lemma insert_by_stable:
  "\<forall>a\<in>set (x # xs). \<forall>b\<in>set (x # xs). P a \<longrightarrow> P b \<longrightarrow> \<not> before a b \<Longrightarrow>
   filter P (insert_by before x xs) = filter P (x # xs)"
  by (induction xs) auto

lemma stable_sort_stable:
  "\<forall>a\<in>set xs. \<forall>b\<in>set xs. P a \<longrightarrow> P b \<longrightarrow> \<not> before a b \<Longrightarrow> filter P (stable_sort before xs) = filter P xs"
proof (induction xs)
  case (Cons x xs)
  have s: "stable_sort before (x # xs) = insert_by before x (stable_sort before xs)" by (simp add: stable_sort_def)
  have "filter P (insert_by before x (stable_sort before xs)) = filter P (x # stable_sort before xs)"
    using Cons.prems by (intro insert_by_stable) (simp add: stable_sort_set)
  then show ?case using Cons by (simp add: s)
qed (simp add: stable_sort_def)

definition window :: "int \<Rightarrow> int \<Rightarrow> 'a list \<Rightarrow> 'a list" where
  "window offset limit xs = (if 0 < limit then take (nat limit) else id) (drop (nat offset) xs)"

lemma wrap64_small: "- (2 ^ 63) \<le> x \<Longrightarrow> x < 2 ^ 63 \<Longrightarrow> wrap64 x = x"
  by (simp add: wrap64_def)

lemma page_rows_window:
  assumes "max offset 0 + limit < 2 ^ 63"
  shows "page_rows xs offset limit = Some (window offset limit xs)"
proof (cases "int (length xs) \<le> max offset 0")
  case True
  then show ?thesis by (simp add: page_rows_def window_def Let_def)
next
  case False
  then have o: "nat (max offset 0) = nat offset" "nat offset < length xs" by auto
  show ?thesis
  proof (cases "0 < limit \<and> max offset 0 + limit < int (length xs)")
    case True
    then have "wrap64 (max offset 0 + limit) = max offset 0 + limit"
      using assms by (intro wrap64_small) auto
    with True False o show ?thesis by (simp add: page_rows_def window_def Let_def)
  next
    case no: False
    have w: "wrap64 (max offset 0 + limit) = max offset 0 + limit" if "0 < limit"
      using assms that by (intro wrap64_small) auto
    have "take (nat (int (length xs) - max offset 0)) (drop (nat offset) xs) = drop (nat offset) xs"
      using o by simp
    moreover have "take (nat limit) (drop (nat offset) xs) = drop (nat offset) xs" if "0 < limit"
      using no that o by simp
    ultimately show ?thesis using False no w o by (auto simp: page_rows_def window_def Let_def)
  qed
qed

section \<open>What a store has to provide, and what its queries then guarantee\<close>

text \<open>The rows a query answers: the candidates on which every predicate holds.\<close>

definition candidates :: "graph_reader \<Rightarrow> graph_query \<Rightarrow> entity list" where
  "candidates r q = (case collect_by_type r q of Inl e \<Rightarrow> [] | Inr es \<Rightarrow> es)"

definition answers :: "graph_reader \<Rightarrow> graph_query \<Rightarrow> entity list" where
  "answers r q = filter (\<lambda>e. matches r e q = Inr True) (candidates r q)"

definition page_fits :: "graph_query \<Rightarrow> bool" where
  "page_fits q \<longleftrightarrow> max (gq_offset q) 0 + gq_limit q < 2 ^ 63"

lemma judged_rows:
  "\<forall>e\<in>set es. decided (matches r e q) \<Longrightarrow>
   concat (map (judge_row r q) es) = map Inr (filter (\<lambda>e. matches r e q = Inr True) es)"
  by (induction es) (auto simp: judge_row_def decided_def)

lemma filter_is_row [simp]: "filter is_row (map Inr es) = map Inr es" "filter (\<lambda>x. \<not> is_row x) (map Inr es) = []"
  by (induction es) (simp_all add: is_row_def)

lemma map_projr [simp]: "map projr (map Inr es) = es"
  by (induction es) simp_all

lemma projr_Inr: "projr \<circ> Inr = id"
  by (rule ext) simp

lemma count_filter:
  "\<forall>e\<in>set es. decided (matches r e q) \<Longrightarrow>
   count_matches r q es n = Inr (n + length (filter (\<lambda>e. matches r e q = Inr True) es))"
  by (induction es arbitrary: n) (auto simp: decided_def)

lemma page_rows_subset: "page_rows xs off lim = Some ys \<Longrightarrow> set ys \<subseteq> set xs"
  unfolding page_rows_def Let_def by (auto split: if_splits dest!: in_set_takeD in_set_dropD)

lemma order_rows_set: "set (order_rows xs specs) = set xs"
  by (simp add: order_rows_def stable_sort_set)

definition faces_in :: "entity list \<Rightarrow> string \<Rightarrow> face list" where
  "faces_in es i = map ent_face (filter (\<lambda>e. ent_id e = i) es)"

lemma matching_rows_ok:
  "\<forall>e\<in>set es. decided (matches r e q) \<Longrightarrow>
   \<exists>d. matching_rows r q ids es out = Inr d \<and> (\<forall>i. dict_get d i =
     (let fs = (if i \<in> set ids then faces_in (filter (\<lambda>e. matches r e q = Inr True) es) i else [])
      in if fs = [] then dict_get out i
         else Some ((case dict_get out i of None \<Rightarrow> [] | Some gs \<Rightarrow> gs) @ fs)))"
proof (induction es arbitrary: out)
  case (Cons e es)
  then have IH: "\<exists>d. matching_rows r q ids es out = Inr d \<and> (\<forall>i. dict_get d i =
     (let fs = (if i \<in> set ids then faces_in (filter (\<lambda>e. matches r e q = Inr True) es) i else [])
      in if fs = [] then dict_get out i
         else Some ((case dict_get out i of None \<Rightarrow> [] | Some gs \<Rightarrow> gs) @ fs)))" for out
    by simp
  show ?case
  proof (cases "ent_id e \<in> set ids \<and> matches r e q = Inr True")
    case True
    let ?out = "dict_set (ent_id e)
      ((case dict_get out (ent_id e) of None \<Rightarrow> [] | Some fs \<Rightarrow> fs) @ [ent_face e]) out"
    have "matching_rows r q ids (e # es) out = matching_rows r q ids es ?out" using True by simp
    with IH [of ?out] True show ?thesis
      by (auto simp: faces_in_def Let_def dict_simps)
  next
    case False
    have "matching_rows r q ids (e # es) out = matching_rows r q ids es out"
      using False Cons.prems by (auto simp: decided_def)
    with IH [of out] False show ?thesis by (auto simp: faces_in_def Let_def)
  qed
qed (simp add: faces_in_def)

locale graph_source =
  fixes reader :: "'s \<Rightarrow> graph_reader" and inv :: "'s \<Rightarrow> bool"
  assumes clean: "inv s \<Longrightarrow> clean_reader (reader s)"
    and rows_plain: "inv s \<Longrightarrow> read_entities (reader s) q = map Inr es \<Longrightarrow> plain_rows es"
    and rows_match: "inv s \<Longrightarrow> read_entities (reader s) q = map Inr es \<Longrightarrow> e \<in> set es \<Longrightarrow>
      match_entity_query (ent_type e) (ent_id e) (ent_face e) q"
begin

lemma candidates_decided:
  assumes "inv s" and "check_query_shape q = None"
  shows "collect_by_type (reader s) q = Inr (candidates (reader s) q)"
    and "\<forall>e\<in>set (candidates (reader s) q). decided (matches (reader s) e q)"
  using collect_ok [OF clean [OF assms(1)] assms(2)] decided_matches [OF clean [OF assms(1)] assms(2)]
  by (auto simp: candidates_def)

lemma run_rows:
  assumes "inv s" and "check_query_shape q = None" and "page_fits q"
  shows "run_query (reader s) q = Some (map Inr
    (if is_paged q then window (gq_offset q) (gq_limit q) (order_rows (answers (reader s) q) (gq_order q))
     else answers (reader s) q))"
proof -
  note c = candidates_decided [OF assms(1,2)]
  have j: "concat (map (judge_row (reader s) q) (candidates (reader s) q)) = map Inr (answers (reader s) q)"
    using judged_rows [OF c(2)] by (simp add: answers_def)
  show ?thesis
    using assms(2,3) c(1) page_rows_window [of "gq_offset q" "gq_limit q" "order_rows (answers (reader s) q) (gq_order q)"]
    by (simp add: run_query_def Let_def j page_fits_def projr_Inr)
qed

lemma run_subset:
  assumes "inv s" and "check_query_shape q = None" and "run_query (reader s) q = Some out"
  shows "set out \<subseteq> Inr ` set (answers (reader s) q)"
proof -
  note c = candidates_decided [OF assms(1,2)]
  have j: "concat (map (judge_row (reader s) q) (candidates (reader s) q)) = map Inr (answers (reader s) q)"
    using judged_rows [OF c(2)] by (simp add: answers_def)
  show ?thesis
    using assms(2,3) c(1) page_rows_subset order_rows_set
    by (fastforce simp: run_query_def Let_def j projr_Inr split: if_splits)
qed

lemma count_rows:
  assumes "inv s" and "check_query_shape q = None"
  shows "count_query (reader s) q = Inr (length (answers (reader s) q), length (candidates (reader s) q))"
  using candidates_decided [OF assms] count_filter [of "candidates (reader s) q" "reader s" q 0] assms(2)
  by (simp add: count_query_def answers_def)

lemma faces_rows:
  assumes "inv s" and "check_query_shape q = None"
  shows "\<exists>d. matching_faces (reader s) q ids = Inr d \<and> (\<forall>i. dict_get d i =
    (let fs = faces_in (answers (reader s) q) i
     in if i \<in> set ids \<and> fs \<noteq> [] then Some (sorted_faces_of fs) else None))"
proof (cases "ids = []")
  case True
  then show ?thesis using assms(2) by (simp add: matching_faces_def)
next
  case False
  note c = candidates_decided [OF assms]
  from matching_rows_ok [OF c(2), of ids "[]"] obtain d where
    "matching_rows (reader s) q ids (candidates (reader s) q) [] = Inr d"
    "\<forall>i. dict_get d i = (let fs = (if i \<in> set ids then faces_in (answers (reader s) q) i else [])
      in if fs = [] then dict_get [] i
         else Some ((case dict_get [] i of None \<Rightarrow> [] | Some gs \<Rightarrow> gs) @ fs))"
    unfolding answers_def by blast
  then have d: "matching_rows (reader s) q ids (candidates (reader s) q) [] = Inr d"
    "\<forall>i. dict_get d i = (let fs = (if i \<in> set ids then faces_in (answers (reader s) q) i else [])
      in if fs = [] then None else Some fs)"
    by (simp_all add: Let_def)
  have "matching_faces (reader s) q ids = Inr (map (\<lambda>(i, fs). (i, sorted_faces_of fs)) d)"
    using d(1) c(1) assms(2) False by (simp add: matching_faces_def)
  moreover have "dict_get (map (\<lambda>(i, fs). (i, sorted_faces_of fs)) d) i = map_option sorted_faces_of (dict_get d i)" for i
    by (simp add: map_of_map)
  ultimately show ?thesis using d(2) by (simp add: Let_def)
qed

text \<open>A row answered under branches is granted by one, and under a ranking world it is the prime.\<close>

lemma answer_granted:
  assumes "inv s" and "check_query_shape q = None" and "e \<in> set (answers (reader s) q)" and "gq_any q \<noteq> []"
  shows "branch_grants (reader s) q e"
proof -
  have "matches (reader s) e q = Inr True" using assms(3) by (simp add: answers_def)
  then have "matches_any (reader s) e (gq_any q) (gq_faces q) = Inr True"
    using assms(4) by (simp add: matches_def)
  then show ?thesis using matches_any_grants [OF clean [OF assms(1)] assms(2)] by simp
qed

lemma answer_prime:
  assumes i: "inv s" and q: "check_query_shape q = None" and e: "e \<in> set (answers (reader s) q)" and b: "is_branched q"
  shows "\<exists>es w. sel_world (gq_faces q) = Some w \<and>
    read_entities (reader s) (candidate_query q all_faces) = map Inr es \<and> e \<in> set es \<and>
    dict_get (world_primes w (map row_candidate (filter (branch_grants (reader s) q) es))) (ent_id e) = Some (ent_face e)"
proof -
  obtain es where es: "read_entities (reader s) (candidate_query q all_faces) = map Inr es"
    "collect_by_type (reader s) q = Inr (rows_of_primes (ranking_world (candidate_query q (gq_faces q)))
        (filter (branch_grants (reader s) q) es))"
    using collect_ok [OF clean [OF i] q] b by auto
  obtain w where w: "sel_world (gq_faces q) = Some w" using b by (cases "sel_world (gq_faces q)") (auto simp: is_branched_def)
  then have rw: "ranking_world (candidate_query q (gq_faces q)) = w" by (simp add: ranking_world_def candidate_query_def)
  have "plain_rows (filter (branch_grants (reader s) q) es)" by (rule plain_rows_filter [OF rows_plain [OF i es(1)]])
  then have "e \<in> set es \<and> dict_get (world_primes w (map row_candidate (filter (branch_grants (reader s) q) es))) (ent_id e)
      = Some (ent_face e)"
    using e es(2) rows_of_primes_set by (auto simp: answers_def candidates_def rw)
  with w es(1) show ?thesis by blast
qed

lemma answer_matches:
  assumes i: "inv s" and q: "check_query_shape q = None" and e: "e \<in> set (answers (reader s) q)"
  shows "(gq_type q = [] \<or> ent_type e = gq_type q) \<and> (gq_face_in q = [] \<or> ent_face e \<in> set (gq_face_in q))"
proof -
  obtain es where es: "read_entities (reader s) (candidate_query q (if is_branched q then all_faces else gq_faces q)) = map Inr es"
    "collect_by_type (reader s) q = Inr (if is_branched q
      then rows_of_primes (ranking_world (candidate_query q (gq_faces q))) (filter (branch_grants (reader s) q) es) else es)"
    using collect_ok [OF clean [OF i] q] by auto
  have "plain_rows (filter (branch_grants (reader s) q) es)" by (rule plain_rows_filter [OF rows_plain [OF i es(1)]])
  then have "e \<in> set es"
    using e es(2) rows_of_primes_set by (auto simp: answers_def candidates_def split: if_splits)
  from rows_match [OF i es(1) this] show ?thesis
    by (auto simp: match_entity_query_def candidate_query_def split: if_splits)
qed

end

text \<open>A caller's conditions do not change the candidates, so they only take answers away.\<close>

definition without_caller :: "graph_query \<Rightarrow> graph_query" where
  "without_caller q = q\<lparr>gq_narrowing := [], gq_related := [], gq_order := [], gq_limit := 0, gq_offset := 0\<rparr>"

lemma skip_caller: "skip_unreadable (without_caller q) = skip_unreadable q"
  by (intro ext) (simp add: skip_unreadable_def without_caller_def)

lemma caller_frame: "gq_faces (without_caller q) = gq_faces q" "gq_any (without_caller q) = gq_any q"
  by (simp_all add: without_caller_def)

lemma collect_caller: "collect_by_type r (without_caller q) = collect_by_type r q"
proof -
  have c: "candidate_query (without_caller q) = candidate_query q"
    by (intro ext) (simp add: candidate_query_def without_caller_def)
  note f = caller_frame
  have r: "collect_rows (without_caller q) rows = collect_rows q rows" for rows
    by (induction q rows rule: collect_rows.induct) (simp_all add: skip_caller)
  have b: "branch_rows r (without_caller q) rows cache = branch_rows r q rows cache" for rows cache
    by (induction r q rows cache rule: branch_rows.induct) (simp_all add: skip_caller f Let_def split: sum.split option.split)
  show ?thesis unfolding collect_by_type_def c f r b ..
qed

lemma answers_caller: "set (answers r q) \<subseteq> set (answers r (without_caller q))"
proof -
  have "matches r e (without_caller q) = Inr True" if "matches r e q = Inr True" for e
    using that by (auto simp: matches_def without_caller_def matches_narrowing_def split: if_splits)
  then show ?thesis by (auto simp: answers_def candidates_def collect_caller)
qed

end
