(* ===== verification/Memstore.thy ===== *)
theory Memstore
  imports World
begin

text \<open>
  The in-memory store, from \<^verbatim>\<open>internal/store/memstore/\<close> (memstore.go, convert.go, softdelete.go,
  mentions.go; tx.go only serialises the calls). One record holds the maps, the sorted key slices
  that index them, the soft-deleted families, the subscribers' channels, and two logs that are not
  in the code: the notices sent to the observers and the events handed to \<open>emit\<close>. Every exported
  write runs under one lock, so an operation is one function from state to state; \<open>Panic\<close> is
  \<open>SortedRemove\<close> on a missing key. The clock is the parameter \<open>now\<close>, the mention rewriter (a
  Markdown parser outside the repository does its work) the parameter \<open>rewrite\<close>.
\<close>

section \<open>State\<close>

record attachment =
  at_entity :: string
  at_property :: string
  at_file :: string
  at_data :: string
  at_sha :: string

record marked_family =
  mf_at :: int
  mf_by :: string
  mf_entities :: "entity dict"
  mf_relations :: "relation dict"

datatype event_op =
    EventEntityCreated | EventEntityUpdated | EventEntityDeleted
  | EventRelationCreated | EventRelationUpdated | EventRelationDeleted

record event =
  ev_op :: event_op
  ev_entity_type :: string
  ev_entity :: string
  ev_relation_type :: string
  ev_from :: string
  ev_to :: string
  ev_face :: face

record subscriber =
  sub_cap :: nat
  sub_queue :: "event list"

text \<open>The calls of the observers: \<open>EntityPut\<close>, \<open>EntityFaceDelete\<close>, \<open>EntityDelete\<close>, \<open>EntityRenamed\<close>.\<close>

datatype notice =
  NotePut entity | NoteFaceDelete string face | NoteLastFaceDelete string | NoteRenamed string entity

record memstore =
  ms_entities :: "entity dict"
  ms_entity_order :: "string list"
  ms_relations :: "relation dict"
  ms_relation_order :: "string list"
  ms_attachments :: "attachment dict"
  ms_marked :: "marked_family dict"
  ms_subs :: "(nat \<times> subscriber) list"
  ms_next_sub :: nat
  ms_notices :: "notice list"
  ms_emitted :: "event list"

definition new_store :: memstore where
  "new_store = \<lparr>ms_entities = [], ms_entity_order = [], ms_relations = [], ms_relation_order = [],
     ms_attachments = [], ms_marked = [], ms_subs = [], ms_next_sub = 0, ms_notices = [], ms_emitted = []\<rparr>"

datatype store_error =
    BadId id_error | BadText text_error | Conflict | NotFound
  | StateTypeMismatch string face string string
  | VersionConflict string string string
  | HasRelations string nat
  | BadRelationType relation_type_error
  | BadProperty property_error
  | BadFileName file_name_error
  | AttachmentTooLarge
  | InvalidQuery query_error
  | InvalidLimit
  | BadCursor
  | BadReplacement replacement_error

record delete_result =
  dr_entities :: "entity list"
  dr_relations :: "relation list"

section \<open>Observers, subscribers and rows\<close>

definition notify :: "notice \<Rightarrow> memstore \<Rightarrow> memstore" where
  "notify n m = m\<lparr>ms_notices := ms_notices m @ [n]\<rparr>"

text \<open>A non-blocking send: a full channel drops the event.\<close>

definition send_event :: "event \<Rightarrow> subscriber \<Rightarrow> subscriber" where
  "send_event ev s =
     (if length (sub_queue s) < sub_cap s then s\<lparr>sub_queue := sub_queue s @ [ev]\<rparr> else s)"

definition emit :: "event \<Rightarrow> memstore \<Rightarrow> memstore" where
  "emit ev m = m\<lparr>ms_subs := map (\<lambda>(i, s). (i, send_event ev s)) (ms_subs m),
     ms_emitted := ms_emitted m @ [ev]\<rparr>"

definition subscribe :: "nat \<Rightarrow> memstore \<Rightarrow> nat \<times> memstore" where
  "subscribe bufSize m =
     (ms_next_sub m, m\<lparr>ms_subs := ms_subs m @ [(ms_next_sub m, \<lparr>sub_cap = bufSize, sub_queue = []\<rparr>)],
        ms_next_sub := Suc (ms_next_sub m)\<rparr>)"

definition cancel_sub :: "nat \<Rightarrow> memstore \<Rightarrow> memstore" where
  "cancel_sub i m = m\<lparr>ms_subs := filter (\<lambda>(j, s). j \<noteq> i) (ms_subs m)\<rparr>"

definition close_store :: "memstore \<Rightarrow> memstore" where
  "close_store m = m\<lparr>ms_subs := []\<rparr>"

definition entity_event :: "event_op \<Rightarrow> string \<Rightarrow> string \<Rightarrow> face \<Rightarrow> event" where
  "entity_event op t i p = \<lparr>ev_op = op, ev_entity_type = t, ev_entity = i, ev_relation_type = [],
     ev_from = [], ev_to = [], ev_face = p\<rparr>"

definition relation_event :: "event_op \<Rightarrow> relation_key \<Rightarrow> event" where
  "relation_event op k = \<lparr>ev_op = op, ev_entity_type = [], ev_entity = [], ev_relation_type = rk_type k,
     ev_from = rk_from k, ev_to = rk_to k, ev_face = rk_from_face k\<rparr>"

definition entity_insert :: "string list \<Rightarrow> string \<Rightarrow> string list" where
  "entity_insert s key = sorted_insert_func s key compare_state_keys"

definition entity_remove :: "string list \<Rightarrow> string \<Rightarrow> string list option" where
  "entity_remove s key = sorted_remove_func s key compare_state_keys"

text \<open>A map entry and its place in the sorted slice.\<close>

definition add_entity_row :: "string \<Rightarrow> entity \<Rightarrow> memstore \<Rightarrow> memstore" where
  "add_entity_row key e m = m\<lparr>ms_entities := dict_set key e (ms_entities m),
     ms_entity_order := entity_insert (ms_entity_order m) key\<rparr>"

definition drop_entity_row :: "string \<Rightarrow> memstore \<Rightarrow> (store_error, memstore) outcome" where
  "drop_entity_row key m =
     bind_out (panic_none (entity_remove (ms_entity_order m) key)) (\<lambda>ord.
       Ok (m\<lparr>ms_entities := dict_del key (ms_entities m), ms_entity_order := ord\<rparr>))"

definition add_relation_row :: "string \<Rightarrow> relation \<Rightarrow> memstore \<Rightarrow> memstore" where
  "add_relation_row key r m = m\<lparr>ms_relations := dict_set key r (ms_relations m),
     ms_relation_order := sorted_insert (ms_relation_order m) key\<rparr>"

definition drop_relation_row :: "string \<Rightarrow> memstore \<Rightarrow> (store_error, memstore) outcome" where
  "drop_relation_row key m =
     bind_out (panic_none (sorted_remove (ms_relation_order m) key)) (\<lambda>ord.
       Ok (m\<lparr>ms_relations := dict_del key (ms_relations m), ms_relation_order := ord\<rparr>))"

text \<open>A loop of fallible steps.\<close>

fun each_out :: "('x \<Rightarrow> 's \<Rightarrow> ('e, 's) outcome) \<Rightarrow> 'x list \<Rightarrow> 's \<Rightarrow> ('e, 's) outcome" where
  "each_out f [] s = Ok s"
| "each_out f (x # xs) s = bind_out (f x s) (each_out f xs)"

section \<open>Lookups over the maps\<close>

definition id_taken :: "entity dict \<Rightarrow> string \<Rightarrow> string \<Rightarrow> bool" where
  "id_taken index i except \<longleftrightarrow>
     list_ex (\<lambda>(k, e). \<not> (except \<noteq> [] \<and> fold_id (ent_id e) = fold_id except) \<and>
       fold_id (ent_id e) = fold_id i) index"

definition marked_taken :: "marked_family dict \<Rightarrow> string \<Rightarrow> string \<Rightarrow> bool" where
  "marked_taken marked i except \<longleftrightarrow>
     list_ex (\<lambda>(j, f). \<not> (except \<noteq> [] \<and> fold_id j = fold_id except) \<and> fold_id j = fold_id i) marked"

definition family_rows :: "entity dict \<Rightarrow> string \<Rightarrow> (string \<times> entity) list" where
  "family_rows index i = filter (\<lambda>(k, e). ent_id e = i) index"

definition family_member :: "entity dict \<Rightarrow> string \<Rightarrow> entity option" where
  "family_member index i = (case family_rows index i of [] \<Rightarrow> None | (k, e) # _ \<Rightarrow> Some e)"

definition family_size :: "entity dict \<Rightarrow> string \<Rightarrow> nat" where
  "family_size index i = length (family_rows index i)"

definition touches :: "relation \<Rightarrow> string \<Rightarrow> bool" where
  "touches r i \<longleftrightarrow> rel_from r = i \<or> rel_to r = i"

definition drop_marked_edges :: "string \<Rightarrow> memstore \<Rightarrow> memstore" where
  "drop_marked_edges i m = m\<lparr>ms_marked := map (\<lambda>(j, f).
     (j, f\<lparr>mf_relations := filter (\<lambda>(k, r). \<not> touches r i) (mf_relations f)\<rparr>)) (ms_marked m)\<rparr>"

definition drop_attachments :: "string \<Rightarrow> memstore \<Rightarrow> memstore" where
  "drop_attachments i m = m\<lparr>ms_attachments := filter (\<lambda>(k, a). at_entity a \<noteq> i) (ms_attachments m)\<rparr>"

definition sorted_faces :: "(string \<times> entity) list \<Rightarrow> (string \<times> entity) list" where
  "sorted_faces rows = sort_key (\<lambda>(k, e). ent_face e) rows"

definition sorted_relations :: "relation dict \<Rightarrow> relation list" where
  "sorted_relations rows = sort_key relation_key (map snd rows)"

definition emit_all :: "event list \<Rightarrow> memstore \<Rightarrow> memstore" where
  "emit_all evs m = fold emit evs m"

section \<open>Entity writes\<close>

definition create_entity :: "int \<Rightarrow> entity \<Rightarrow> memstore \<Rightarrow> (store_error, memstore) outcome" where
  "create_entity now e m =
     (case validate_id (ent_id e) of Some err \<Rightarrow> Fail (BadId err) | None \<Rightarrow>
      case validate_properties (ent_props e) of Some err \<Rightarrow> Fail (BadText err) | None \<Rightarrow>
      let key = format_state_ref (ent_id e) (ent_face e);
          stored = e\<lparr>ent_redacted := [], ent_updated := now\<rparr>;
          write = emit (entity_event EventEntityCreated (ent_type e) (ent_id e) (ent_face e))
            (notify (NotePut stored) (add_entity_row key stored m))
      in
      if marked_taken (ms_marked m) (ent_id e) [] then Fail Conflict
      else if is_implicit (ent_face e) then
        (if id_taken (ms_entities m) (ent_id e) [] then Fail Conflict else Ok write)
      else
        (case family_member (ms_entities m) (ent_id e) of
           Some sib \<Rightarrow>
             if ent_type sib \<noteq> ent_type e
             then Fail (StateTypeMismatch (ent_id e) (ent_face e) (ent_type e) (ent_type sib))
             else if dict_get (ms_entities m) key \<noteq> None then Fail Conflict
             else Ok write
         | None \<Rightarrow> if dict_get (ms_entities m) key \<noteq> None then Fail Conflict else Ok write))"

text \<open>The empty expected version is the zero condition: no compare.\<close>

definition update_entity_if ::
  "(string \<Rightarrow> string) \<Rightarrow> int \<Rightarrow> entity \<Rightarrow> string \<Rightarrow> memstore \<Rightarrow> (store_error, string \<times> memstore) outcome" where
  "update_entity_if sha now e expected m =
     (case validate_properties (ent_props e) of Some err \<Rightarrow> Fail (BadText err) | None \<Rightarrow>
      let key = format_state_ref (ent_id e) (ent_face e) in
      case dict_get (ms_entities m) key of
        None \<Rightarrow> Fail NotFound
      | Some existing \<Rightarrow>
          if expected \<noteq> [] \<and> version_of sha existing \<noteq> expected
          then Fail (VersionConflict (ent_id e) expected (version_of sha existing))
          else if \<not> is_implicit (ent_face e) \<and> ent_type e \<noteq> ent_type existing
          then Fail (StateTypeMismatch (ent_id e) (ent_face e) (ent_type e) (ent_type existing))
          else
            let stored = e\<lparr>ent_redacted := [], ent_updated := now\<rparr> in
            Ok (version_of sha stored,
              emit (entity_event EventEntityUpdated (ent_type e) (ent_id e) (ent_face e))
                (notify (NotePut stored) (m\<lparr>ms_entities := dict_set key stored (ms_entities m)\<rparr>))))"

definition update_entity ::
  "(string \<Rightarrow> string) \<Rightarrow> int \<Rightarrow> entity \<Rightarrow> memstore \<Rightarrow> (store_error, memstore) outcome" where
  "update_entity sha now e m = bind_out (update_entity_if sha now e [] m) (\<lambda>(v, m'). Ok m')"

definition delete_entity ::
  "string \<Rightarrow> bool \<Rightarrow> memstore \<Rightarrow> (store_error, delete_result \<times> memstore) outcome" where
  "delete_entity i cascade m =
     (let family = sorted_faces (family_rows (ms_entities m) i);
          related = filter (\<lambda>r. touches r i) (map snd (ms_relations m)) in
      if family = [] then Fail NotFound
      else if \<not> cascade \<and> related \<noteq> [] then Fail (HasRelations i (length related))
      else
        bind_out (each_out (\<lambda>(key, e) m. bind_out (drop_entity_row key m) (\<lambda>m.
            Ok (notify (NoteFaceDelete i (ent_face e)) m))) family m) (\<lambda>m1.
        bind_out (each_out (\<lambda>r m. drop_relation_row (relation_key r) m) related
            (drop_attachments i (notify (NoteLastFaceDelete i) m1))) (\<lambda>m2.
        Ok (\<lparr>dr_entities = map snd family, dr_relations = related\<rparr>,
          emit_all (map (\<lambda>(key, e). entity_event EventEntityDeleted (ent_type e) i (ent_face e)) family @
                    map (\<lambda>r. relation_event EventRelationDeleted (relation_identity r)) related)
            (drop_marked_edges i m2)))))"

definition delete_face ::
  "ref \<Rightarrow> memstore \<Rightarrow> (store_error, delete_result \<times> memstore) outcome" where
  "delete_face ref m =
     (if \<not> addressable ref then Fail NotFound
      else
        let i = ref_id ref; p = ref_face ref; key = format_state_ref i p in
        case dict_get (ms_entities m) key of
          None \<Rightarrow> Fail NotFound
        | Some target \<Rightarrow>
            let final = (family_size (ms_entities m) i = 1);
                owned = sort_key relation_key (filter (\<lambda>r.
                  (rel_from r = i \<and> rel_from_face r = p \<and> \<not> is_implicit p) \<or> (final \<and> touches r i))
                  (map snd (ms_relations m))) in
            bind_out (drop_entity_row key m) (\<lambda>m1.
              let m2 = notify (NoteFaceDelete i p) m1;
                  m3 = (if final then notify (NoteLastFaceDelete i) (drop_attachments i m2) else m2) in
              bind_out (each_out (\<lambda>r m. drop_relation_row (relation_key r) m) owned m3) (\<lambda>m4.
                Ok (\<lparr>dr_entities = [target], dr_relations = owned\<rparr>,
                  emit_all (entity_event EventEntityDeleted (ent_type target) i p #
                      map (\<lambda>r. relation_event EventRelationDeleted (relation_identity r)) owned) m4))))"

text \<open>\<open>rekeyFamily\<close>: one state moved to the new id; the accumulator collects the renamed states.\<close>

definition rekey_row ::
  "int \<Rightarrow> string \<Rightarrow> string \<times> entity \<Rightarrow> memstore \<Rightarrow> (store_error, memstore) outcome" where
  "rekey_row now newID row m =
     (let (key, e) = row; r = e\<lparr>ent_id := newID, ent_updated := now\<rparr>;
          newKey = format_state_ref newID (ent_face r) in
      bind_out (panic_none (entity_remove (ms_entity_order m) key)) (\<lambda>ord.
        Ok (m\<lparr>ms_entities := dict_del key (dict_set newKey r (ms_entities m)),
              ms_entity_order := entity_insert ord newKey\<rparr>)))"

definition renamed_relation :: "string \<Rightarrow> string \<Rightarrow> relation \<Rightarrow> relation" where
  "renamed_relation oldID newID r =
     r\<lparr>rel_from := (if rel_from r = oldID then newID else rel_from r),
       rel_to := (if rel_to r = oldID then newID else rel_to r)\<rparr>"

definition attachment_key :: "string \<Rightarrow> string \<Rightarrow> string \<Rightarrow> string" where
  "attachment_key i property fileName = i @ ''/'' @ property @ ''/'' @ fileName"

definition rekey_attachments :: "string \<Rightarrow> string \<Rightarrow> memstore \<Rightarrow> memstore" where
  "rekey_attachments oldID newID m =
     (let moved = map (\<lambda>(k, a). a\<lparr>at_entity := newID\<rparr>)
            (filter (\<lambda>(k, a). at_entity a = oldID) (ms_attachments m)) in
      m\<lparr>ms_attachments := fold (\<lambda>a d. dict_set (attachment_key newID (at_property a) (at_file a)) a d)
         moved (filter (\<lambda>(k, a). at_entity a \<noteq> oldID) (ms_attachments m))\<rparr>)"

text \<open>\<open>rewriteMentions\<close>: the bodies that name the old id, in key order.\<close>

definition rewrite_row ::
  "(string \<Rightarrow> string \<Rightarrow> string \<Rightarrow> string \<times> bool) \<Rightarrow> int \<Rightarrow> string \<Rightarrow> string \<Rightarrow> string \<Rightarrow>
   memstore \<times> (string \<times> string \<times> face) list \<Rightarrow> memstore \<times> (string \<times> string \<times> face) list" where
  "rewrite_row rewrite now oldID newID key st =
     (let (m, done) = st in
      case dict_get (ms_entities m) key of
        None \<Rightarrow> st
      | Some e \<Rightarrow>
          (let (content, changed) = rewrite (ent_content e) oldID newID in
           if \<not> changed then st
           else
             let stored = e\<lparr>ent_content := content, ent_updated := now\<rparr> in
             (emit (entity_event EventEntityUpdated (ent_type stored) (ent_id stored) (ent_face stored))
                (notify (NotePut stored) (m\<lparr>ms_entities := dict_set key stored (ms_entities m)\<rparr>)),
              done @ [(ent_id stored, ent_type stored, ent_face stored)])))"

definition rewrite_mentions ::
  "(string \<Rightarrow> string \<Rightarrow> string \<Rightarrow> string \<times> bool) \<Rightarrow> int \<Rightarrow> string \<Rightarrow> string \<Rightarrow>
   memstore \<Rightarrow> memstore \<times> (string \<times> string \<times> face) list" where
  "rewrite_mentions rewrite now oldID newID m =
     fold (rewrite_row rewrite now oldID newID)
       (sort (map fst (filter (\<lambda>(k, e). contains (ent_content e) oldID) (ms_entities m)))) (m, [])"

record rename_result =
  rr_relations :: nat
  rr_mentions :: "(string \<times> string \<times> face) list"

definition rename_entity ::
  "(string \<Rightarrow> string \<Rightarrow> string \<Rightarrow> string \<times> bool) \<Rightarrow> int \<Rightarrow> string \<Rightarrow> string \<Rightarrow>
   memstore \<Rightarrow> (store_error, rename_result \<times> memstore) outcome" where
  "rename_entity rewrite now oldID newID m =
     (case validate_id newID of Some err \<Rightarrow> Fail (BadId err) | None \<Rightarrow>
      let family = sorted_faces (family_rows (ms_entities m) oldID) in
      if family = [] then Fail NotFound
      else if id_taken (ms_entities m) newID oldID \<or> marked_taken (ms_marked m) newID oldID then Fail Conflict
      else
        bind_out (each_out (rekey_row now newID) family m) (\<lambda>m1.
          let renamed = map (\<lambda>(k, e). e\<lparr>ent_id := newID, ent_updated := now\<rparr>) family;
              m2 = fold (\<lambda>e. notify (NoteRenamed oldID e))
                     (filter (\<lambda>e. is_implicit (ent_face e)) renamed @
                      filter (\<lambda>e. \<not> is_implicit (ent_face e)) renamed) m1;
              m3 = drop_marked_edges oldID m2;
              old = filter (\<lambda>(k, r). touches r oldID) (ms_relations m3)
          in
          bind_out (each_out (\<lambda>(k, r). drop_relation_row k) old m3) (\<lambda>m4.
            let m5 = fold (\<lambda>(k, r). let r' = renamed_relation oldID newID r
                       in add_relation_row (relation_key r') r') old m4;
                m6 = rekey_attachments oldID newID m5;
                m7 = emit_all (map (\<lambda>e. entity_event EventEntityUpdated (ent_type e) newID (ent_face e)) renamed) m6;
                (m8, rewritten) = rewrite_mentions rewrite now oldID newID m7
            in Ok (\<lparr>rr_relations = length old, rr_mentions = rewritten\<rparr>, m8))))"

text \<open>\<open>replaceEntityFamily\<close>: the type of the last old row labels the emptied faces.\<close>

definition replace_entity_family ::
  "int \<Rightarrow> string \<Rightarrow> family_replacement list \<Rightarrow> memstore \<Rightarrow> (store_error, memstore) outcome" where
  "replace_entity_family now i rs m =
     (let old = family_rows (ms_entities m) i in
      case validate_family_replacement i (map (\<lambda>(k, e). ent_face e) old) rs of
        Inl err \<Rightarrow> Fail (BadReplacement err)
      | Inr emptied \<Rightarrow>
          let oldType = (if old = [] then [] else ent_type (snd (last old))) in
          bind_out (each_out (\<lambda>(k, e) m. drop_entity_row k (notify (NoteFaceDelete i (ent_face e)) m)) old m)
            (\<lambda>m1.
              let put = (\<lambda>r m. let row = (fr_entity r)\<lparr>ent_updated := now\<rparr> in
                    emit (entity_event EventEntityUpdated (ent_type row) (ent_id row) (ent_face row))
                      (notify (NotePut row)
                        (add_entity_row (format_state_ref (ent_id row) (ent_face row)) row m)));
                  m2 = fold put rs (notify (NoteLastFaceDelete i) m1)
              in Ok (emit_all (map (\<lambda>p. entity_event EventEntityDeleted oldType i p) emptied) m2)))"

section \<open>Relation writes\<close>

record relation_data =
  rd_props :: "pval dict option"
  rd_content :: string

definition check_data :: "relation_data option \<Rightarrow> text_error option" where
  "check_data data = (case data of None \<Rightarrow> None
     | Some d \<Rightarrow> (case rd_props d of None \<Rightarrow> None | Some p \<Rightarrow> validate_properties p))"

definition create_relation ::
  "int \<Rightarrow> relation_key \<Rightarrow> relation_data option \<Rightarrow> memstore \<Rightarrow> (store_error, relation \<times> memstore) outcome" where
  "create_relation now k data m =
     (case first_error [validate_id (rk_from k), validate_id (rk_to k)] of Some err \<Rightarrow> Fail (BadId err) | None \<Rightarrow>
      case validate_relation_type (rk_type k) of Some err \<Rightarrow> Fail (BadRelationType err) | None \<Rightarrow>
      case check_data data of Some err \<Rightarrow> Fail (BadText err) | None \<Rightarrow>
      let r0 = (new_relation (rk_from k) (rk_type k) (rk_to k))
                 \<lparr>rel_from_face := rk_from_face k, rel_updated := now\<rparr>;
          r = (case data of None \<Rightarrow> r0 | Some d \<Rightarrow> r0\<lparr>rel_content := rd_content d, rel_props := rd_props d\<rparr>);
          key = relation_key r
      in
      if dict_get (ms_relations m) key \<noteq> None then Fail Conflict
      else Ok (r, emit (relation_event EventRelationCreated k) (add_relation_row key r m)))"

definition update_relation ::
  "int \<Rightarrow> relation_key \<Rightarrow> relation_data \<Rightarrow> memstore \<Rightarrow> (store_error, relation \<times> memstore) outcome" where
  "update_relation now k data m =
     (case check_data (Some data) of Some err \<Rightarrow> Fail (BadText err) | None \<Rightarrow>
      let key = relation_key_string k in
      case dict_get (ms_relations m) key of
        None \<Rightarrow> Fail NotFound
      | Some r \<Rightarrow>
          let updated = r\<lparr>rel_content := rd_content data, rel_props := rd_props data, rel_updated := now\<rparr> in
          Ok (updated, emit (relation_event EventRelationUpdated k)
            (m\<lparr>ms_relations := dict_set key updated (ms_relations m)\<rparr>)))"

definition delete_relation :: "relation_key \<Rightarrow> memstore \<Rightarrow> (store_error, memstore) outcome" where
  "delete_relation k m =
     (let key = relation_key_string k in
      if dict_get (ms_relations m) key = None then Fail NotFound
      else bind_out (drop_relation_row key m) (\<lambda>m1. Ok (emit (relation_event EventRelationDeleted k) m1)))"

section \<open>Attachments\<close>

text \<open>The backstop of \<open>CapAttachmentReader\<close>: 64 MiB. \<open>sha\<close> is the hash of the bytes.\<close>

definition max_attachment_bytes :: nat where
  "max_attachment_bytes = 67108864"

definition attach_file ::
  "(string \<Rightarrow> string) \<Rightarrow> string \<Rightarrow> string \<Rightarrow> string \<Rightarrow> string \<Rightarrow> memstore \<Rightarrow> (store_error, memstore) outcome" where
  "attach_file sha i property fileName data m =
     (case validate_property property of Some err \<Rightarrow> Fail (BadProperty err) | None \<Rightarrow>
      case validate_file_name fileName of Some err \<Rightarrow> Fail (BadFileName err) | None \<Rightarrow>
      if max_attachment_bytes < length data then Fail AttachmentTooLarge
      else if family_size (ms_entities m) i = 0 then Fail NotFound
      else Ok (m\<lparr>ms_attachments := dict_set (attachment_key i property fileName)
        \<lparr>at_entity = i, at_property = property, at_file = fileName, at_data = data, at_sha = sha data\<rparr>
        (ms_attachments m)\<rparr>))"

definition read_family_attachment :: "string \<Rightarrow> string \<Rightarrow> string \<Rightarrow> memstore \<Rightarrow> (store_error, string) outcome" where
  "read_family_attachment i property fileName m =
     (case dict_get (ms_attachments m) (attachment_key i property fileName) of
        None \<Rightarrow> Fail NotFound | Some a \<Rightarrow> Ok (at_data a))"

definition delete_attachment :: "string \<Rightarrow> string \<Rightarrow> string \<Rightarrow> memstore \<Rightarrow> (store_error, memstore) outcome" where
  "delete_attachment i property fileName m =
     (let key = attachment_key i property fileName in
      if dict_get (ms_attachments m) key = None then Fail NotFound
      else Ok (m\<lparr>ms_attachments := dict_del key (ms_attachments m)\<rparr>))"

definition list_family_attachments :: "string \<Rightarrow> memstore \<Rightarrow> (store_error, attachment list) outcome" where
  "list_family_attachments i m =
     (if family_size (ms_entities m) i = 0 then Fail NotFound
      else Ok (map snd (filter (\<lambda>(k, a). at_entity a = i) (ms_attachments m))))"

section \<open>Soft delete\<close>

definition mark_deleted ::
  "int \<Rightarrow> string \<Rightarrow> string \<Rightarrow> memstore \<Rightarrow> (store_error, delete_result \<times> memstore) outcome" where
  "mark_deleted now i by_whom m =
     (let ents = family_rows (ms_entities m) i;
          fam = \<lparr>mf_at = now, mf_by = by_whom, mf_entities = ents,
                 mf_relations = filter (\<lambda>(k, r). touches r i) (ms_relations m)\<rparr>;
          faces = sorted_faces ents; rels = sorted_relations (mf_relations fam) in
      if ents = [] then Fail NotFound
      else
        bind_out (each_out (\<lambda>(k, e) m. bind_out (drop_entity_row (format_state_ref (ent_id e) (ent_face e)) m)
            (\<lambda>m. Ok (notify (NoteFaceDelete i (ent_face e)) m))) faces m) (\<lambda>m1.
        bind_out (each_out (\<lambda>r m. drop_relation_row (relation_key r) m) rels
            (notify (NoteLastFaceDelete i) m1)) (\<lambda>m2.
        Ok (\<lparr>dr_entities = map snd faces, dr_relations = rels\<rparr>,
          emit_all (map (\<lambda>(k, e). entity_event EventEntityDeleted (ent_type e) i (ent_face e)) faces @
                    map (\<lambda>r. relation_event EventRelationDeleted (relation_identity r)) rels)
            (m2\<lparr>ms_marked := dict_set i fam (ms_marked m2)\<rparr>)))))"

definition other_end :: "relation \<Rightarrow> string \<Rightarrow> string" where
  "other_end r i = (if rel_from r = i then rel_to r else rel_from r)"

text \<open>One hidden edge of \<open>Unmark\<close>: to the family of an end that is still marked, or back.\<close>

definition unmark_relation :: "string \<Rightarrow> relation \<Rightarrow> memstore \<times> relation list \<Rightarrow> memstore \<times> relation list" where
  "unmark_relation i r st =
     (let (m, restored) = st in
      case dict_get (ms_marked m) (other_end r i) of
        Some other \<Rightarrow>
          (m\<lparr>ms_marked := dict_set (other_end r i)
             (other\<lparr>mf_relations := dict_set (relation_key r) r (mf_relations other)\<rparr>) (ms_marked m)\<rparr>, restored)
      | None \<Rightarrow> (add_relation_row (relation_key r) r m, restored @ [r]))"

definition unmark :: "string \<Rightarrow> memstore \<Rightarrow> (store_error, delete_result \<times> memstore) outcome" where
  "unmark i m =
     (case dict_get (ms_marked m) i of
        None \<Rightarrow> Fail NotFound
      | Some fam \<Rightarrow>
          (let faces = sorted_faces (mf_entities fam);
               m1 = m\<lparr>ms_marked := dict_del i (ms_marked m)\<rparr>;
               m2 = fold (\<lambda>(k, e) m. notify (NotePut e)
                      (add_entity_row (format_state_ref (ent_id e) (ent_face e)) e m)) faces m1;
               (m3, restored) = fold (unmark_relation i) (sorted_relations (mf_relations fam)) (m2, [])
           in Ok (\<lparr>dr_entities = map snd faces, dr_relations = restored\<rparr>,
             emit_all (map (\<lambda>(k, e). entity_event EventEntityCreated (ent_type e) i (ent_face e)) faces @
                       map (\<lambda>r. relation_event EventRelationCreated (relation_identity r)) restored) m3)))"

definition purge_marked :: "string \<Rightarrow> memstore \<Rightarrow> (store_error, delete_result \<times> memstore) outcome" where
  "purge_marked i m =
     (case dict_get (ms_marked m) i of
        None \<Rightarrow> Fail NotFound
      | Some fam \<Rightarrow>
          (let m1 = m\<lparr>ms_marked := dict_del i (ms_marked m)\<rparr>;
               hidden = concat (map (\<lambda>(j, f). map snd (filter (\<lambda>(k, r). touches r i) (mf_relations f)))
                 (ms_marked m1))
           in Ok (\<lparr>dr_entities = map snd (sorted_faces (mf_entities fam)),
                   dr_relations = sorted_relations (mf_relations fam) @ hidden\<rparr>,
             drop_attachments i (drop_marked_edges i m1))))"

record marked_entity =
  me_id :: string
  me_at :: int
  me_by :: string
  me_entities :: "entity list"

definition list_marked :: "memstore \<Rightarrow> marked_entity list" where
  "list_marked m =
     sort_key (\<lambda>x. (me_at x, me_id x)) (map (\<lambda>(i, f). \<lparr>me_id = i, me_at = mf_at f, me_by = mf_by f,
       me_entities = map snd (sorted_faces (mf_entities f))\<rparr>) (ms_marked m))"

definition revealed_relations :: "string list \<Rightarrow> memstore \<Rightarrow> (relation \<Rightarrow> bool) \<Rightarrow> relation list" where
  "revealed_relations revealed m match =
     concat (map (\<lambda>i. case dict_get (ms_marked m) i of None \<Rightarrow> []
       | Some fam \<Rightarrow> filter match (sorted_relations (mf_relations fam))) revealed)"

section \<open>Reads\<close>

definition get_entity :: "ref \<Rightarrow> memstore \<Rightarrow> (store_error, entity) outcome" where
  "get_entity ref m =
     (if \<not> addressable ref then Fail NotFound
      else case dict_get (ms_entities m) (format_state_ref (ref_id ref) (ref_face ref)) of
          None \<Rightarrow> Fail NotFound
        | Some e \<Rightarrow> Ok e)"

definition ent_candidate :: "entity \<Rightarrow> world_candidate" where
  "ent_candidate e = \<lparr>wc_id = ent_id e, wc_type = ent_type e, wc_face = ent_face e\<rparr>"

definition world_keep :: "world_scope \<Rightarrow> entity list \<Rightarrow> entity list" where
  "world_keep w matched =
     (if ws_is_trivial w \<or> matched = [] then matched
      else let primes = world_primes w (map ent_candidate matched)
        in filter (\<lambda>e. dict_get primes (ent_id e) = Some (ent_face e)) matched)"

definition query_matches :: "entity_query \<Rightarrow> entity \<Rightarrow> bool" where
  "query_matches q e = match_entity_query (ent_type e) (ent_id e) (ent_face e) q"

definition rows_in_order :: "memstore \<Rightarrow> entity list" where
  "rows_in_order m = concat (map (\<lambda>k. case dict_get (ms_entities m) k of None \<Rightarrow> [] | Some e \<Rightarrow> [e])
     (ms_entity_order m))"

definition list_entities :: "entity_query \<Rightarrow> memstore \<Rightarrow> (store_error, entity list) outcome" where
  "list_entities q m =
     (case sel_validate (eq_faces q) of Some err \<Rightarrow> Fail (InvalidQuery err) | None \<Rightarrow>
      Ok (world_keep (ranking_world q) (filter (query_matches q) (rows_in_order m))))"

record entity_header =
  eh_id :: string
  eh_type :: string
  eh_face :: face
  eh_props :: "pval dict"
  eh_updated :: int
  eh_redacted :: "string list"
  eh_inaccessible :: "inaccessible_field list"

definition header_of :: "entity \<Rightarrow> entity_header" where
  "header_of e = \<lparr>eh_id = ent_id e, eh_type = ent_type e, eh_face = ent_face e, eh_props = ent_props e,
     eh_updated = ent_updated e, eh_redacted = ent_redacted e, eh_inaccessible = ent_inaccessible e\<rparr>"

definition list_entity_headers :: "entity_query \<Rightarrow> memstore \<Rightarrow> (store_error, entity_header list) outcome" where
  "list_entity_headers q m =
     (case sel_validate (eq_faces q) of Some err \<Rightarrow> Fail (InvalidQuery err) | None \<Rightarrow>
      Ok (map header_of (world_keep (ranking_world q) (filter (query_matches q) (rows_in_order m)))))"

definition list_entities_page :: "entity_query \<Rightarrow> memstore \<Rightarrow> (store_error, entity list \<times> string) outcome" where
  "list_entities_page q m =
     (case sel_validate (eq_faces q) of Some err \<Rightarrow> Fail (InvalidQuery err) | None \<Rightarrow>
      case decode_cursor (eq_cursor q) of None \<Rightarrow> Fail BadCursor | Some cursorKey \<Rightarrow>
      let match = (\<lambda>k. case dict_get (ms_entities m) k of None \<Rightarrow> False | Some e \<Rightarrow> query_matches q e);
          w = ranking_world q;
          keys = (if ws_is_trivial w
            then paginate_sorted_keys_func (ms_entity_order m) cursorKey (eq_limit q) match compare_state_keys
            else paginate_world_primes (ms_entity_order m) cursorKey (eq_limit q) w match
                   (\<lambda>k. map_option ent_candidate (dict_get (ms_entities m) k)))
      in Ok (concat (map (\<lambda>k. case dict_get (ms_entities m) k of None \<Rightarrow> [] | Some e \<Rightarrow> [e]) (pk_keys keys)),
             pk_next keys))"

definition count_entities :: "entity_query \<Rightarrow> memstore \<Rightarrow> (store_error, nat) outcome" where
  "count_entities q m =
     (case sel_validate (eq_faces q) of Some err \<Rightarrow> Fail (InvalidQuery err) | None \<Rightarrow>
      let matched = filter (query_matches q) (map snd (ms_entities m)) in
      if ws_is_trivial (ranking_world q) then Ok (length matched)
      else Ok (length (world_keep (ranking_world q) matched)))"

text \<open>\<open>fmt.Sscanf(s, "%d")\<close>: spaces, a sign, decimal digits; an error outside 64 bits.\<close>

definition sscanf_d :: "string \<Rightarrow> int option" where
  "sscanf_d s0 =
     (let s = dropWhile (\<lambda>c. c = CHR '' '') s0;
          neg = (s \<noteq> [] \<and> hd s = CHR ''-'');
          body = (if s \<noteq> [] \<and> (hd s = CHR ''-'' \<or> hd s = CHR ''+'') then tl s else s);
          ds = takeWhile is_digit body;
          n = (if neg then - int (read_nat ds) else int (read_nat ds)) in
      if ds = [] then None else if - (2 ^ 63) \<le> n \<and> n < 2 ^ 63 then Some n else None)"

definition highest_id :: "string \<Rightarrow> memstore \<Rightarrow> int" where
  "highest_id prefix m =
     (let pfx = prefix @ ''-'';
          ids = map (\<lambda>(k, e). ent_id e) (ms_entities m) @ map fst (ms_marked m) in
      fold (\<lambda>i highest.
        if has_prefix i pfx then
          (case sscanf_d (drop (length pfx) i) of
             Some n \<Rightarrow> if highest < n then n else highest
           | None \<Rightarrow> highest)
        else highest) ids 0)"

definition last_modified :: "memstore \<Rightarrow> int" where
  "last_modified m =
     fold (\<lambda>t newest. if newest < t then t else newest)
       (map (\<lambda>(k, e). ent_updated e) (ms_entities m) @ map (\<lambda>(k, r). rel_updated r) (ms_relations m)) 0"

definition compare_refs :: "ref \<Rightarrow> ref \<Rightarrow> int" where
  "compare_refs a b =
     (let c = str_compare (ref_id a) (ref_id b) in
      if c \<noteq> 0 then c else str_compare (ref_face a) (ref_face b))"

text \<open>\<open>targets\<close> is \<open>mentions.Targets\<close>: the sorted ids a body mentions.\<close>

definition mention_sources ::
  "(string \<Rightarrow> string list) \<Rightarrow> string \<Rightarrow> ref \<Rightarrow> int \<Rightarrow> memstore \<Rightarrow> (store_error, ref list) outcome" where
  "mention_sources targets target after limit m =
     (if limit \<le> 0 then Fail InvalidLimit
      else Ok (take (nat limit) (sort_key (\<lambda>r. (ref_id r, ref_face r))
        (map entity_ref (filter (\<lambda>e.
            \<not> (ref_id after \<noteq> [] \<and> compare_refs (entity_ref e) after \<le> 0) \<and>
            snd (binary_search_func str_compare (targets (ent_content e)) target))
          (map snd (ms_entities m)))))))"

text \<open>\<open>revealed\<close> are the ids the request context reveals.\<close>

definition reveals :: "string list \<Rightarrow> string \<Rightarrow> bool" where
  "reveals revealed i \<longleftrightarrow> i \<noteq> [] \<and> i \<in> set revealed"

definition get_relation :: "string list \<Rightarrow> relation_key \<Rightarrow> memstore \<Rightarrow> (store_error, relation) outcome" where
  "get_relation revealed k m =
     (let key = relation_key_string k in
      case dict_get (ms_relations m) key of
        Some r \<Rightarrow> Ok r
      | None \<Rightarrow>
          if reveals revealed (rk_from k) \<or> reveals revealed (rk_to k) then
            (case revealed_relations revealed m (\<lambda>h. relation_key h = key) of
               h # _ \<Rightarrow> Ok h
             | [] \<Rightarrow> Fail NotFound)
          else Fail NotFound)"

text \<open>A key of the relation order without a relation is a nil dereference.\<close>

fun relations_at :: "relation dict \<Rightarrow> string list \<Rightarrow> (store_error, relation list) outcome" where
  "relations_at d [] = Ok []"
| "relations_at d (k # ks) =
     bind_out (panic_none (dict_get d k)) (\<lambda>r. bind_out (relations_at d ks) (\<lambda>rs. Ok (r # rs)))"

definition list_relations :: "string list \<Rightarrow> relation_query \<Rightarrow> memstore \<Rightarrow> (store_error, relation list) outcome" where
  "list_relations revealed q m =
     bind_out (relations_at (ms_relations m) (ms_relation_order m)) (\<lambda>rs.
       Ok (filter (\<lambda>r. match_relation r q) rs @
           (if reveals revealed (rq_entity q) then revealed_relations revealed m (\<lambda>r. match_relation r q)
            else [])))"

definition count_relations :: "relation_query \<Rightarrow> memstore \<Rightarrow> (store_error, nat) outcome" where
  "count_relations q m =
     bind_out (relations_at (ms_relations m) (ms_relation_order m)) (\<lambda>rs.
       Ok (length (filter (\<lambda>r. match_relation r q) rs)))"

definition list_relations_page :: "relation_query \<Rightarrow> memstore \<Rightarrow> (store_error, relation list \<times> string) outcome" where
  "list_relations_page q m =
     (case decode_cursor (rq_cursor q) of None \<Rightarrow> Fail BadCursor | Some cursorKey \<Rightarrow>
      let keys = paginate_sorted_keys (ms_relation_order m) cursorKey (rq_limit q)
            (\<lambda>k. case dict_get (ms_relations m) k of None \<Rightarrow> False | Some r \<Rightarrow> match_relation r q)
      in Ok (concat (map (\<lambda>k. case dict_get (ms_relations m) k of None \<Rightarrow> [] | Some r \<Rightarrow> [r]) (pk_keys keys)),
             pk_next keys))"

end
