(* ===== verification/Memstore_Inv.thy ===== *)
theory Memstore_Inv
  imports Memstore
begin

text \<open>
  The invariant of the in-memory store and its preservation. The sorted slices are in lockstep
  with the maps, every map entry sits under its own key, edges join existing entities, hidden
  edges existing or hidden ones, attachments belong to one of the two, and no two ids of either
  kind differ only in letter case. The lemmas go operation by operation: each loop of a handler
  has one lemma, and each handler one that puts the loops together.
\<close>

section \<open>Maps keyed by a function of the value\<close>

definition vals :: "'a dict \<Rightarrow> 'a set" where
  "vals d = snd ` set d"

definition keyed :: "('a \<Rightarrow> string) \<Rightarrow> 'a dict \<Rightarrow> bool" where
  "keyed f d \<longleftrightarrow> dict_ok d \<and> (\<forall>(k, v)\<in>set d. k = f v)"

named_theorems store_frame \<open>fields that an operation on rows, notices or events leaves alone\<close>

lemma keyed_Nil [simp]: "keyed f []" and vals_Nil [simp]: "vals [] = {}"
  by (simp_all add: keyed_def vals_def)

lemma keyed_mem: "keyed f d \<Longrightarrow> (k, v) \<in> set d \<longleftrightarrow> k = f v \<and> v \<in> vals d"
  unfolding keyed_def vals_def by (force intro: rev_image_eqI)

lemma keyed_get: "keyed f d \<Longrightarrow> dict_get d k = Some v \<longleftrightarrow> k = f v \<and> v \<in> vals d"
  using dict_in_get [of d k v] keyed_mem [of f d k v] by (simp add: keyed_def)

lemma keyed_inj: "keyed f d \<Longrightarrow> v \<in> vals d \<Longrightarrow> w \<in> vals d \<Longrightarrow> f v = f w \<Longrightarrow> v = w"
  by (metis keyed_get option.inject)

lemma keyed_keys: "keyed f d \<Longrightarrow> dict_keys d = f ` vals d"
  by (force simp: keyed_def vals_def dict_keys_def)

lemma keyed_None: "keyed f d \<Longrightarrow> dict_get d k = None \<longleftrightarrow> k \<notin> f ` vals d"
  by (simp add: dict_get_None keyed_keys)

lemma keyed_set:
  assumes "keyed f d"
  shows "keyed f (dict_set (f v) v d)" and "vals (dict_set (f v) v d) = insert v {w \<in> vals d. f w \<noteq> f v}"
proof -
  have s: "set (dict_set (f v) v d) = insert (f v, v) {x \<in> set d. fst x \<noteq> f v}"
    using assms by (simp add: keyed_def dict_set_set)
  show "keyed f (dict_set (f v) v d)" using assms by (auto simp: keyed_def s)
  show "vals (dict_set (f v) v d) = insert v {w \<in> vals d. f w \<noteq> f v}"
    using assms unfolding vals_def s by (force simp: keyed_def)
qed

lemma keyed_new:
  assumes "keyed f d" and "f v \<notin> f ` vals d"
  shows "vals (dict_set (f v) v d) = insert v (vals d)"
proof -
  have "f w \<noteq> f v" if "w \<in> vals d" for w using assms(2) that by (metis imageI)
  then have "{w \<in> vals d. f w \<noteq> f v} = vals d" by blast
  then show ?thesis by (simp add: keyed_set(2) [OF assms(1)])
qed

lemma keyed_update:
  assumes "keyed f d" and "v \<in> vals d" and k: "f v' = f v"
  shows "keyed f (dict_set (f v) v' d)" and "vals (dict_set (f v) v' d) = insert v' (vals d - {v})"
proof -
  have "{w \<in> vals d. f w \<noteq> f v} = vals d - {v}" using keyed_inj [OF assms(1)] assms(2) by blast
  then show "keyed f (dict_set (f v) v' d)" and "vals (dict_set (f v) v' d) = insert v' (vals d - {v})"
    using keyed_set [OF assms(1), of v'] by (simp_all add: k)
qed

lemma keyed_del:
  assumes "keyed f d"
  shows "keyed f (dict_del k d)" and "vals (dict_del k d) = {w \<in> vals d. f w \<noteq> k}"
  using assms unfolding vals_def by (force simp: keyed_def dict_set_del)+

lemma keyed_filter:
  assumes "keyed f d"
  shows "keyed f (filter (\<lambda>(k, v). P v) d)" and "vals (filter (\<lambda>(k, v). P v) d) = {v \<in> vals d. P v}"
  using assms unfolding vals_def by (force simp: keyed_def dict_ok_def distinct_map_filter)+

lemma keyed_vals_distinct: "keyed f d \<Longrightarrow> distinct (map snd d)"
  unfolding keyed_def dict_ok_def distinct_map inj_on_def
  by (auto simp: distinct_map) (metis (mono_tags, lifting) case_prodD prod.collapse)

section \<open>Rows and their index\<close>

definition entity_index :: "entity dict \<Rightarrow> string list \<Rightarrow> bool" where
  "entity_index d ord \<longleftrightarrow> keyed entity_key d \<and> (\<forall>e\<in>vals d. validate_id (ent_id e) = None) \<and>
     key_index ord \<and> set ord = entity_key ` vals d"

definition relation_index :: "relation dict \<Rightarrow> string list \<Rightarrow> bool" where
  "relation_index d ord \<longleftrightarrow> keyed relation_key d \<and> plain_index ord \<and> set ord = relation_key ` vals d"

lemma entity_key_state: "validate_id (ent_id e) = None \<Longrightarrow> is_state_key (entity_key e)"
  using is_state_key_format [of "ent_id e" "ent_face e"] id_no_at [of "ent_id e"] id_start [of "ent_id e"]
  by (simp add: entity_key_def)

lemma entity_key_inject:
  "validate_id (ent_id e) = None \<Longrightarrow> validate_id (ent_id f) = None \<Longrightarrow>
   entity_key e = entity_key f \<longleftrightarrow> ent_id e = ent_id f \<and> ent_face e = ent_face f"
  by (simp add: entity_key_def format_state_ref_inject id_no_at)

lemma entity_ref_key: "entity_ref f = entity_ref e \<Longrightarrow> entity_key f = entity_key e"
  by (simp add: entity_ref_def entity_key_def)

lemma entity_index_add:
  assumes ix: "entity_index d ord" and v: "validate_id (ent_id e) = None" and new: "entity_key e \<notin> entity_key ` vals d"
  shows "entity_index (dict_set (entity_key e) e d) (entity_insert ord (entity_key e))"
    and "vals (dict_set (entity_key e) e d) = insert e (vals d)"
proof -
  have k: "keyed entity_key d" using ix by (simp add: entity_index_def)
  note s = keyed_set [OF k, of e]
  show vs: "vals (dict_set (entity_key e) e d) = insert e (vals d)" by (rule keyed_new [OF k new])
  show "entity_index (dict_set (entity_key e) e d) (entity_insert ord (entity_key e))"
    using ix s(1) v new key_index_insert [of ord "entity_key e"] entity_key_state [OF v]
    unfolding entity_index_def entity_insert_def vs by auto
qed

lemma entity_index_drop:
  assumes ix: "entity_index d ord" and e: "e \<in> vals d"
  obtains ord' where "entity_remove ord (entity_key e) = Some ord'"
    and "entity_index (dict_del (entity_key e) d) ord'" and "vals (dict_del (entity_key e) d) = vals d - {e}"
proof -
  have k: "keyed entity_key d" and o: "key_index ord" "entity_key e \<in> set ord"
    using ix e by (auto simp: entity_index_def)
  have vs: "vals (dict_del (entity_key e) d) = vals d - {e}"
    using keyed_del(2) [OF k] keyed_inj [OF k] e by auto
  from key_index_remove [OF o] obtain ord' where
    r: "entity_remove ord (entity_key e) = Some ord'" "key_index ord'" "set ord' = set ord - {entity_key e}"
    by (auto simp: entity_remove_def)
  have "entity_key ` vals d - {entity_key e} = entity_key ` (vals d - {e})"
    using keyed_inj [OF k] e by blast
  then have "entity_index (dict_del (entity_key e) d) ord'"
    using ix r keyed_del(1) [OF k] unfolding entity_index_def vs by auto
  with r vs that show thesis by blast
qed

lemma entity_index_update:
  assumes ix: "entity_index d ord" and e: "e \<in> vals d" and k: "entity_key e' = entity_key e"
    and v: "validate_id (ent_id e') = None"
  shows "entity_index (dict_set (entity_key e) e' d) ord"
    and "vals (dict_set (entity_key e) e' d) = insert e' (vals d - {e})"
proof -
  have kd: "keyed entity_key d" using ix by (simp add: entity_index_def)
  show vs: "vals (dict_set (entity_key e) e' d) = insert e' (vals d - {e})"
    by (rule keyed_update(2) [OF kd e k])
  have "entity_key ` insert e' (vals d - {e}) = entity_key ` vals d" using e k by auto
  then show "entity_index (dict_set (entity_key e) e' d) ord"
    using ix v keyed_update(1) [OF kd e k] unfolding entity_index_def vs by auto
qed

lemma relation_index_add:
  assumes ix: "relation_index d ord" and new: "relation_key r \<notin> relation_key ` vals d"
  shows "relation_index (dict_set (relation_key r) r d) (sorted_insert ord (relation_key r))"
    and "vals (dict_set (relation_key r) r d) = insert r (vals d)"
proof -
  have k: "keyed relation_key d" using ix by (simp add: relation_index_def)
  note s = keyed_set [OF k, of r]
  show vs: "vals (dict_set (relation_key r) r d) = insert r (vals d)" by (rule keyed_new [OF k new])
  show "relation_index (dict_set (relation_key r) r d) (sorted_insert ord (relation_key r))"
    using ix s(1) new plain_index_insert [of ord "relation_key r"]
    unfolding relation_index_def vs by auto
qed

lemma relation_index_drop:
  assumes ix: "relation_index d ord" and r: "r \<in> vals d"
  obtains ord' where "sorted_remove ord (relation_key r) = Some ord'"
    and "relation_index (dict_del (relation_key r) d) ord'"
    and "vals (dict_del (relation_key r) d) = vals d - {r}"
proof -
  have k: "keyed relation_key d" and o: "plain_index ord" "relation_key r \<in> set ord"
    using ix r by (auto simp: relation_index_def)
  have vs: "vals (dict_del (relation_key r) d) = vals d - {r}"
    using keyed_del(2) [OF k] keyed_inj [OF k] r by auto
  from plain_index_remove [OF o] obtain ord' where
    rm: "sorted_remove ord (relation_key r) = Some ord'" "plain_index ord'" "set ord' = set ord - {relation_key r}"
    by auto
  have "relation_key ` vals d - {relation_key r} = relation_key ` (vals d - {r})"
    using keyed_inj [OF k] r by blast
  then have "relation_index (dict_del (relation_key r) d) ord'"
    using ix rm keyed_del(1) [OF k] unfolding relation_index_def vs by auto
  with rm vs that show thesis by blast
qed

lemma relation_index_update:
  assumes ix: "relation_index d ord" and r: "r \<in> vals d" and k: "relation_key r' = relation_key r"
  shows "relation_index (dict_set (relation_key r) r' d) ord"
    and "vals (dict_set (relation_key r) r' d) = insert r' (vals d - {r})"
proof -
  have kd: "keyed relation_key d" using ix by (simp add: relation_index_def)
  show vs: "vals (dict_set (relation_key r) r' d) = insert r' (vals d - {r})"
    by (rule keyed_update(2) [OF kd r k])
  have "relation_key ` insert r' (vals d - {r}) = relation_key ` vals d" using r k by auto
  then show "relation_index (dict_set (relation_key r) r' d) ord"
    using ix keyed_update(1) [OF kd r k] unfolding relation_index_def vs by auto
qed

section \<open>The invariant\<close>

definition ents :: "memstore \<Rightarrow> entity set" where
  "ents m = vals (ms_entities m)"

definition rels :: "memstore \<Rightarrow> relation set" where
  "rels m = vals (ms_relations m)"

definition ids :: "memstore \<Rightarrow> string set" where
  "ids m = ent_id ` ents m"

text \<open>An edge between ids of a set, under a key that identifies it.\<close>

definition edge_ok :: "string set \<Rightarrow> relation \<Rightarrow> bool" where
  "edge_ok U r \<longleftrightarrow> canonical_key (relation_identity r) \<and> rel_from r \<in> U \<and> rel_to r \<in> U"

definition marked_ok :: "string set \<Rightarrow> string \<Rightarrow> marked_family \<Rightarrow> bool" where
  "marked_ok U i f \<longleftrightarrow> keyed entity_key (mf_entities f) \<and> validate_id i = None \<and>
     (\<forall>e\<in>vals (mf_entities f). ent_id e = i) \<and> vals (mf_entities f) \<noteq> {} \<and>
     keyed relation_key (mf_relations f) \<and> (\<forall>r\<in>vals (mf_relations f). edge_ok U r \<and> touches r i)"

definition att_key :: "attachment \<Rightarrow> string" where
  "att_key a = attachment_key (at_entity a) (at_property a) (at_file a)"

text \<open>What ties ids, edges, hidden families and attachments together.\<close>

definition links :: "string set \<Rightarrow> relation set \<Rightarrow> marked_family dict \<Rightarrow> attachment dict \<Rightarrow> bool" where
  "links I R mk at \<longleftrightarrow>
     inj_on fold_id (I \<union> dict_keys mk) \<and> I \<inter> dict_keys mk = {} \<and>
     (\<forall>r\<in>R. edge_ok I r) \<and>
     dict_ok mk \<and> (\<forall>(i, f)\<in>set mk. marked_ok (I \<union> dict_keys mk) i f) \<and>
     keyed att_key at \<and> (\<forall>a\<in>vals at. at_entity a \<in> I \<union> dict_keys mk)"

definition sound :: "memstore \<Rightarrow> bool" where
  "sound m \<longleftrightarrow>
     entity_index (ms_entities m) (ms_entity_order m) \<and>
     relation_index (ms_relations m) (ms_relation_order m) \<and>
     links (ids m) (rels m) (ms_marked m) (ms_attachments m)"

lemma sound_new_store: "sound new_store"
  by (simp add: sound_def new_store_def entity_index_def relation_index_def links_def ids_def ents_def
      rels_def key_index_def plain_index_def in_order_def dict_simps)

section \<open>Frames\<close>

lemma notify_frame [store_frame]:
  "ms_entities (notify n m) = ms_entities m" "ms_entity_order (notify n m) = ms_entity_order m"
  "ms_relations (notify n m) = ms_relations m" "ms_relation_order (notify n m) = ms_relation_order m"
  "ms_attachments (notify n m) = ms_attachments m" "ms_marked (notify n m) = ms_marked m"
  by (simp_all add: notify_def)

lemma emit_frame [store_frame]:
  "ms_entities (emit n m) = ms_entities m" "ms_entity_order (emit n m) = ms_entity_order m"
  "ms_relations (emit n m) = ms_relations m" "ms_relation_order (emit n m) = ms_relation_order m"
  "ms_attachments (emit n m) = ms_attachments m" "ms_marked (emit n m) = ms_marked m"
  by (simp_all add: emit_def)

text \<open>The part of the state that the invariant is about.\<close>

definition data :: "memstore \<Rightarrow>
    (entity dict \<times> string list) \<times> (relation dict \<times> string list) \<times> attachment dict \<times> marked_family dict" where
  "data m = ((ms_entities m, ms_entity_order m), (ms_relations m, ms_relation_order m),
     ms_attachments m, ms_marked m)"

lemma data_notify [simp]: "data (notify n m) = data m"
  and data_emit [simp]: "data (emit ev m) = data m"
  by (simp_all add: data_def store_frame)

lemma data_emit_all [simp]: "data (emit_all evs m) = data m"
  unfolding emit_all_def by (induction evs arbitrary: m) simp_all

lemma data_fold_notify [simp]: "data (fold (\<lambda>x. notify (g x)) xs m) = data m"
  by (induction xs arbitrary: m) simp_all

lemma data_eqD:
  "data m = data n \<Longrightarrow> ms_entities m = ms_entities n \<and> ms_entity_order m = ms_entity_order n \<and>
     ms_relations m = ms_relations n \<and> ms_relation_order m = ms_relation_order n \<and>
     ms_attachments m = ms_attachments n \<and> ms_marked m = ms_marked n"
  by (simp add: data_def)

lemma sound_data: "data m = data n \<Longrightarrow> sound m \<longleftrightarrow> sound n"
  by (simp add: data_def sound_def ids_def ents_def rels_def)

lemma sets_data: "data m = data n \<Longrightarrow> ents m = ents n \<and> rels m = rels n \<and> ids m = ids n"
  by (simp add: data_def ids_def ents_def rels_def)

text \<open>A sound state with the given entities and relations.\<close>

definition leaves :: "entity set \<Rightarrow> relation set \<Rightarrow> memstore \<Rightarrow> bool" where
  "leaves E R m \<longleftrightarrow> sound m \<and> ents m = E \<and> rels m = R"

lemma leaves_data: "data m = data n \<Longrightarrow> leaves E R m \<longleftrightarrow> leaves E R n"
  using sound_data [of m n] sets_data [of m n] by (simp add: leaves_def)

lemma leaves_sound: "leaves E R m \<Longrightarrow> sound m"
  by (simp add: leaves_def)

text \<open>The half of the state without the entities, and the half without the relations.\<close>

definition edge_part :: "memstore \<Rightarrow> relation dict \<times> string list \<times> attachment dict \<times> marked_family dict" where
  "edge_part m = (ms_relations m, ms_relation_order m, ms_attachments m, ms_marked m)"

definition node_part :: "memstore \<Rightarrow> entity dict \<times> string list \<times> attachment dict \<times> marked_family dict" where
  "node_part m = (ms_entities m, ms_entity_order m, ms_attachments m, ms_marked m)"

abbreviation nodes_ok :: "memstore \<Rightarrow> bool" where
  "nodes_ok m \<equiv> entity_index (ms_entities m) (ms_entity_order m)"

abbreviation edges_ok :: "memstore \<Rightarrow> bool" where
  "edges_ok m \<equiv> relation_index (ms_relations m) (ms_relation_order m)"

lemma part_data:
  "data m = data n \<Longrightarrow> edge_part m = edge_part n \<and> node_part m = node_part n"
  by (simp add: data_def edge_part_def node_part_def)

section \<open>The loops of the handlers\<close>

lemma drop_entity_row_ok:
  assumes "nodes_ok m" and "e \<in> ents m"
  obtains m' where "drop_entity_row (entity_key e) m = Ok m'" and "nodes_ok m'" and "ents m' = ents m - {e}"
    and "edge_part m' = edge_part m"
proof -
  from entity_index_drop [OF assms(1), of e] assms(2) obtain ord where
    "entity_remove (ms_entity_order m) (entity_key e) = Some ord"
    "entity_index (dict_del (entity_key e) (ms_entities m)) ord"
    "vals (dict_del (entity_key e) (ms_entities m)) = vals (ms_entities m) - {e}"
    by (auto simp: ents_def)
  then show thesis
    by (intro that [of "m\<lparr>ms_entities := dict_del (entity_key e) (ms_entities m), ms_entity_order := ord\<rparr>"])
      (simp_all add: drop_entity_row_def ents_def edge_part_def)
qed

lemma drop_relation_row_ok:
  assumes "edges_ok m" and "r \<in> rels m"
  obtains m' where "drop_relation_row (relation_key r) m = Ok m'" and "edges_ok m'" and "rels m' = rels m - {r}"
    and "node_part m' = node_part m"
proof -
  from relation_index_drop [OF assms(1), of r] assms(2) obtain ord where
    "sorted_remove (ms_relation_order m) (relation_key r) = Some ord"
    "relation_index (dict_del (relation_key r) (ms_relations m)) ord"
    "vals (dict_del (relation_key r) (ms_relations m)) = vals (ms_relations m) - {r}"
    by (auto simp: rels_def)
  then show thesis
    by (intro that [of "m\<lparr>ms_relations := dict_del (relation_key r) (ms_relations m), ms_relation_order := ord\<rparr>"])
      (simp_all add: drop_relation_row_def rels_def node_part_def)
qed

lemma drop_relations_loop:
  "edges_ok m \<Longrightarrow> distinct rs \<Longrightarrow> set rs \<subseteq> rels m \<Longrightarrow>
   \<exists>m'. each_out (\<lambda>r m. drop_relation_row (relation_key r) m) rs m = Ok m' \<and> edges_ok m' \<and>
     rels m' = rels m - set rs \<and> node_part m' = node_part m"
proof (induction rs arbitrary: m)
  case (Cons r rs)
  then obtain m1 where m1: "drop_relation_row (relation_key r) m = Ok m1" "edges_ok m1"
    "rels m1 = rels m - {r}" "node_part m1 = node_part m"
    using drop_relation_row_ok [of m r] by auto
  have "set rs \<subseteq> rels m1" using Cons.prems m1(3) by auto
  from Cons.IH [OF m1(2) _ this] Cons.prems m1 show ?case by auto
qed simp

text \<open>Loops over entity rows, with a notice before or after each removal.\<close>

lemma drop_entities_loop:
  assumes step: "\<And>e m m'. e \<in> set es \<Longrightarrow> drop_entity_row (entity_key e) m = Ok m' \<Longrightarrow>
      f e m = Ok (notify (g e) m')"
  shows "nodes_ok m \<Longrightarrow> distinct es \<Longrightarrow> set es \<subseteq> ents m \<Longrightarrow>
   \<exists>m'. each_out f es m = Ok m' \<and> nodes_ok m' \<and> ents m' = ents m - set es \<and> edge_part m' = edge_part m"
  using step
proof (induction es arbitrary: m)
  case (Cons e es)
  have e: "e \<in> ents m" using Cons.prems(3) by simp
  from drop_entity_row_ok [OF Cons.prems(1) e] obtain m1 where m1:
    "drop_entity_row (entity_key e) m = Ok m1" "nodes_ok m1"
    "ents m1 = ents m - {e}" "edge_part m1 = edge_part m" by blast
  let ?m1 = "notify (g e) m1"
  have d: "data ?m1 = data m1" by simp
  have n1: "nodes_ok ?m1" using m1(2) by (simp add: store_frame)
  have e1: "ents ?m1 = ents m - {e}" "edge_part ?m1 = edge_part m"
    using sets_data [OF d] part_data [OF d] m1 by auto
  then have "set es \<subseteq> ents ?m1" using Cons.prems by auto
  from Cons.IH [OF n1 _ this] Cons.prems(2,4) obtain m' where
    "each_out f es ?m1 = Ok m'" "nodes_ok m'" "ents m' = ents ?m1 - set es" "edge_part m' = edge_part ?m1"
    by auto
  moreover have "f e m = Ok ?m1" using Cons.prems(4) [of e m m1] m1(1) by simp
  ultimately show ?case using e1 by auto
qed simp

lemma add_relations_loop:
  "edges_ok m \<Longrightarrow> distinct (map relation_key rs) \<Longrightarrow> relation_key ` set rs \<inter> relation_key ` rels m = {} \<Longrightarrow>
   edges_ok (fold (\<lambda>r. add_relation_row (relation_key r) r) rs m) \<and>
   rels (fold (\<lambda>r. add_relation_row (relation_key r) r) rs m) = rels m \<union> set rs \<and>
   node_part (fold (\<lambda>r. add_relation_row (relation_key r) r) rs m) = node_part m"
proof (induction rs arbitrary: m)
  case (Cons r rs)
  let ?m = "add_relation_row (relation_key r) r m"
  have new: "relation_key r \<notin> relation_key ` vals (ms_relations m)" using Cons.prems(3) by (auto simp: rels_def)
  have 1: "edges_ok ?m" "rels ?m = insert r (rels m)" "node_part ?m = node_part m"
    using relation_index_add [OF Cons.prems(1) new]
    by (simp_all add: add_relation_row_def rels_def node_part_def)
  have 2: "relation_key ` set rs \<inter> relation_key ` rels ?m = {}" using Cons.prems(2,3) 1(2) by auto
  from Cons.IH [OF 1(1) _ 2] Cons.prems(2) 1 show ?case by auto
qed simp

lemma add_entity_row_ok:
  assumes "nodes_ok m" and "validate_id (ent_id e) = None" and "entity_key e \<notin> entity_key ` ents m"
  shows "nodes_ok (add_entity_row (entity_key e) e m)"
    and "ents (add_entity_row (entity_key e) e m) = insert e (ents m)"
    and "edge_part (add_entity_row (entity_key e) e m) = edge_part m"
  using entity_index_add [OF assms(1,2)] assms(3)
  by (simp_all add: add_entity_row_def ents_def edge_part_def)

lemma add_entities_loop:
  assumes step: "\<And>e m. e \<in> set es \<Longrightarrow> data (f e m) = data (add_entity_row (entity_key (h e)) (h e) m)"
  shows "nodes_ok m \<Longrightarrow> distinct (map (\<lambda>e. entity_key (h e)) es) \<Longrightarrow>
   (\<forall>e\<in>set es. validate_id (ent_id (h e)) = None \<and> entity_key (h e) \<notin> entity_key ` ents m) \<Longrightarrow>
   nodes_ok (fold f es m) \<and> ents (fold f es m) = ents m \<union> h ` set es \<and> edge_part (fold f es m) = edge_part m"
  using step
proof (induction es arbitrary: m)
  case (Cons e es)
  let ?m = "add_entity_row (entity_key (h e)) (h e) m"
  have d: "data (f e m) = data ?m" using Cons.prems(4) by simp
  note a = add_entity_row_ok [OF Cons.prems(1), of "h e"]
  have 1: "nodes_ok (f e m)" "ents (f e m) = insert (h e) (ents m)" "edge_part (f e m) = edge_part m"
    using a Cons.prems(3) data_eqD [OF d] sets_data [OF d] part_data [OF d] by auto
  have "\<forall>x\<in>set es. validate_id (ent_id (h x)) = None \<and> entity_key (h x) \<notin> entity_key ` ents (f e m)"
    using Cons.prems(2,3) 1(2) by (fastforce simp: image_iff)
  from Cons.IH [OF 1(1) _ this] Cons.prems(2,4) 1 show ?case by auto
qed simp

section \<open>Safe outcomes\<close>

definition safely :: "('a \<Rightarrow> bool) \<Rightarrow> ('e, 'a) outcome \<Rightarrow> bool" where
  "safely P out = (case out of Ok x \<Rightarrow> P x | Fail e \<Rightarrow> True | Panic \<Rightarrow> False)"

lemma safely_simps [simp]: "safely P (Ok x) = P x" "safely P (Fail e)" "\<not> safely P Panic"
  by (simp_all add: safely_def)

section \<open>What the links need from an operation\<close>

lemma edge_ok_mono: "edge_ok U r \<Longrightarrow> U \<subseteq> V \<Longrightarrow> edge_ok V r"
  by (auto simp: edge_ok_def)

lemma edge_ok_restrict: "edge_ok U r \<Longrightarrow> \<not> touches r i \<Longrightarrow> edge_ok (U - {i}) r"
  by (auto simp: edge_ok_def touches_def)

lemma marked_ok_mono: "marked_ok U i f \<Longrightarrow> U \<subseteq> V \<Longrightarrow> marked_ok V i f"
  by (auto simp: marked_ok_def intro: edge_ok_mono)

lemma links_edges: "links I R mk at \<Longrightarrow> \<forall>r\<in>R'. edge_ok I r \<Longrightarrow> links I R' mk at"
  by (simp add: links_def)

lemma links_add_id:
  assumes "links I R mk at" and "\<forall>j\<in>I \<union> dict_keys mk. fold_id j = fold_id i \<longrightarrow> j = i" and "i \<notin> dict_keys mk"
  shows "links (insert i I) R mk at"
proof -
  have "inj_on fold_id (insert i (I \<union> dict_keys mk))"
    using assms(1,2) unfolding links_def by (auto simp: inj_on_insert)
  then show ?thesis
    using assms(1,3) unfolding links_def
    by (auto intro: edge_ok_mono marked_ok_mono)
qed

lemma edge_keys_inject:
  "edge_ok U r \<Longrightarrow> edge_ok V q \<Longrightarrow> relation_key r = relation_key q \<longleftrightarrow> relation_identity r = relation_identity q"
  by (auto simp: relation_key_def edge_ok_def dest: relation_key_inject)

text \<open>The map of hidden families after \<open>dropMarkedEdges\<close>.\<close>

definition without_edges :: "string \<Rightarrow> marked_family dict \<Rightarrow> marked_family dict" where
  "without_edges i mk = map (\<lambda>(j, f).
     (j, f\<lparr>mf_relations := filter (\<lambda>(k, r). \<not> touches r i) (mf_relations f)\<rparr>)) mk"

lemma without_edges_keys [simp]: "dict_keys (without_edges i mk) = dict_keys mk"
  by (force simp: without_edges_def dict_keys_def)

lemma without_edges_ok [simp]: "dict_ok (without_edges i mk) = dict_ok mk"
  by (simp add: without_edges_def dict_ok_def comp_def split_beta)

lemma without_edges_marked:
  assumes "\<forall>(j, f)\<in>set mk. marked_ok U j f"
  shows "\<forall>(j, f)\<in>set (without_edges i mk). marked_ok (U - {i}) j f"
proof -
  have "marked_ok (U - {i}) j (f\<lparr>mf_relations := filter (\<lambda>(k, r). \<not> touches r i) (mf_relations f)\<rparr>)"
    if "(j, f) \<in> set mk" for j f
  proof -
    have "marked_ok U j f" using assms that by auto
    then show ?thesis
      using keyed_filter [of relation_key "mf_relations f" "\<lambda>r. \<not> touches r i"]
      by (auto simp: marked_ok_def edge_ok_restrict)
  qed
  then show ?thesis by (auto simp: without_edges_def)
qed

lemma drop_marked_edges_frame [store_frame]:
  "ms_entities (drop_marked_edges i m) = ms_entities m"
  "ms_entity_order (drop_marked_edges i m) = ms_entity_order m"
  "ms_relations (drop_marked_edges i m) = ms_relations m"
  "ms_relation_order (drop_marked_edges i m) = ms_relation_order m"
  "ms_attachments (drop_marked_edges i m) = ms_attachments m"
  "ms_marked (drop_marked_edges i m) = without_edges i (ms_marked m)"
  by (simp_all add: drop_marked_edges_def without_edges_def)

lemma drop_attachments_frame [store_frame]:
  "ms_entities (drop_attachments i m) = ms_entities m"
  "ms_entity_order (drop_attachments i m) = ms_entity_order m"
  "ms_relations (drop_attachments i m) = ms_relations m"
  "ms_relation_order (drop_attachments i m) = ms_relation_order m"
  "ms_attachments (drop_attachments i m) = filter (\<lambda>(k, a). at_entity a \<noteq> i) (ms_attachments m)"
  "ms_marked (drop_attachments i m) = ms_marked m"
  by (simp_all add: drop_attachments_def)

lemma links_remove_id:
  assumes l: "links I R mk at" and i: "i \<in> I"
  shows "links (I - {i}) {r \<in> R. \<not> touches r i} (without_edges i mk)
    (filter (\<lambda>(k, a). at_entity a \<noteq> i) at)"
proof -
  have nm: "i \<notin> dict_keys mk" and k: "keyed att_key at" using l i by (auto simp: links_def)
  have "\<forall>(j, f)\<in>set mk. marked_ok (I \<union> dict_keys mk) j f" using l by (simp add: links_def)
  from without_edges_marked [OF this, of i] nm
  have "\<forall>(j, f)\<in>set (without_edges i mk). marked_ok (I - {i} \<union> dict_keys mk) j f"
    by (simp add: Un_Diff)
  moreover have "inj_on fold_id (I - {i} \<union> dict_keys mk)"
    using l unfolding links_def by (auto intro: inj_on_subset)
  ultimately show ?thesis
    using l keyed_filter [OF k, of "\<lambda>a. at_entity a \<noteq> i"] edge_ok_restrict
    unfolding links_def by auto
qed

section \<open>Creating and updating\<close>

lemma not_id_taken: "\<not> id_taken d i [] \<longleftrightarrow> (\<forall>e\<in>vals d. fold_id (ent_id e) \<noteq> fold_id i)"
  by (auto simp: id_taken_def list_ex_iff vals_def)

lemma not_marked_taken: "\<not> marked_taken mk i [] \<longleftrightarrow> (\<forall>j\<in>dict_keys mk. fold_id j \<noteq> fold_id i)"
  by (auto simp: marked_taken_def list_ex_iff dict_keys_def)

text \<open>A face is created under the exact spelling of the id its siblings have.\<close>

definition same_spelling :: "entity \<Rightarrow> memstore \<Rightarrow> bool" where
  "same_spelling e m \<longleftrightarrow> is_implicit (ent_face e) \<or>
     (\<forall>(k, f)\<in>set (ms_entities m). fold_id (ent_id f) = fold_id (ent_id e) \<longrightarrow> ent_id f = ent_id e)"

text \<open>The row that a write stores.\<close>

definition stored_entity :: "int \<Rightarrow> entity \<Rightarrow> entity" where
  "stored_entity now e = e\<lparr>ent_redacted := [], ent_updated := now\<rparr>"

lemma create_entity_write:
  assumes s: "sound m" and v: "validate_id (ent_id e) = None"
    and mk: "\<not> marked_taken (ms_marked m) (ent_id e) []"
    and sp: "\<forall>f\<in>ents m. fold_id (ent_id f) = fold_id (ent_id e) \<longrightarrow> ent_id f = ent_id e"
    and new: "entity_key e \<notin> entity_key ` ents m"
  shows "leaves (insert (stored_entity now e) (ents m)) (rels m)
    (emit ev (notify n (add_entity_row (entity_key e) (e\<lparr>ent_redacted := [], ent_updated := now\<rparr>) m)))"
proof -
  let ?e = "e\<lparr>ent_redacted := [], ent_updated := now\<rparr>"
  have k: "entity_key ?e = entity_key e" "ent_id ?e = ent_id e" by (simp_all add: entity_key_def)
  let ?m = "add_entity_row (entity_key e) ?e m"
  have n: "nodes_ok ?m" "ents ?m = insert ?e (ents m)" "edge_part ?m = edge_part m"
    using add_entity_row_ok [of m ?e] s v new by (simp_all add: k sound_def)
  then have i: "ids ?m = insert (ent_id e) (ids m)" by (simp add: ids_def)
  have "links (insert (ent_id e) (ids m)) (rels m) (ms_marked m) (ms_attachments m)"
    using s sp mk by (intro links_add_id) (auto simp: sound_def ids_def not_marked_taken)
  then have "leaves (insert (stored_entity now e) (ents m)) (rels m) ?m"
    using s n i by (simp add: leaves_def stored_entity_def sound_def edge_part_def rels_def)
  then show ?thesis using leaves_data [of "emit ev (notify n ?m)" ?m] by simp
qed

lemma create_entity_leaves:
  assumes s: "sound m" and sp: "same_spelling e m"
  shows "safely (leaves (insert (stored_entity now e) (ents m)) (rels m)) (create_entity now e m)"
proof (cases "validate_id (ent_id e)")
  case v: None
  show ?thesis
  proof (cases "validate_properties (ent_props e) \<noteq> None \<or> marked_taken (ms_marked m) (ent_id e) []")
    case True
    with v show ?thesis by (auto simp: create_entity_def split: option.splits)
  next
    case False
    then have pr: "validate_properties (ent_props e) = None"
      and mk: "\<not> marked_taken (ms_marked m) (ent_id e) []" by auto
    have kd: "keyed entity_key (ms_entities m)" using s by (simp add: sound_def entity_index_def)
    note w = create_entity_write [OF s v mk]
    show ?thesis
    proof (cases "is_implicit (ent_face e)")
      case True
      show ?thesis
      proof (cases "id_taken (ms_entities m) (ent_id e) []")
        case False
        then have nt: "\<forall>f\<in>ents m. fold_id (ent_id f) \<noteq> fold_id (ent_id e)"
          by (simp add: not_id_taken ents_def)
        have "entity_key e \<notin> entity_key ` ents m"
          using nt v s entity_key_inject by (fastforce simp: sound_def entity_index_def ents_def)
        with w nt True False v pr mk show ?thesis by (simp add: create_entity_def entity_key_def Let_def)
      qed (use True v pr mk in \<open>simp add: create_entity_def\<close>)
    next
      case face: False
      show ?thesis
      proof (cases "dict_get (ms_entities m) (entity_key e) = None")
        case True
        have "entity_key e \<notin> entity_key ` ents m" using True keyed_None [OF kd] by (simp add: ents_def)
        moreover have "\<forall>f\<in>ents m. fold_id (ent_id f) = fold_id (ent_id e) \<longrightarrow> ent_id f = ent_id e"
          using sp face by (auto simp: same_spelling_def ents_def vals_def)
        ultimately show ?thesis
          using w face v pr mk by (auto simp: create_entity_def entity_key_def Let_def split: option.splits)
      qed (use face v pr mk in \<open>auto simp: create_entity_def entity_key_def Let_def split: option.splits\<close>)
    qed
  qed
qed (simp add: create_entity_def)

text \<open>A row changed in place, under the same id and face.\<close>

lemma update_row_sound:
  assumes s: "sound m" and e: "e \<in> ents m" and same: "ent_id e' = ent_id e" "ent_face e' = ent_face e"
  shows "sound (m\<lparr>ms_entities := dict_set (entity_key e) e' (ms_entities m)\<rparr>)"
    and "ids (m\<lparr>ms_entities := dict_set (entity_key e) e' (ms_entities m)\<rparr>) = ids m"
    and "leaves (insert e' (ents m - {e})) (rels m)
      (m\<lparr>ms_entities := dict_set (entity_key e) e' (ms_entities m)\<rparr>)"
proof -
  let ?m = "m\<lparr>ms_entities := dict_set (entity_key e) e' (ms_entities m)\<rparr>"
  have ix: "nodes_ok m" and v: "validate_id (ent_id e') = None"
    using s e same by (auto simp: sound_def entity_index_def ents_def)
  have k: "entity_key e' = entity_key e" by (simp add: entity_key_def same)
  note u = entity_index_update [OF ix e [unfolded ents_def] k v]
  show i: "ids ?m = ids m" using u(2) e same by (auto simp: ids_def ents_def)
  show "sound ?m" using s u(1) i by (simp add: sound_def rels_def)
  then show "leaves (insert e' (ents m - {e})) (rels m) ?m"
    using u(2) by (simp add: leaves_def ents_def rels_def)
qed

lemma update_entity_if_leaves:
  assumes s: "sound m" and at: "CHR ''@'' \<notin> set (ent_id e)"
  shows "safely (\<lambda>(v, m'). leaves (insert (stored_entity now e) {f \<in> ents m. entity_ref f \<noteq> entity_ref e}) (rels m) m')
    (update_entity_if sha now e expected m)"
proof (cases "dict_get (ms_entities m) (format_state_ref (ent_id e) (ent_face e))")
  case None
  then show ?thesis by (auto simp: update_entity_if_def Let_def split: option.splits)
next
  case (Some old)
  let ?e = "e\<lparr>ent_redacted := [], ent_updated := now\<rparr>"
  have kd: "keyed entity_key (ms_entities m)" using s by (simp add: sound_def entity_index_def)
  have old: "old \<in> ents m" and k: "entity_key e = entity_key old"
    using Some keyed_get [OF kd] by (auto simp: ents_def entity_key_def)
  have same: "ent_id ?e = ent_id old" "ent_face ?e = ent_face old"
    using k old s at
    by (auto simp: sound_def entity_index_def ents_def entity_key_def format_state_ref_inject id_no_at)
  have "f = old" if "f \<in> ents m" "entity_ref f = entity_ref e" for f
    using keyed_inj [OF kd, of f old] that old same by (simp add: ents_def entity_ref_def entity_key_def)
  then have others: "{f \<in> ents m. entity_ref f \<noteq> entity_ref e} = ents m - {old}"
    using same by (auto simp: entity_ref_def)
  from update_row_sound(3) [OF s old same]
  have "leaves (insert (stored_entity now e) {f \<in> ents m. entity_ref f \<noteq> entity_ref e}) (rels m)
      (m\<lparr>ms_entities := dict_set (format_state_ref (ent_id e) (ent_face e)) ?e (ms_entities m)\<rparr>)"
    by (simp add: k [symmetric] entity_key_def [of e] others stored_entity_def)
  then show ?thesis
    using Some
    by (auto simp: update_entity_if_def Let_def leaves_data [OF data_emit] leaves_data [OF data_notify]
        split: option.splits)
qed

section \<open>Families and incident edges as lists\<close>

lemma each_out_pairs:
  "\<forall>(k, e)\<in>set rows. k = g e \<Longrightarrow>
   each_out (\<lambda>(k, e). f k e) rows m = each_out (\<lambda>e. f (g e) e) (map snd rows) m"
proof (induction rows arbitrary: m)
  case (Cons a rows)
  have "each_out (\<lambda>(k, e). f k e) rows = each_out (\<lambda>e. f (g e) e) (map snd rows)"
    using Cons by (intro ext) auto
  with Cons.prems show ?case by (cases a) auto
qed simp

lemma each_out_cong: "\<forall>x\<in>set xs. f x = g x \<Longrightarrow> each_out f xs m = each_out g xs m"
proof (induction xs arbitrary: m)
  case (Cons x xs)
  then have "each_out f xs = each_out g xs" by (intro ext) simp
  with Cons.prems show ?case by simp
qed simp

lemma family_list:
  assumes "keyed entity_key d"
  shows "set (map snd (sorted_faces (family_rows d i))) = {e \<in> vals d. ent_id e = i}"
    and "distinct (map snd (sorted_faces (family_rows d i)))"
    and "\<forall>(k, e)\<in>set (sorted_faces (family_rows d i)). k = entity_key e \<and> ent_id e = i \<and> e \<in> vals d"
    and "sorted_faces (family_rows d i) = [] \<longleftrightarrow> i \<notin> ent_id ` vals d"
proof -
  have f: "set (sorted_faces (family_rows d i)) = {x \<in> set d. ent_id (snd x) = i}"
    by (auto simp: sorted_faces_def family_rows_def)
  then show s: "set (map snd (sorted_faces (family_rows d i))) = {e \<in> vals d. ent_id e = i}"
    by (auto simp: vals_def)
  show "\<forall>(k, e)\<in>set (sorted_faces (family_rows d i)). k = entity_key e \<and> ent_id e = i \<and> e \<in> vals d"
    using f keyed_mem [OF assms] by auto
  have "distinct (map snd d)" by (rule keyed_vals_distinct [OF assms])
  then have "distinct d" "inj_on snd (set d)" by (simp_all add: distinct_map)
  then show "distinct (map snd (sorted_faces (family_rows d i)))"
    by (auto simp: distinct_map sorted_faces_def family_rows_def intro: inj_on_subset)
  have "sorted_faces (family_rows d i) = [] \<longleftrightarrow> {e \<in> vals d. ent_id e = i} = {}"
    using s by (metis list.map_disc_iff list.set_map set_empty)
  then show "sorted_faces (family_rows d i) = [] \<longleftrightarrow> i \<notin> ent_id ` vals d" by auto
qed

lemma relations_list:
  assumes "keyed relation_key d"
  shows "set (filter P (map snd d)) = {r \<in> vals d. P r}" and "distinct (filter P (map snd d))"
  using keyed_vals_distinct [OF assms] by (auto simp: vals_def)

text \<open>The state left when an id and all its edges are gone.\<close>

lemma sound_without:
  assumes s: "sound m" and i: "i \<in> ids m"
    and n: "nodes_ok m'" "ents m' = {e \<in> ents m. ent_id e \<noteq> i}"
    and e: "edges_ok m'" "rels m' = {r \<in> rels m. \<not> touches r i}"
    and mk: "ms_marked m' = without_edges i (ms_marked m)"
    and at: "ms_attachments m' = filter (\<lambda>(k, a). at_entity a \<noteq> i) (ms_attachments m)"
  shows "leaves {e \<in> ents m. ent_id e \<noteq> i} {r \<in> rels m. \<not> touches r i} m'"
proof -
  have "ids m' = ids m - {i}" using n(2) by (auto simp: ids_def)
  moreover have "links (ids m) (rels m) (ms_marked m) (ms_attachments m)" using s by (simp add: sound_def)
  from links_remove_id [OF this i] have "links (ids m - {i}) (rels m') (ms_marked m') (ms_attachments m')"
    by (simp only: e(2) mk at)
  ultimately show ?thesis using n e by (simp add: leaves_def sound_def)
qed

lemma sound_keyed:
  assumes "sound m"
  shows "keyed entity_key (ms_entities m)" and "keyed relation_key (ms_relations m)"
    and "nodes_ok m" and "edges_ok m"
  using assms by (auto simp: sound_def entity_index_def relation_index_def)

lemma drop_family_loop:
  fixes i :: string
  assumes s: "sound m"
  defines "fam \<equiv> sorted_faces (family_rows (ms_entities m) i)"
  obtains m1 where
    "each_out (\<lambda>(key, e) m. bind_out (drop_entity_row key m) (\<lambda>m. Ok (notify (NoteFaceDelete i (ent_face e)) m)))
       fam m = Ok m1"
    and "nodes_ok m1" and "ents m1 = {e \<in> ents m. ent_id e \<noteq> i}" and "edge_part m1 = edge_part m"
proof -
  note fl = family_list [OF sound_keyed(1) [OF s], of i, folded fam_def]
  let ?f = "\<lambda>e m. bind_out (drop_entity_row (entity_key e) m) (\<lambda>m. Ok (notify (NoteFaceDelete i (ent_face e)) m))"
  have "set (map snd fam) \<subseteq> ents m" using fl(1) by (auto simp: ents_def)
  then obtain m1 where m1: "each_out ?f (map snd fam) m = Ok m1" "nodes_ok m1"
    "ents m1 = ents m - set (map snd fam)" "edge_part m1 = edge_part m"
    using drop_entities_loop [of "map snd fam" ?f "\<lambda>e. NoteFaceDelete i (ent_face e)" m]
      sound_keyed(3) [OF s] fl(2) by auto
  have pairs: "each_out (\<lambda>(key, e) m. bind_out (drop_entity_row key m)
      (\<lambda>m. Ok (notify (NoteFaceDelete i (ent_face e)) m))) fam m = each_out ?f (map snd fam) m"
    using fl(3) by (intro each_out_pairs) auto
  have "ents m1 = {e \<in> ents m. ent_id e \<noteq> i}" using m1(3) fl(1) by (auto simp: ents_def)
  with m1 pairs that show thesis by auto
qed

lemma delete_entity_leaves:
  assumes s: "sound m"
  shows "safely (\<lambda>(r, m'). leaves {e \<in> ents m. ent_id e \<noteq> i} {r \<in> rels m. \<not> touches r i} m')
    (delete_entity i cascade m)"
proof -
  let ?fam = "sorted_faces (family_rows (ms_entities m) i)"
  let ?rel = "filter (\<lambda>r. touches r i) (map snd (ms_relations m))"
  show ?thesis
  proof (cases "?fam = [] \<or> (\<not> cascade \<and> ?rel \<noteq> [])")
    case True
    then show ?thesis by (auto simp: delete_entity_def Let_def)
  next
    case False
    from drop_family_loop [OF s, of i] obtain m1 where m1:
      "each_out (\<lambda>(key, e) m. bind_out (drop_entity_row key m) (\<lambda>m. Ok (notify (NoteFaceDelete i (ent_face e)) m)))
         ?fam m = Ok m1"
      "nodes_ok m1" "ents m1 = {e \<in> ents m. ent_id e \<noteq> i}" "edge_part m1 = edge_part m" .
    let ?m1 = "drop_attachments i (notify (NoteLastFaceDelete i) m1)"
    have rl: "set ?rel = {r \<in> rels m. touches r i}" "distinct ?rel"
      using relations_list [OF sound_keyed(2) [OF s]] by (auto simp: rels_def)
    have "edges_ok ?m1" "rels ?m1 = rels m"
      using m1(4) sound_keyed(4) [OF s] by (simp_all add: store_frame edge_part_def rels_def)
    then obtain m2 where m2: "each_out (\<lambda>r m. drop_relation_row (relation_key r) m) ?rel ?m1 = Ok m2"
      "edges_ok m2" "rels m2 = rels m - set ?rel" "node_part m2 = node_part ?m1"
      using drop_relations_loop [of ?m1 ?rel] rl by auto
    have i: "i \<in> ids m" using family_list(4) [OF sound_keyed(1) [OF s], of i] False by (simp add: ids_def ents_def)
    have "leaves {e \<in> ents m. ent_id e \<noteq> i} {r \<in> rels m. \<not> touches r i} (drop_marked_edges i m2)"
    proof (rule sound_without [OF s i])
      show "nodes_ok (drop_marked_edges i m2)" "ents (drop_marked_edges i m2) = {e \<in> ents m. ent_id e \<noteq> i}"
        using m2(4) m1(2,3) by (simp_all add: store_frame node_part_def ents_def)
      show "edges_ok (drop_marked_edges i m2)" "rels (drop_marked_edges i m2) = {r \<in> rels m. \<not> touches r i}"
        using m2(2,3) rl(1) by (auto simp: store_frame rels_def)
      show "ms_marked (drop_marked_edges i m2) = without_edges i (ms_marked m)"
        "ms_attachments (drop_marked_edges i m2) = filter (\<lambda>(k, a). at_entity a \<noteq> i) (ms_attachments m)"
        using m2(4) m1(4) by (simp_all add: store_frame node_part_def edge_part_def)
    qed
    then show ?thesis
      using False m1(1) m2(1) by (simp add: delete_entity_def Let_def leaves_data [OF data_emit_all])
  qed
qed

text \<open>No hidden edge touches an id.\<close>

definition no_hidden_edges :: "string \<Rightarrow> memstore \<Rightarrow> bool" where
  "no_hidden_edges i m \<longleftrightarrow> list_all (\<lambda>(j, f). list_all (\<lambda>(k, r). \<not> touches r i) (mf_relations f)) (ms_marked m)"

lemma without_edges_none: "no_hidden_edges i m \<Longrightarrow> without_edges i (ms_marked m) = ms_marked m"
proof -
  assume "no_hidden_edges i m"
  then have "(j, f\<lparr>mf_relations := filter (\<lambda>(k, r). \<not> touches r i) (mf_relations f)\<rparr>) = (j, f)"
    if "(j, f) \<in> set (ms_marked m)" for j f
    using that by (fastforce simp: no_hidden_edges_def list_all_iff filter_id_conv)
  then show ?thesis unfolding without_edges_def by (auto intro!: map_idI)
qed

lemma family_size_one:
  assumes k: "keyed entity_key d" and e: "e \<in> vals d"
  shows "family_size d (ent_id e) = 1 \<longleftrightarrow> {f \<in> vals d. ent_id f = ent_id e} = {e}"
proof -
  let ?S = "{f \<in> vals d. ent_id f = ent_id e}"
  have "length (map snd (sorted_faces (family_rows d (ent_id e)))) = card ?S"
    using family_list(1,2) [OF k, of "ent_id e"] by (metis distinct_card)
  then have "family_size d (ent_id e) = card ?S" by (simp add: family_size_def sorted_faces_def)
  moreover have "e \<in> ?S" using e by simp
  ultimately show ?thesis by (metis card_1_singletonE is_singletonI is_singleton_altdef singletonD)
qed

definition owned_edge :: "ref \<Rightarrow> memstore \<Rightarrow> relation \<Rightarrow> bool" where
  "owned_edge ref m r \<longleftrightarrow>
     (rel_from r = ref_id ref \<and> rel_from_face r = ref_face ref \<and> \<not> is_implicit (ref_face ref)) \<or>
     (family_size (ms_entities m) (ref_id ref) = 1 \<and> touches r (ref_id ref))"

lemma delete_face_leaves:
  assumes s: "sound m"
    and hid: "family_size (ms_entities m) (ref_id ref) = 1 \<Longrightarrow> no_hidden_edges (ref_id ref) m"
  shows "safely (\<lambda>(r, m'). leaves {e \<in> ents m. entity_ref e \<noteq> ref} {r \<in> rels m. \<not> owned_edge ref m r} m')
    (delete_face ref m)"
proof -
  let ?i = "ref_id ref" and ?p = "ref_face ref" and ?key = "format_state_ref (ref_id ref) (ref_face ref)"
  show ?thesis
  proof (cases "addressable ref \<and> dict_get (ms_entities m) ?key \<noteq> None")
    case False
    then show ?thesis by (auto simp: delete_face_def Let_def)
  next
    case True
    then obtain e where a: "addressable ref" and g: "dict_get (ms_entities m) ?key = Some e" by auto
    have e: "e \<in> ents m" and k: "?key = entity_key e"
      using g keyed_get [OF sound_keyed(1) [OF s]] by (auto simp: ents_def)
    have "CHR ''@'' \<notin> set ?i" using a by (auto simp: addressable_def is_state_ref_def contains_iff in_set_conv_decomp)
    moreover have "CHR ''@'' \<notin> set (ent_id e)"
      using e s by (auto simp: sound_def entity_index_def ents_def id_no_at)
    ultimately have ei: "ent_id e = ?i" "ent_face e = ?p"
      using k by (auto simp: entity_key_def format_state_ref_inject)
    from drop_entity_row_ok [OF sound_keyed(3) [OF s] e] obtain m1 where m1:
      "drop_entity_row ?key m = Ok m1" "nodes_ok m1" "ents m1 = ents m - {e}" "edge_part m1 = edge_part m"
      by (auto simp: k)
    let ?final = "family_size (ms_entities m) ?i = 1"
    let ?Q = "\<lambda>r. (rel_from r = ?i \<and> rel_from_face r = ?p \<and> \<not> is_implicit ?p) \<or> (?final \<and> touches r ?i)"
    let ?owned = "sort_key relation_key (filter ?Q (map snd (ms_relations m)))"
    let ?m2 = "notify (NoteFaceDelete ?i ?p) m1"
    let ?m3 = "if ?final then notify (NoteLastFaceDelete ?i) (drop_attachments ?i ?m2) else ?m2"
    have ol: "set ?owned = {r \<in> rels m. ?Q r}" "distinct ?owned"
      using relations_list [OF sound_keyed(2) [OF s], of ?Q] by (auto simp: rels_def)
    have "edges_ok ?m3" "rels ?m3 = rels m"
      using m1(4) sound_keyed(4) [OF s] by (simp_all add: store_frame edge_part_def rels_def)
    then obtain m4 where m4: "each_out (\<lambda>r m. drop_relation_row (relation_key r) m) ?owned ?m3 = Ok m4"
      "edges_ok m4" "rels m4 = rels m - set ?owned" "node_part m4 = node_part ?m3"
      using drop_relations_loop [of ?m3 ?owned] ol by auto
    have n4: "nodes_ok m4" "ents m4 = ents m - {e}"
      using m4(4) m1(2,3) by (cases ?final; simp add: store_frame node_part_def ents_def)+
    have "leaves (ents m - {e}) {r \<in> rels m. \<not> owned_edge ref m r} m4"
    proof (cases ?final)
      case True
      then have fam: "{f \<in> ents m. ent_id f = ?i} = {e}"
        using family_size_one [OF sound_keyed(1) [OF s], of e] e ei by (simp add: ents_def)
      have "leaves {e \<in> ents m. ent_id e \<noteq> ?i} {r \<in> rels m. \<not> touches r ?i} m4"
      proof (rule sound_without [OF s])
        show "?i \<in> ids m" using e ei(1) by (metis ids_def imageI)
        show "nodes_ok m4" "edges_ok m4" using n4 m4 by auto
        show "ents m4 = {e \<in> ents m. ent_id e \<noteq> ?i}" using n4(2) fam ei by auto
        show "rels m4 = {r \<in> rels m. \<not> touches r ?i}"
          using m4(3) ol(1) True by (auto simp: touches_def)
        show "ms_marked m4 = without_edges ?i (ms_marked m)"
          using m4(4) m1(4) True without_edges_none [OF hid [OF True]]
          by (simp add: store_frame node_part_def edge_part_def)
        show "ms_attachments m4 = filter (\<lambda>(k, a). at_entity a \<noteq> ?i) (ms_attachments m)"
          using m4(4) m1(4) True by (simp add: store_frame node_part_def edge_part_def)
      qed
      moreover have "{e \<in> ents m. ent_id e \<noteq> ?i} = ents m - {e}" using fam ei by auto
      moreover have "{r \<in> rels m. \<not> touches r ?i} = {r \<in> rels m. \<not> owned_edge ref m r}"
        using True by (auto simp: owned_edge_def touches_def)
      ultimately show ?thesis by simp
    next
      case False
      then have "{f \<in> ents m. ent_id f = ?i} \<noteq> {e}"
        using family_size_one [OF sound_keyed(1) [OF s], of e] e ei by (simp add: ents_def)
      with e ei obtain f where "f \<in> ents m" "ent_id f = ?i" "f \<noteq> e" by auto
      then have f: "f \<in> ents m - {e}" "ent_id f = ent_id e" using ei by auto
      have "ent_id ` ents m = insert (ent_id e) (ent_id ` (ents m - {e}))" using e by blast
      also have "\<dots> = ent_id ` (ents m - {e})" using f by (metis image_eqI insert_absorb)
      finally have "ids m4 = ids m" using n4(2) by (simp add: ids_def)
      moreover have "links (ids m) (rels m4) (ms_marked m) (ms_attachments m)"
        using s m4(3) by (auto simp: sound_def links_def)
      ultimately have "sound m4"
        using n4(1) m4(2,4) m1(4) False by (simp add: sound_def store_frame node_part_def edge_part_def)
      moreover have "rels m4 = {r \<in> rels m. \<not> owned_edge ref m r}"
        using m4(3) ol(1) by (auto simp: owned_edge_def)
      ultimately show ?thesis using n4(2) by (simp add: leaves_def)
    qed
    moreover have others: "{f \<in> ents m. entity_ref f \<noteq> ref} = ents m - {e}"
    proof -
      have er: "entity_ref e = ref" using ei by (simp add: entity_ref_def)
      have "f = e" if "f \<in> ents m" "entity_ref f = ref" for f
      proof -
        have "entity_key f = entity_key e" using that(2) er by (intro entity_ref_key) simp
        then show ?thesis using keyed_inj [OF sound_keyed(1) [OF s]] that(1) e by (simp add: ents_def)
      qed
      then show ?thesis using er by blast
    qed
    ultimately have l4: "leaves {f \<in> ents m. entity_ref f \<noteq> ref} {r \<in> rels m. \<not> owned_edge ref m r} m4"
      by (simp only:)
    define L where "L = leaves {f \<in> ents m. entity_ref f \<noteq> ref} {r \<in> rels m. \<not> owned_edge ref m r}"
    have "L (emit_all evs m4)" for evs unfolding L_def using l4 leaves_data [OF data_emit_all] by blast
    then show ?thesis
      unfolding L_def [symmetric] using a g m1(1) m4(1) by (simp add: delete_face_def Let_def)
  qed
qed

section \<open>Relations and attachments\<close>

text \<open>The entity manager creates edges between stored entities, with a declared type and face.\<close>

definition edge_allowed :: "relation_key \<Rightarrow> memstore \<Rightarrow> bool" where
  "edge_allowed k m \<longleftrightarrow> valid_face_slot (rk_from_face k) \<and> hd (rk_type k) \<noteq> CHR ''-'' \<and>
     family_size (ms_entities m) (rk_from k) \<noteq> 0 \<and> family_size (ms_entities m) (rk_to k) \<noteq> 0"

lemma family_size_ids: "family_size (ms_entities m) i \<noteq> 0 \<longleftrightarrow> i \<in> ids m"
  by (force simp: family_size_def family_rows_def ids_def ents_def vals_def filter_empty_conv)

lemma create_relation_leaves:
  assumes s: "sound m" and al: "edge_allowed k m"
  shows "safely (\<lambda>(r, m'). relation_identity r = k \<and> leaves (ents m) (insert r (rels m)) m') (create_relation now k d m)"
proof -
  let ?r0 = "(new_relation (rk_from k) (rk_type k) (rk_to k))\<lparr>rel_from_face := rk_from_face k, rel_updated := now\<rparr>"
  let ?r = "case d of None \<Rightarrow> ?r0 | Some d \<Rightarrow> ?r0\<lparr>rel_content := rd_content d, rel_props := rd_props d\<rparr>"
  have f: "rel_from ?r = rk_from k" "rel_to ?r = rk_to k" "relation_identity ?r = k"
    by (cases d; simp add: new_relation_def relation_identity_def)+
  show ?thesis
  proof (cases "first_error [validate_id (rk_from k), validate_id (rk_to k)] = None \<and>
      validate_relation_type (rk_type k) = None \<and> check_data d = None \<and>
      dict_get (ms_relations m) (relation_key ?r) = None")
    case False
    then show ?thesis
      unfolding create_relation_def by (auto simp: Let_def split: option.splits)
  next
    case True
    let ?m = "add_relation_row (relation_key ?r) ?r m"
    have v: "validate_id (rk_from k) = None" "validate_id (rk_to k) = None"
      using True by (auto simp only: first_error_None list.set insert_iff)
    have ok: "edge_ok (ids m) ?r"
      using al True v unfolding edge_allowed_def family_size_ids by (simp add: edge_ok_def f canonical_key_def)
    have "relation_key ?r \<notin> relation_key ` vals (ms_relations m)"
      using True keyed_None [OF sound_keyed(2) [OF s]] by auto
    from relation_index_add [OF sound_keyed(4) [OF s] this]
    have "edges_ok ?m" "rels ?m = insert ?r (rels m)" by (simp_all add: add_relation_row_def rels_def)
    moreover have "links (ids m) (insert ?r (rels m)) (ms_marked m) (ms_attachments m)"
      using s ok by (auto simp: sound_def links_def)
    ultimately have "leaves (ents m) (insert ?r (rels m)) ?m"
      using s by (simp add: leaves_def sound_def add_relation_row_def ids_def ents_def)
    then show ?thesis
      using True f(3) unfolding create_relation_def by (simp add: Let_def leaves_data [OF data_emit])
  qed
qed

lemma relation_updated_leaves:
  assumes s: "sound m" and r: "r \<in> rels m" and same: "relation_identity r' = relation_identity r"
  shows "leaves (ents m) (insert r' (rels m - {r})) (m\<lparr>ms_relations := dict_set (relation_key r) r' (ms_relations m)\<rparr>)"
proof -
  have k: "relation_key r' = relation_key r" by (simp add: relation_key_def same)
  note u = relation_index_update [OF sound_keyed(4) [OF s] r [unfolded rels_def] k]
  have "rel_from r' = rel_from r" "rel_to r' = rel_to r" using same by (auto simp: relation_identity_def)
  then have "edge_ok (ids m) r'"
    using s r same by (auto simp: sound_def links_def edge_ok_def)
  then have "links (ids m) (insert r' (rels m - {r})) (ms_marked m) (ms_attachments m)"
    using s by (auto simp: sound_def links_def)
  then show ?thesis using s u by (simp add: leaves_def sound_def rels_def ids_def ents_def)
qed

text \<open>The relations without the one that a key names.\<close>

definition rels_but :: "relation_key \<Rightarrow> memstore \<Rightarrow> relation set" where
  "rels_but k m = {r \<in> rels m. relation_key r \<noteq> relation_key_string k}"

lemma rels_but_one: "sound m \<Longrightarrow> r \<in> rels m \<Longrightarrow> relation_key_string k = relation_key r \<Longrightarrow> rels_but k m = rels m - {r}"
  using keyed_inj [OF sound_keyed(2), of m] by (fastforce simp: rels_but_def rels_def)

lemma update_relation_leaves:
  assumes s: "sound m"
  shows "safely (\<lambda>(r, m'). leaves (ents m) (insert r (rels_but k m)) m') (update_relation now k d m)"
proof (cases "dict_get (ms_relations m) (relation_key_string k)")
  case None
  then show ?thesis by (auto simp: update_relation_def Let_def split: option.splits)
next
  case (Some r)
  then have r: "r \<in> rels m" and k: "relation_key_string k = relation_key r"
    using keyed_get [OF sound_keyed(2) [OF s]] by (auto simp: rels_def)
  let ?r = "r\<lparr>rel_content := rd_content d, rel_props := rd_props d, rel_updated := now\<rparr>"
  have "relation_identity ?r = relation_identity r" by (simp add: relation_identity_def)
  from relation_updated_leaves [OF s r this] Some show ?thesis
    by (auto simp: update_relation_def Let_def k rels_but_one [OF s r k] leaves_data [OF data_emit]
        split: option.splits)
qed

lemma delete_relation_leaves:
  assumes s: "sound m"
  shows "safely (leaves (ents m) (rels_but k m)) (delete_relation k m)"
proof (cases "dict_get (ms_relations m) (relation_key_string k)")
  case None
  then show ?thesis by (simp add: delete_relation_def Let_def)
next
  case (Some r)
  then have r: "r \<in> rels m" and k: "relation_key_string k = relation_key r"
    using keyed_get [OF sound_keyed(2) [OF s]] by (auto simp: rels_def)
  from drop_relation_row_ok [OF sound_keyed(4) [OF s] r] obtain m1 where m1:
    "drop_relation_row (relation_key r) m = Ok m1" "edges_ok m1" "rels m1 = rels m - {r}" "node_part m1 = node_part m" .
  have "ids m1 = ids m" using m1(4) by (simp add: node_part_def ids_def ents_def)
  moreover have "links (ids m) (rels m1) (ms_marked m) (ms_attachments m)"
    using s m1(3) by (auto simp: sound_def links_def)
  ultimately have "leaves (ents m) (rels_but k m) m1"
    using s m1(2-4) rels_but_one [OF s r k] by (simp add: leaves_def sound_def node_part_def ents_def)
  then show ?thesis
    using Some m1(1) by (simp add: delete_relation_def Let_def k leaves_data [OF data_emit])
qed

lemma attachments_sound:
  assumes "sound m" and "keyed att_key at" and "\<forall>a\<in>vals at. at_entity a \<in> ids m \<union> dict_keys (ms_marked m)"
  shows "leaves (ents m) (rels m) (m\<lparr>ms_attachments := at\<rparr>)"
  using assms by (simp add: leaves_def sound_def links_def ids_def ents_def rels_def)

lemma attach_file_leaves:
  assumes s: "sound m"
  shows "safely (leaves (ents m) (rels m)) (attach_file sha i p f d m)"
proof -
  let ?a = "\<lparr>at_entity = i, at_property = p, at_file = f, at_data = d, at_sha = sha d\<rparr>"
  have k: "attachment_key i p f = att_key ?a" by (simp add: att_key_def)
  have kd: "keyed att_key (ms_attachments m)" using s by (simp add: sound_def links_def)
  have "leaves (ents m) (rels m) (m\<lparr>ms_attachments := dict_set (att_key ?a) ?a (ms_attachments m)\<rparr>)" if "i \<in> ids m"
  proof (rule attachments_sound [OF s keyed_set(1) [OF kd]])
    show "\<forall>a\<in>vals (dict_set (att_key ?a) ?a (ms_attachments m)). at_entity a \<in> ids m \<union> dict_keys (ms_marked m)"
      unfolding keyed_set(2) [OF kd] using that s by (auto simp: sound_def links_def)
  qed
  then show ?thesis
    using family_size_ids [of m i] by (auto simp: attach_file_def k split: option.splits)
qed

lemma delete_attachment_leaves:
  assumes s: "sound m"
  shows "safely (leaves (ents m) (rels m)) (delete_attachment i p f m)"
proof -
  have kd: "keyed att_key (ms_attachments m)" using s by (simp add: sound_def links_def)
  have "leaves (ents m) (rels m) (m\<lparr>ms_attachments := dict_del (attachment_key i p f) (ms_attachments m)\<rparr>)"
  proof (rule attachments_sound [OF s keyed_del(1) [OF kd]])
    show "\<forall>a\<in>vals (dict_del (attachment_key i p f) (ms_attachments m)). at_entity a \<in> ids m \<union> dict_keys (ms_marked m)"
      unfolding keyed_del(2) [OF kd] using s by (auto simp: sound_def links_def)
  qed
  then show ?thesis by (simp add: delete_attachment_def Let_def)
qed

section \<open>Soft delete\<close>

lemma keyed_family_rows:
  assumes "keyed entity_key d"
  shows "keyed entity_key (family_rows d i)" and "vals (family_rows d i) = {e \<in> vals d. ent_id e = i}"
  using keyed_filter [OF assms, of "\<lambda>e. ent_id e = i"] by (simp_all add: family_rows_def)

lemma links_marked: "links I R mk at \<Longrightarrow> dict_get mk i = Some f \<Longrightarrow> marked_ok (I \<union> dict_keys mk) i f"
  by (auto simp: links_def dest!: dict_get_in)

lemma links_mark:
  assumes l: "links I R mk at" and i: "i \<in> I" and f: "marked_ok (I \<union> dict_keys mk) i f"
  shows "links (I - {i}) {r \<in> R. \<not> touches r i} (dict_set i f mk) at"
proof -
  have d: "dict_ok mk" and U: "I - {i} \<union> dict_keys (dict_set i f mk) = I \<union> dict_keys mk"
    using l i by (auto simp: links_def dict_simps)
  have "\<forall>(j, g)\<in>set (dict_set i f mk). marked_ok (I \<union> dict_keys mk) j g"
    unfolding dict_set_set [OF d] using l f by (auto simp: links_def)
  then show ?thesis
    using l i edge_ok_restrict unfolding links_def U by (auto simp: dict_simps)
qed

text \<open>The family that a soft delete hides.\<close>

definition hidden_family :: "int \<Rightarrow> string \<Rightarrow> string \<Rightarrow> memstore \<Rightarrow> marked_family" where
  "hidden_family now who i m = \<lparr>mf_at = now, mf_by = who, mf_entities = family_rows (ms_entities m) i,
     mf_relations = filter (\<lambda>(k, r). touches r i) (ms_relations m)\<rparr>"

lemma mark_deleted_leaves:
  assumes s: "sound m"
  shows "safely (\<lambda>(r, m'). leaves {e \<in> ents m. ent_id e \<noteq> i} {r \<in> rels m. \<not> touches r i} m' \<and>
      ms_marked m' = dict_set i (hidden_family now who i m) (ms_marked m) \<and> ms_attachments m' = ms_attachments m)
    (mark_deleted now i who m)"
proof -
  let ?ents = "family_rows (ms_entities m) i"
  let ?faces = "sorted_faces ?ents"
  let ?hid = "filter (\<lambda>(k, r). touches r i) (ms_relations m)"
  let ?fam = "\<lparr>mf_at = now, mf_by = who, mf_entities = ?ents, mf_relations = ?hid\<rparr>"
  let ?rels = "sorted_relations ?hid"
  show ?thesis
  proof (cases "?ents = []")
    case True
    then show ?thesis by (simp add: mark_deleted_def Let_def)
  next
    case False
    note fl = family_list [OF sound_keyed(1) [OF s], of i]
    have loop: "each_out (\<lambda>(k, e) m. bind_out (drop_entity_row (format_state_ref (ent_id e) (ent_face e)) m)
          (\<lambda>m. Ok (notify (NoteFaceDelete i (ent_face e)) m))) ?faces m
        = each_out (\<lambda>(k, e) m. bind_out (drop_entity_row k m)
          (\<lambda>m. Ok (notify (NoteFaceDelete i (ent_face e)) m))) ?faces m"
      using fl(3) by (intro each_out_cong) (auto simp: entity_key_def)
    from drop_family_loop [OF s, of i] obtain m1 where m1:
      "each_out (\<lambda>(key, e) m. bind_out (drop_entity_row key m) (\<lambda>m. Ok (notify (NoteFaceDelete i (ent_face e)) m)))
         ?faces m = Ok m1"
      "nodes_ok m1" "ents m1 = {e \<in> ents m. ent_id e \<noteq> i}" "edge_part m1 = edge_part m" .
    let ?m1 = "notify (NoteLastFaceDelete i) m1"
    note kh = keyed_filter [OF sound_keyed(2) [OF s], of "\<lambda>r. touches r i"]
    have rl: "set ?rels = {r \<in> rels m. touches r i}" "distinct ?rels"
      using kh(2) keyed_vals_distinct [OF kh(1)] by (auto simp: sorted_relations_def vals_def rels_def)
    have "edges_ok ?m1" "rels ?m1 = rels m"
      using m1(4) sound_keyed(4) [OF s] by (simp_all add: store_frame edge_part_def rels_def)
    then obtain m2 where m2: "each_out (\<lambda>r m. drop_relation_row (relation_key r) m) ?rels ?m1 = Ok m2"
      "edges_ok m2" "rels m2 = rels m - set ?rels" "node_part m2 = node_part ?m1"
      using drop_relations_loop [of ?m1 ?rels] rl by auto
    let ?m3 = "m2\<lparr>ms_marked := dict_set i ?fam (ms_marked m2)\<rparr>"
    have i: "i \<in> ids m"
      using False family_size_ids [of m i] by (simp add: family_size_def)
    have e3: "ents m2 = {e \<in> ents m. ent_id e \<noteq> i}" "nodes_ok m2"
      using m2(4) m1(2,3) by (simp_all add: store_frame node_part_def ents_def)
    then have i3: "ids ?m3 = ids m - {i}" by (auto simp: ids_def ents_def)
    have mm: "ms_marked m2 = ms_marked m" "ms_attachments m2 = ms_attachments m"
      using m2(4) m1(4) by (simp_all add: store_frame node_part_def edge_part_def)
    note kf = keyed_family_rows [OF sound_keyed(1) [OF s], of i]
    have "marked_ok (ids m \<union> dict_keys (ms_marked m)) i ?fam"
      using kf kh i s
      by (auto simp: marked_ok_def sound_def links_def entity_index_def ids_def ents_def rels_def intro: edge_ok_mono)
    with links_mark [of "ids m" "rels m" "ms_marked m" "ms_attachments m" i ?fam] i s
    have "links (ids m - {i}) {r \<in> rels m. \<not> touches r i} (dict_set i ?fam (ms_marked m)) (ms_attachments m)"
      by (simp add: sound_def)
    moreover have "rels ?m3 = {r \<in> rels m. \<not> touches r i}"
      using m2(3) rl(1) by (auto simp: rels_def)
    ultimately have "leaves {e \<in> ents m. ent_id e \<noteq> i} {r \<in> rels m. \<not> touches r i} ?m3"
      using e3 m2(2) i3 mm by (simp add: leaves_def sound_def ents_def)
    then show ?thesis
      using False m1(1) m2(1) loop data_eqD [OF data_emit_all] mm
      by (simp add: mark_deleted_def Let_def leaves_data [OF data_emit_all] hidden_family_def)
  qed
qed

lemma purge_marked_leaves:
  assumes s: "sound m"
  shows "safely (\<lambda>(r, m'). leaves (ents m) (rels m) m') (purge_marked i m)"
proof (cases "dict_get (ms_marked m) i")
  case None
  then show ?thesis by (simp add: purge_marked_def)
next
  case (Some f)
  let ?mk = "dict_del i (ms_marked m)"
  let ?m = "drop_attachments i (drop_marked_edges i (m\<lparr>ms_marked := ?mk\<rparr>))"
  have l: "links (ids m) (rels m) (ms_marked m) (ms_attachments m)" using s by (simp add: sound_def)
  have i: "i \<in> dict_keys (ms_marked m)" using Some by (metis dict_get_None option.distinct(1))
  then have ni: "i \<notin> ids m" using l by (auto simp: links_def)
  have U: "ids m \<union> dict_keys (ms_marked m) - {i} = ids m \<union> dict_keys ?mk"
    using ni by (auto simp: dict_simps)
  have "\<forall>(j, g)\<in>set ?mk. marked_ok (ids m \<union> dict_keys (ms_marked m)) j g"
    using l by (auto simp: links_def dict_set_del)
  from without_edges_marked [OF this, of i]
  have mo: "\<forall>(j, g)\<in>set (without_edges i ?mk). marked_ok (ids m \<union> dict_keys ?mk) j g" by (simp add: U)
  have ka: "keyed att_key (ms_attachments m)" using l by (simp add: links_def)
  have "links (ids m) (rels m) (without_edges i ?mk) (filter (\<lambda>(k, a). at_entity a \<noteq> i) (ms_attachments m))"
    using l mo keyed_filter [OF ka, of "\<lambda>a. at_entity a \<noteq> i"] unfolding links_def
    by (auto simp: dict_simps intro: inj_on_subset)
  then have "leaves (ents m) (rels m) ?m"
    using s by (simp add: leaves_def sound_def store_frame ids_def ents_def rels_def)
  then show ?thesis using Some by (simp add: purge_marked_def Let_def)
qed

text \<open>Putting hidden edges restored: each goes to the family of an end still hidden, or to the live map.\<close>

lemma unmark_relation_step:
  fixes restored :: "relation list"
  assumes e: "edges_ok m" and l: "links I (rels m) (ms_marked m) (ms_attachments m)"
    and r: "edge_ok (I \<union> dict_keys (ms_marked m)) r" "touches r i" and i: "i \<in> I"
    and new: "relation_key r \<notin> relation_key ` rels m"
  defines "st \<equiv> unmark_relation i r (m, restored)"
  shows "edges_ok (fst st)" and "links I (rels (fst st)) (ms_marked (fst st)) (ms_attachments (fst st))"
    and "ms_attachments (fst st) = ms_attachments m"
    and "other_end r i \<notin> dict_keys (ms_marked m) \<Longrightarrow> ms_marked (fst st) = ms_marked m"
    and "rels (fst st) = rels m \<union> {q \<in> {r}. other_end q i \<notin> dict_keys (ms_marked m)}" and "dict_keys (ms_marked (fst st)) = dict_keys (ms_marked m)"
    and "ms_entities (fst st) = ms_entities m" and "ms_entity_order (fst st) = ms_entity_order m"
proof -
  let ?o = "other_end r i"
  have ends: "rel_from r = i \<and> rel_to r = ?o \<or> rel_to r = i \<and> rel_from r = ?o"
    using r(2) by (auto simp: touches_def other_end_def)
  have "edges_ok (fst st) \<and> links I (rels (fst st)) (ms_marked (fst st)) (ms_attachments (fst st)) \<and>
    ms_attachments (fst st) = ms_attachments m \<and>
    (other_end r i \<notin> dict_keys (ms_marked m) \<longrightarrow> ms_marked (fst st) = ms_marked m) \<and>
    rels (fst st) = rels m \<union> {q \<in> {r}. other_end q i \<notin> dict_keys (ms_marked m)} \<and> dict_keys (ms_marked (fst st)) = dict_keys (ms_marked m) \<and>
    ms_entities (fst st) = ms_entities m \<and> ms_entity_order (fst st) = ms_entity_order m"
  proof (cases "dict_get (ms_marked m) ?o")
    case None
    let ?m = "add_relation_row (relation_key r) r m"
    have st: "fst st = ?m" using None by (simp add: st_def unmark_relation_def)
    have ok: "edge_ok I r"
      using r(1) i None ends by (auto simp: edge_ok_def dict_get_None)
    have "relation_key r \<notin> relation_key ` vals (ms_relations m)" using new by (simp add: rels_def)
    from relation_index_add [OF e this] have "edges_ok ?m" "rels ?m = insert r (rels m)"
      by (simp_all add: add_relation_row_def rels_def)
    moreover have "?o \<notin> dict_keys (ms_marked m)" using None by (simp add: dict_get_None)
    ultimately show ?thesis using l ok unfolding st by (auto simp: add_relation_row_def links_def)
  next
    case (Some f)
    let ?f = "f\<lparr>mf_relations := dict_set (relation_key r) r (mf_relations f)\<rparr>"
    let ?mk = "dict_set ?o ?f (ms_marked m)"
    have st: "fst st = m\<lparr>ms_marked := ?mk\<rparr>" using Some by (simp add: st_def unmark_relation_def)
    have d: "dict_ok (ms_marked m)" using l by (simp add: links_def)
    have ok: "?o \<in> dict_keys (ms_marked m)" using Some by (metis dict_get_None option.distinct(1))
    then have keys: "dict_keys ?mk = dict_keys (ms_marked m)" by (auto simp: dict_simps)
    have f: "marked_ok (I \<union> dict_keys (ms_marked m)) ?o f" by (rule links_marked [OF l Some])
    then have kf: "keyed relation_key (mf_relations f)" by (simp add: marked_ok_def)
    have "touches r ?o" using ends by (auto simp: touches_def)
    then have "marked_ok (I \<union> dict_keys (ms_marked m)) ?o ?f"
      using f r(1) keyed_set [OF kf, of r] by (auto simp: marked_ok_def)
    then have "\<forall>(j, g)\<in>set ?mk. marked_ok (I \<union> dict_keys (ms_marked m)) j g"
      using l unfolding dict_set_set [OF d] by (auto simp: links_def)
    then have "links I (rels m) ?mk (ms_attachments m)" using l keys d by (simp add: links_def)
    with e keys ok show ?thesis unfolding st by (auto simp: rels_def)
  qed
  then show "edges_ok (fst st)" and "links I (rels (fst st)) (ms_marked (fst st)) (ms_attachments (fst st))"
    and "ms_attachments (fst st) = ms_attachments m"
    and "other_end r i \<notin> dict_keys (ms_marked m) \<Longrightarrow> ms_marked (fst st) = ms_marked m"
    and "rels (fst st) = rels m \<union> {q \<in> {r}. other_end q i \<notin> dict_keys (ms_marked m)}" and "dict_keys (ms_marked (fst st)) = dict_keys (ms_marked m)"
    and "ms_entities (fst st) = ms_entities m" and "ms_entity_order (fst st) = ms_entity_order m"
    by blast+
qed

lemma unmark_relations_loop:
  assumes "edges_ok m" and "links I (rels m) (ms_marked m) (ms_attachments m)" and "i \<in> I"
    and "\<forall>r\<in>set rs. edge_ok (I \<union> dict_keys (ms_marked m)) r \<and> touches r i"
    and "distinct (map relation_key rs)" and "relation_key ` set rs \<inter> relation_key ` rels m = {}"
  shows "\<exists>m' restored'. fold (unmark_relation i) rs (m, restored) = (m', restored') \<and> edges_ok m' \<and>
    links I (rels m') (ms_marked m') (ms_attachments m') \<and>
    ms_entities m' = ms_entities m \<and> ms_entity_order m' = ms_entity_order m \<and>
    rels m' = rels m \<union> {r \<in> set rs. other_end r i \<notin> dict_keys (ms_marked m)} \<and>
    ms_attachments m' = ms_attachments m \<and>
    ((\<forall>r\<in>set rs. other_end r i \<notin> dict_keys (ms_marked m)) \<longrightarrow> ms_marked m' = ms_marked m)"
  using assms
proof (induction rs arbitrary: m restored)
  case (Cons r rs)
  obtain m1 back1 where st: "unmark_relation i r (m, restored) = (m1, back1)" by fastforce
  have new: "relation_key r \<notin> relation_key ` rels m" using Cons.prems(6) by auto
  have r: "edge_ok (I \<union> dict_keys (ms_marked m)) r" "touches r i" using Cons.prems(4) by auto
  note us = unmark_relation_step [OF Cons.prems(1,2) r Cons.prems(3) new, of restored, unfolded st fst_conv]
  have dj: "relation_key ` set rs \<inter> relation_key ` rels m1 = {}"
  proof -
    have sub: "A \<subseteq> insert x B \<Longrightarrow> x \<notin> S \<Longrightarrow> S \<inter> B = {} \<Longrightarrow> S \<inter> A = {}" for A B S :: "string set" and x
      by blast
    have "relation_key ` rels m1 \<subseteq> insert (relation_key r) (relation_key ` rels m)" using us(5) by blast
    moreover have "relation_key r \<notin> relation_key ` set rs" using Cons.prems(5) by simp
    moreover have "relation_key ` set rs \<inter> relation_key ` rels m = {}" using Cons.prems(6) by auto
    ultimately show ?thesis by (rule sub)
  qed
  have re: "\<forall>r\<in>set rs. edge_ok (I \<union> dict_keys (ms_marked m1)) r \<and> touches r i"
    using Cons.prems(4) us(6) by simp
  have ds: "distinct (map relation_key rs)" using Cons.prems(5) by simp
  from Cons.IH [OF us(1,2) Cons.prems(3) re ds dj, of back1] obtain m' b where
    "fold (unmark_relation i) rs (m1, back1) = (m', b)" "edges_ok m'"
    "links I (rels m') (ms_marked m') (ms_attachments m')"
    "ms_entities m' = ms_entities m1" "ms_entity_order m' = ms_entity_order m1"
    "rels m' = rels m1 \<union> {r \<in> set rs. other_end r i \<notin> dict_keys (ms_marked m1)}"
    "ms_attachments m' = ms_attachments m1"
    "(\<forall>r\<in>set rs. other_end r i \<notin> dict_keys (ms_marked m1)) \<longrightarrow> ms_marked m' = ms_marked m1" by blast
  moreover have "rels m' = rels m \<union> {q \<in> set (r # rs). other_end q i \<notin> dict_keys (ms_marked m)}"
    using calculation(6) us(5,6) by auto
  ultimately show ?case
    by (intro exI [of _ m'] exI [of _ b]) (simp add: st us(3,4,6-8))
qed simp

lemma unmark_leaves:
  assumes s: "sound m" and Some: "dict_get (ms_marked m) i = Some f"
  obtains r m' where "unmark i m = Ok (r, m')"
    and "leaves (ents m \<union> vals (mf_entities f))
      (rels m \<union> {r \<in> vals (mf_relations f). other_end r i \<notin> dict_keys (ms_marked m) - {i}}) m'"
    and "ms_attachments m' = ms_attachments m"
    and "\<forall>r\<in>vals (mf_relations f). other_end r i \<notin> dict_keys (ms_marked m) - {i} \<Longrightarrow>
      ms_marked m' = dict_del i (ms_marked m)"
proof -
  let ?faces = "sorted_faces (mf_entities f)"
  let ?m1 = "m\<lparr>ms_marked := dict_del i (ms_marked m)\<rparr>"
  let ?put = "\<lambda>(k, e) m. notify (NotePut e) (add_entity_row (format_state_ref (ent_id e) (ent_face e)) e m)"
  have l: "links (ids m) (rels m) (ms_marked m) (ms_attachments m)" using s by (simp add: sound_def)
  have d: "dict_ok (ms_marked m)" using l by (simp add: links_def)
  have fok: "marked_ok (ids m \<union> dict_keys (ms_marked m)) i f" by (rule links_marked [OF l Some])
  have im: "i \<in> dict_keys (ms_marked m)" using Some by (metis dict_get_None option.distinct(1))
  then have ni: "i \<notin> ids m" using l by (auto simp: links_def)
  have kf: "keyed entity_key (mf_entities f)" and v: "validate_id i = None"
    and fe: "\<And>e. e \<in> vals (mf_entities f) \<Longrightarrow> ent_id e = i" and ne: "vals (mf_entities f) \<noteq> {}"
    using fok by (auto simp: marked_ok_def)
  have sf: "set ?faces = set (mf_entities f)" "distinct (map fst ?faces)"
    using kf by (auto simp: sorted_faces_def keyed_def dict_ok_def distinct_map)
  have keys: "k = entity_key e \<and> e \<in> vals (mf_entities f)" if "(k, e) \<in> set ?faces" for k e
    using that sf(1) keyed_mem [OF kf] by auto
  have "map (\<lambda>x. entity_key (snd x)) ?faces = map fst ?faces" using keys by auto
  then have dk: "distinct (map (\<lambda>x. entity_key (snd x)) ?faces)" using sf(2) by metis
  have fresh: "\<forall>x\<in>set ?faces. validate_id (ent_id (snd x)) = None \<and> entity_key (snd x) \<notin> entity_key ` ents ?m1"
  proof
    fix x
    assume x: "x \<in> set ?faces"
    then have e: "ent_id (snd x) = i" using keys [of "fst x" "snd x"] fe by simp
    have "entity_key (snd x) \<noteq> entity_key g" if "g \<in> ents m" for g
    proof -
      have "validate_id (ent_id g) = None" "ent_id g \<noteq> i"
        using that s ni by (auto simp: sound_def entity_index_def ents_def ids_def)
      then show ?thesis using e v by (simp add: entity_key_inject)
    qed
    then show "validate_id (ent_id (snd x)) = None \<and> entity_key (snd x) \<notin> entity_key ` ents ?m1"
      using e v by (auto simp: ents_def)
  qed
  let ?m2 = "fold ?put ?faces ?m1"
  have "nodes_ok ?m2 \<and> ents ?m2 = ents ?m1 \<union> snd ` set ?faces \<and> edge_part ?m2 = edge_part ?m1"
    using s dk fresh
    by (intro add_entities_loop) (auto simp: sound_def entity_key_def split_beta)
  then have m2: "nodes_ok ?m2" "ents ?m2 = ents m \<union> vals (mf_entities f)" "edge_part ?m2 = edge_part ?m1"
    by (auto simp: sf(1) vals_def ents_def)
  have "ent_id ` vals (mf_entities f) = {i}" using fe ne by auto
  then have ids2: "ids ?m2 = insert i (ids m)" by (simp add: ids_def m2(2) image_Un)
  have U: "insert i (ids m) \<union> dict_keys (ms_marked ?m1) = ids m \<union> dict_keys (ms_marked m)"
    using im by (auto simp: dict_simps)
  have mk1: "ms_marked ?m2 = dict_del i (ms_marked m)" "ms_attachments ?m2 = ms_attachments m"
    "ms_relations ?m2 = ms_relations m" "ms_relation_order ?m2 = ms_relation_order m"
    using m2(3) by (simp_all add: edge_part_def)
  have l2: "links (ids ?m2) (rels ?m2) (ms_marked ?m2) (ms_attachments ?m2)"
    using l ni U unfolding ids2 links_def mk1 rels_def
    by (auto simp: dict_simps dict_set_del intro: edge_ok_mono)
  let ?rs = "sorted_relations (mf_relations f)"
  have kr: "keyed relation_key (mf_relations f)" using fok by (simp add: marked_ok_def)
  have rs: "set ?rs = vals (mf_relations f)" by (auto simp: sorted_relations_def vals_def)
  have dm: "distinct (map relation_key ?rs)"
  proof -
    have "distinct ?rs" using keyed_vals_distinct [OF kr] by (simp add: sorted_relations_def)
    then show ?thesis using keyed_inj [OF kr] by (auto simp: distinct_map rs inj_on_def)
  qed
  have re: "\<forall>r\<in>set ?rs. edge_ok (ids ?m2 \<union> dict_keys (ms_marked ?m2)) r \<and> touches r i"
    using fok U by (simp add: rs marked_ok_def ids2 mk1)
  have dj: "relation_key ` set ?rs \<inter> relation_key ` rels ?m2 = {}"
  proof -
    have "relation_key r \<noteq> relation_key q" if "r \<in> set ?rs" "q \<in> rels m" for r q
    proof
      assume eq: "relation_key r = relation_key q"
      have q: "edge_ok (ids m) q" using that(2) l by (simp add: links_def)
      have "relation_identity r = relation_identity q"
        using edge_keys_inject [OF _ q] re that(1) eq by blast
      then have "touches q i" using re that(1) by (auto simp: touches_def relation_identity_def)
      with q ni show False by (auto simp: edge_ok_def touches_def)
    qed
    then show ?thesis by (auto simp: rels_def mk1)
  qed
  have "edges_ok ?m2" using s mk1 by (simp add: sound_def)
  moreover have "i \<in> ids ?m2" using ids2 by simp
  moreover note l2 re dm dj
  ultimately obtain m3 restored where m3: "fold (unmark_relation i) ?rs (?m2, []) = (m3, restored)" "edges_ok m3"
    "links (ids ?m2) (rels m3) (ms_marked m3) (ms_attachments m3)"
    "ms_entities m3 = ms_entities ?m2" "ms_entity_order m3 = ms_entity_order ?m2"
    "rels m3 = rels ?m2 \<union> {r \<in> set ?rs. other_end r i \<notin> dict_keys (ms_marked ?m2)}"
    "ms_attachments m3 = ms_attachments ?m2"
    "(\<forall>r\<in>set ?rs. other_end r i \<notin> dict_keys (ms_marked ?m2)) \<longrightarrow> ms_marked m3 = ms_marked ?m2"
    using unmark_relations_loop [of ?m2 "ids ?m2" i ?rs "[]"] by blast
  have k2: "dict_keys (ms_marked ?m2) = dict_keys (ms_marked m) - {i}" by (simp add: mk1 dict_simps)
  have "sound m3" using m3 m2(1) by (simp add: sound_def ids_def ents_def)
  moreover have "ents m3 = ents m \<union> vals (mf_entities f)" using m3(4) m2(2) by (simp add: ents_def)
  moreover have "rels m3 = rels m \<union> {r \<in> vals (mf_relations f). other_end r i \<notin> dict_keys (ms_marked m) - {i}}"
    using m3(6) mk1(3) unfolding k2 rs by (simp add: rels_def)
  ultimately have l3: "leaves (ents m \<union> vals (mf_entities f))
      (rels m \<union> {r \<in> vals (mf_relations f). other_end r i \<notin> dict_keys (ms_marked m) - {i}}) m3"
    by (simp add: leaves_def)
  have u: "\<exists>r evs. unmark i m = Ok (r, emit_all evs m3)"
    using Some m3(1) by (simp add: unmark_def Let_def) (rule exI, rule refl)
  then obtain r evs where u: "unmark i m = Ok (r, emit_all evs m3)" by blast
  note de = data_eqD [OF data_emit_all [of evs m3]]
  show thesis
    using l3 m3(7,8) mk1(1,2) de
    by (intro that [OF u]) (simp_all add: leaves_data [OF data_emit_all] k2 [unfolded mk1] rs)
qed

lemma unmark_sound:
  assumes s: "sound m"
  shows "safely (\<lambda>(r, m'). sound m') (unmark i m)"
proof (cases "dict_get (ms_marked m) i")
  case (Some f)
  show ?thesis by (rule unmark_leaves [OF s Some]) (auto dest: leaves_sound)
qed (simp add: unmark_def)

end
