(* ===== verification/Memstore_Steps.thy ===== *)
theory Memstore_Steps
  imports Memstore_Inv
begin

text \<open>
  Runs of the in-memory store: the invariant for renaming and replacing a family, the step
  relation over all the writes of the store's interface, and what holds in every reachable state.
  The conditions under which a write keeps the invariant are the predicate \<open>permitted\<close>; each one
  that the store itself does not check is needed, as the theorems at the end show.
\<close>

section \<open>Renaming a family\<close>

definition renamed_entity :: "int \<Rightarrow> string \<Rightarrow> entity \<Rightarrow> entity" where
  "renamed_entity now newID e = e\<lparr>ent_id := newID, ent_updated := now\<rparr>"

lemma renamed_entity_simps [simp]:
  "ent_id (renamed_entity now j e) = j" "ent_face (renamed_entity now j e) = ent_face e"
  by (simp_all add: renamed_entity_def)

lemma dict_del_set_swap: "k \<noteq> j \<Longrightarrow> dict_del k (dict_set j v d) = dict_set j v (dict_del k d)"
  by (induction d) auto

lemma rekey_row_ok:
  assumes ix: "nodes_ok m" and e: "e \<in> ents m" and v: "validate_id j = None" and ne: "ent_id e \<noteq> j"
    and new: "\<forall>f\<in>ents m. ent_id f = j \<longrightarrow> ent_face f \<noteq> ent_face e"
  obtains m' where "rekey_row now j (entity_key e, e) m = Ok m'" and "nodes_ok m'"
    and "ents m' = insert (renamed_entity now j e) (ents m - {e})" and "edge_part m' = edge_part m"
proof -
  let ?r = "renamed_entity now j e"
  have ev: "validate_id (ent_id f) = None" if "f \<in> ents m" for f
    using that ix by (simp add: entity_index_def ents_def)
  have k: "entity_key ?r \<noteq> entity_key e" using ev [OF e] v ne by (simp add: entity_key_inject)
  from entity_index_drop [OF ix, of e] e obtain ord where o:
    "entity_remove (ms_entity_order m) (entity_key e) = Some ord"
    "entity_index (dict_del (entity_key e) (ms_entities m)) ord"
    "vals (dict_del (entity_key e) (ms_entities m)) = ents m - {e}"
    by (auto simp: ents_def)
  have fresh: "entity_key ?r \<notin> entity_key ` (ents m - {e})"
    using ev v new by (auto simp: entity_key_inject)
  note a = entity_index_add [OF o(2), of ?r, unfolded o(3), simplified, OF v fresh]
  have comm: "dict_del (entity_key e) (dict_set (entity_key ?r) ?r (ms_entities m))
      = dict_set (entity_key ?r) ?r (dict_del (entity_key e) (ms_entities m))"
    using k by (intro dict_del_set_swap) simp
  let ?m = "m\<lparr>ms_entities := dict_set (entity_key ?r) ?r (dict_del (entity_key e) (ms_entities m)),
      ms_entity_order := entity_insert ord (entity_key ?r)\<rparr>"
  have "rekey_row now j (entity_key e, e) m = Ok ?m"
    using o(1) comm by (simp add: rekey_row_def Let_def renamed_entity_def entity_key_def)
  then show thesis using a by (intro that [of ?m]) (simp_all add: ents_def edge_part_def)
qed

lemma rekey_family_loop:
  assumes v: "validate_id j = None" and ij: "i \<noteq> j"
  shows "nodes_ok m \<Longrightarrow> distinct (map (\<lambda>x. ent_face (snd x)) fam) \<Longrightarrow>
    \<forall>(k, e)\<in>set fam. k = entity_key e \<and> ent_id e = i \<and> e \<in> ents m \<Longrightarrow>
    \<forall>f\<in>ents m. ent_id f = j \<longrightarrow> ent_face f \<notin> (\<lambda>x. ent_face (snd x)) ` set fam \<Longrightarrow>
    \<exists>m'. each_out (rekey_row now j) fam m = Ok m' \<and> nodes_ok m' \<and>
      ents m' = (ents m - snd ` set fam) \<union> renamed_entity now j ` snd ` set fam \<and> edge_part m' = edge_part m"
proof (induction fam arbitrary: m)
  case (Cons x fam)
  obtain k e where x: "x = (k, e)" by (cases x)
  have e: "k = entity_key e" "ent_id e = i" "e \<in> ents m" using Cons.prems(3) by (auto simp: x)
  have new: "\<forall>f\<in>ents m. ent_id f = j \<longrightarrow> ent_face f \<noteq> ent_face e" using Cons.prems(4) by (auto simp: x)
  have ne: "ent_id e \<noteq> j" using e ij by simp
  from rekey_row_ok [OF Cons.prems(1) e(3) v ne new] obtain m1 where m1:
    "rekey_row now j (entity_key e, e) m = Ok m1" "nodes_ok m1"
    "ents m1 = insert (renamed_entity now j e) (ents m - {e})" "edge_part m1 = edge_part m" .
  have notin: "e \<notin> snd ` set fam" using Cons.prems(2) by (auto simp: x image_iff)
  have p3: "\<forall>(k, f)\<in>set fam. k = entity_key f \<and> ent_id f = i \<and> f \<in> ents m1"
    using Cons.prems(3) notin by (force simp: m1(3))
  have p4: "\<forall>f\<in>ents m1. ent_id f = j \<longrightarrow> ent_face f \<notin> (\<lambda>x. ent_face (snd x)) ` set fam"
    using Cons.prems(2,4) by (auto simp: m1(3) x)
  have d: "distinct (map (\<lambda>x. ent_face (snd x)) fam)" using Cons.prems(2) by simp
  from Cons.IH [OF m1(2) d p3 p4] obtain m2 where m2: "each_out (rekey_row now j) fam m1 = Ok m2" "nodes_ok m2"
    "ents m2 = (ents m1 - snd ` set fam) \<union> renamed_entity now j ` snd ` set fam" "edge_part m2 = edge_part m1"
    by blast
  have r: "renamed_entity now j e \<notin> snd ` set fam"
    using Cons.prems(3) ij by (force simp: renamed_entity_def)
  have "ents m2 = (ents m - snd ` set (x # fam)) \<union> renamed_entity now j ` snd ` set (x # fam)"
    using r by (auto simp: m2(3) m1(3) x)
  with m1 m2 show ?case by (simp add: x e(1))
qed simp

lemma renamed_relation_id:
  "relation_identity (renamed_relation i j r) =
     \<lparr>rk_from = (if rel_from r = i then j else rel_from r), rk_from_face = rel_from_face r, rk_type = rel_type r,
      rk_to = (if rel_to r = i then j else rel_to r)\<rparr>"
  by (simp add: renamed_relation_def relation_identity_def)

lemma renamed_relation_inject:
  "rel_from r \<noteq> j \<Longrightarrow> rel_to r \<noteq> j \<Longrightarrow> rel_from q \<noteq> j \<Longrightarrow> rel_to q \<noteq> j \<Longrightarrow>
   relation_identity (renamed_relation i j r) = relation_identity (renamed_relation i j q) \<Longrightarrow>
   relation_identity r = relation_identity q"
  by (auto simp: renamed_relation_id) (auto simp: relation_identity_def split: if_splits)

lemma renamed_edge_ok:
  assumes "edge_ok U r" and "validate_id j = None" and "touches r i"
  shows "edge_ok (insert j (U - {i})) (renamed_relation i j r)" and "touches (renamed_relation i j r) j"
  using assms by (auto simp: edge_ok_def canonical_key_def renamed_relation_id)
    (auto simp: renamed_relation_def touches_def relation_identity_def)

text \<open>Re-keying the attachments of a family.\<close>

lemma rekey_attachments_keyed:
  assumes "keyed att_key d" and "\<forall>a\<in>set as. at_entity a = j"
  shows "keyed att_key (fold (\<lambda>a d. dict_set (attachment_key j (at_property a) (at_file a)) a d) as d) \<and>
    vals (fold (\<lambda>a d. dict_set (attachment_key j (at_property a) (at_file a)) a d) as d) \<subseteq> vals d \<union> set as"
  using assms
proof (induction as arbitrary: d)
  case (Cons a as)
  have k: "attachment_key j (at_property a) (at_file a) = att_key a"
    using Cons.prems(2) by (simp add: att_key_def)
  note s = keyed_set [OF Cons.prems(1), of a]
  from Cons.IH [OF s(1)] Cons.prems(2) s(2) show ?case by (auto simp: k)
qed simp

lemma rekey_attachments_frame [store_frame]:
  "ms_entities (rekey_attachments i j m) = ms_entities m"
  "ms_entity_order (rekey_attachments i j m) = ms_entity_order m"
  "ms_relations (rekey_attachments i j m) = ms_relations m"
  "ms_relation_order (rekey_attachments i j m) = ms_relation_order m"
  "ms_marked (rekey_attachments i j m) = ms_marked m"
  by (simp_all add: rekey_attachments_def Let_def)

lemma rekey_attachments_ok:
  assumes "keyed att_key (ms_attachments m)"
  shows "keyed att_key (ms_attachments (rekey_attachments i j m))"
    and "vals (ms_attachments (rekey_attachments i j m))
      \<subseteq> {a \<in> vals (ms_attachments m). at_entity a \<noteq> i} \<union> {a. at_entity a = j}"
proof -
  let ?moved = "map (\<lambda>(k, a). a\<lparr>at_entity := j\<rparr>) (filter (\<lambda>(k, a). at_entity a = i) (ms_attachments m))"
  note kk = keyed_filter [OF assms, of "\<lambda>a. at_entity a \<noteq> i"]
  have mv: "\<forall>a\<in>set ?moved. at_entity a = j" by auto
  note ra = rekey_attachments_keyed [OF kk(1) mv]
  show "keyed att_key (ms_attachments (rekey_attachments i j m))"
    using ra by (simp add: rekey_attachments_def Let_def)
  have "set ?moved \<subseteq> {a. at_entity a = j}" using mv by blast
  then show "vals (ms_attachments (rekey_attachments i j m))
      \<subseteq> {a \<in> vals (ms_attachments m). at_entity a \<noteq> i} \<union> {a. at_entity a = j}"
    using ra kk(2) unfolding rekey_attachments_def Let_def by auto
qed

lemma rewrite_row_keeps:
  assumes "sound m"
  shows "sound (fst (rewrite_row rw now i j k (m, done'))) \<and> ids (fst (rewrite_row rw now i j k (m, done'))) = ids m \<and>
    rels (fst (rewrite_row rw now i j k (m, done'))) = rels m"
proof (cases "dict_get (ms_entities m) k")
  case (Some e)
  then have e: "e \<in> ents m" and k: "k = entity_key e"
    using keyed_get [OF sound_keyed(1) [OF assms]] by (auto simp: ents_def)
  obtain c ch where c: "rw (ent_content e) i j = (c, ch)" by fastforce
  let ?e = "e\<lparr>ent_content := c, ent_updated := now\<rparr>"
  let ?m = "m\<lparr>ms_entities := dict_set (entity_key e) ?e (ms_entities m)\<rparr>"
  note u = update_row_sound [OF assms e, of ?e, simplified]
  have "data (emit ev (notify n ?m)) = data ?m" for ev n by simp
  note d = sound_data [OF this] sets_data [OF this]
  have "rels ?m = rels m" by (simp add: rels_def)
  with assms Some u d show ?thesis
    by (cases ch) (simp_all add: rewrite_row_def Let_def c k)
qed (use assms in \<open>simp add: rewrite_row_def Let_def\<close>)

lemma rewrite_mentions_keeps:
  assumes "sound m"
  shows "sound (fst (rewrite_mentions rw now i j m)) \<and> ids (fst (rewrite_mentions rw now i j m)) = ids m \<and>
    rels (fst (rewrite_mentions rw now i j m)) = rels m"
proof -
  have "sound (fst (fold (rewrite_row rw now i j) ks st)) \<and>
      ids (fst (fold (rewrite_row rw now i j) ks st)) = ids (fst st) \<and>
      rels (fst (fold (rewrite_row rw now i j) ks st)) = rels (fst st)" if "sound (fst st)" for ks st
    using that
  proof (induction ks arbitrary: st)
    case (Cons k ks)
    then show ?case using rewrite_row_keeps [of "fst st" rw now i j k "snd st"] by simp
  qed simp
  from this [of "(m, [])"] assms show ?thesis by (simp add: rewrite_mentions_def)
qed

text \<open>No id of the store, other than those spelt like the old one, takes the new one.\<close>

lemma rename_free:
  assumes l: "links (ids m) (rels m) (ms_marked m) (ms_attachments m)" and i: "i \<in> ids m" "i \<noteq> []"
    and t: "\<not> id_taken (ms_entities m) j i" "\<not> marked_taken (ms_marked m) j i" and ij: "i \<noteq> j"
  shows "\<forall>x\<in>ids m - {i} \<union> dict_keys (ms_marked m). fold_id x \<noteq> fold_id j" and "j \<notin> ids m"
proof -
  have inj: "inj_on fold_id (ids m \<union> dict_keys (ms_marked m))" and dj: "ids m \<inter> dict_keys (ms_marked m) = {}"
    using l by (auto simp: links_def)
  have 1: "fold_id x = fold_id i \<or> fold_id x \<noteq> fold_id j" if "x \<in> ids m" for x
    using that t(1) i(2) by (auto simp: id_taken_def list_ex_iff ids_def ents_def vals_def)
  have 2: "fold_id x = fold_id i \<or> fold_id x \<noteq> fold_id j" if "x \<in> dict_keys (ms_marked m)" for x
    using that t(2) i(2) by (auto simp: marked_taken_def list_ex_iff dict_keys_def)
  have 3: "x = i" if "x \<in> ids m \<union> dict_keys (ms_marked m)" "fold_id x = fold_id i" for x
    using inj_onD [OF inj that(2) that(1)] i(1) by blast
  show "\<forall>x\<in>ids m - {i} \<union> dict_keys (ms_marked m). fold_id x \<noteq> fold_id j"
    using 1 2 3 i(1) dj by blast
  show "j \<notin> ids m"
    using 1 [of j] 3 [of j] ij by auto
qed

lemma links_rename:
  assumes l: "links I R mk at" and i: "i \<in> I" and v: "validate_id j = None" and nj: "j \<notin> I"
    and free: "\<forall>x\<in>I - {i} \<union> dict_keys mk. fold_id x \<noteq> fold_id j"
    and at: "keyed att_key at'" "vals at' \<subseteq> {a \<in> vals at. at_entity a \<noteq> i} \<union> {a. at_entity a = j}"
  shows "links (insert j (I - {i})) ({r \<in> R. \<not> touches r i} \<union> renamed_relation i j ` {r \<in> R. touches r i})
    (without_edges i mk) at'"
proof -
  have "j \<notin> dict_keys mk" using free by blast
  moreover note links_remove_id [OF l i]
  ultimately have l1: "links (insert j (I - {i})) {r \<in> R. \<not> touches r i} (without_edges i mk)
      (filter (\<lambda>(k, a). at_entity a \<noteq> i) at)"
    using free by (intro links_add_id) auto
  have "edge_ok (insert j (I - {i})) (renamed_relation i j r)" if "r \<in> R" "touches r i" for r
    using that l renamed_edge_ok(1) [OF _ v] by (auto simp: links_def)
  then have e: "\<forall>r\<in>{r \<in> R. \<not> touches r i} \<union> renamed_relation i j ` {r \<in> R. touches r i}.
      edge_ok (insert j (I - {i})) r"
    using l1 by (auto simp: links_def)
  have "keyed att_key at" using l by (simp add: links_def)
  then have "\<forall>a\<in>vals at'. at_entity a \<in> insert j (I - {i}) \<union> dict_keys mk"
    using at(2) l i by (fastforce simp: links_def)
  then show ?thesis using links_edges [OF l1 e] at(1) by (simp add: links_def)
qed

lemma rename_relations_loop:
  assumes e: "edges_ok m" and ok: "\<forall>r\<in>rels m. edge_ok I r" and i: "i \<in> I" and nj: "j \<notin> I" and v: "validate_id j = None"
  defines "old \<equiv> filter (\<lambda>(k, r). touches r i) (ms_relations m)"
  obtains m1 where "each_out (\<lambda>(k, r). drop_relation_row k) old m = Ok m1"
    and "edges_ok (fold (\<lambda>(k, r). let r' = renamed_relation i j r in add_relation_row (relation_key r') r') old m1)"
    and "rels (fold (\<lambda>(k, r). let r' = renamed_relation i j r in add_relation_row (relation_key r') r') old m1)
      = {r \<in> rels m. \<not> touches r i} \<union> renamed_relation i j ` {r \<in> rels m. touches r i}"
    and "node_part (fold (\<lambda>(k, r). let r' = renamed_relation i j r in add_relation_row (relation_key r') r') old m1)
      = node_part m"
proof -
  have k: "keyed relation_key (ms_relations m)" using e by (simp add: relation_index_def)
  note kf = keyed_filter [OF k, of "\<lambda>r. touches r i", folded old_def]
  have s: "set (map snd old) = {r \<in> rels m. touches r i}" using kf(2) by (simp add: vals_def rels_def)
  have d: "distinct (map snd old)" by (rule keyed_vals_distinct [OF kf(1)])
  have pairs: "each_out (\<lambda>(k, r). drop_relation_row k) old m
      = each_out (\<lambda>r. drop_relation_row (relation_key r)) (map snd old) m"
    using kf(1) by (intro each_out_pairs) (auto simp: keyed_def)
  have "set (map snd old) \<subseteq> rels m" using s by auto
  from drop_relations_loop [OF e d this] obtain m1 where m1:
    "each_out (\<lambda>r. drop_relation_row (relation_key r)) (map snd old) m = Ok m1" "edges_ok m1"
    "rels m1 = rels m - set (map snd old)" "node_part m1 = node_part m" by blast
  let ?rs = "map (renamed_relation i j) (map snd old)"
  have foldeq: "fold (\<lambda>(k, r). let r' = renamed_relation i j r in add_relation_row (relation_key r') r') old m1
      = fold (\<lambda>r. add_relation_row (relation_key r) r) ?rs m1"
    by (simp add: fold_map comp_def case_prod_unfold Let_def)
  have ends: "rel_from r \<noteq> j" "rel_to r \<noteq> j" if "r \<in> rels m" for r
    using ok nj that by (auto simp: edge_ok_def)
  have new: "edge_ok (insert j (I - {i})) (renamed_relation i j r)" "touches (renamed_relation i j r) j"
    if "r \<in> rels m" "touches r i" for r
    using ok that renamed_edge_ok [OF _ v that(2)] by auto
  have inj: "inj_on (\<lambda>r. relation_key (renamed_relation i j r)) (set (map snd old))"
  proof (rule inj_onI)
    fix r q
    assume r: "r \<in> set (map snd old)" and q: "q \<in> set (map snd old)"
      and eq: "relation_key (renamed_relation i j r) = relation_key (renamed_relation i j q)"
    have rm: "r \<in> rels m" "touches r i" "q \<in> rels m" "touches q i" using r q s by auto
    have "relation_identity (renamed_relation i j r) = relation_identity (renamed_relation i j q)"
      using edge_keys_inject [OF new(1) [OF rm(1,2)] new(1) [OF rm(3,4)]] eq by simp
    then have "relation_identity r = relation_identity q"
      using renamed_relation_inject ends rm by blast
    then have "relation_key r = relation_key q" by (simp add: relation_key_def)
    then show "r = q" using keyed_inj [OF k] rm by (simp add: rels_def)
  qed
  have dk: "distinct (map relation_key ?rs)"
    using d inj by (simp add: distinct_map comp_def inj_on_def)
  have "relation_key (renamed_relation i j r) \<noteq> relation_key q" if "r \<in> rels m" "touches r i" "q \<in> rels m" for r q
  proof
    assume eq: "relation_key (renamed_relation i j r) = relation_key q"
    have "relation_identity (renamed_relation i j r) = relation_identity q"
      using edge_keys_inject [OF new(1) [OF that(1,2)], of I q] ok that(3) eq by simp
    then have "touches q j" using new(2) [OF that(1,2)] by (auto simp: touches_def relation_identity_def)
    then show False using ends [OF that(3)] by (simp add: touches_def)
  qed
  then have "relation_key ` set ?rs \<inter> relation_key ` rels m1 = {}"
    using s m1(3) by (auto simp del: list.set_map)
  note ad = add_relations_loop [OF m1(2) dk this]
  have "set ?rs = renamed_relation i j ` {r \<in> rels m. touches r i}"
    unfolding s [symmetric] by (simp add: image_image)
  moreover have "rels m1 = {r \<in> rels m. \<not> touches r i}" unfolding m1(3) s by auto
  ultimately show thesis
    using ad m1(1,4) by (intro that [of m1]) (simp_all only: foldeq pairs)
qed

lemma family_faces_distinct:
  assumes "keyed entity_key d"
  shows "distinct (map (\<lambda>x. ent_face (snd x)) (family_rows d i))"
proof -
  have "distinct (map fst d)" using assms by (simp add: keyed_def dict_ok_def)
  moreover have "fst x = format_state_ref i (ent_face (snd x))" if "x \<in> set (family_rows d i)" for x
    using that assms by (auto simp: family_rows_def keyed_def entity_key_def)
  ultimately show ?thesis
    unfolding distinct_map by (auto simp: inj_on_def family_rows_def distinct_map)
qed

lemma rename_entity_leaves:
  assumes s: "sound m" and ij: "i \<noteq> j"
  shows "safely (\<lambda>(r, m'). sound m' \<and> ids m' = insert j (ids m - {i}) \<and>
      rels m' = {r \<in> rels m. \<not> touches r i} \<union> renamed_relation i j ` {r \<in> rels m. touches r i})
    (rename_entity rw now i j m)"
proof -
  let ?fam = "sorted_faces (family_rows (ms_entities m) i)"
  note k = sound_keyed [OF s]
  note fl = family_list [OF k(1), of i]
  show ?thesis
  proof (cases "validate_id j = None \<and> ?fam \<noteq> [] \<and>
      \<not> (id_taken (ms_entities m) j i \<or> marked_taken (ms_marked m) j i)")
    case False
    then show ?thesis by (auto simp: rename_entity_def Let_def split: option.splits)
  next
    case True
    then have v: "validate_id j = None" and t: "\<not> id_taken (ms_entities m) j i" "\<not> marked_taken (ms_marked m) j i"
      and fne: "?fam \<noteq> []" by auto
    have l: "links (ids m) (rels m) (ms_marked m) (ms_attachments m)" using s by (simp add: sound_def)
    have i: "i \<in> ids m" using fl(4) fne by (simp add: ids_def ents_def)
    then have "validate_id i = None" using s by (auto simp: sound_def entity_index_def ids_def ents_def)
    then have ine: "i \<noteq> []" using id_start [of i] by simp
    note free = rename_free [OF l i ine t ij]
    have sf: "snd ` set ?fam = {e \<in> ents m. ent_id e = i}" using fl(1) by (simp add: ents_def)
    have df: "distinct (map (\<lambda>x. ent_face (snd x)) ?fam)"
      using family_faces_distinct [OF k(1), of i] by (simp add: sorted_faces_def distinct_map)
    have m0: "\<forall>(q, e)\<in>set ?fam. q = entity_key e \<and> ent_id e = i \<and> e \<in> ents m"
      using fl(3) by (simp add: ents_def)
    have nof: "\<forall>f\<in>ents m. ent_id f = j \<longrightarrow> ent_face f \<notin> (\<lambda>x. ent_face (snd x)) ` set ?fam"
      using free(2) by (auto simp: ids_def)
    from rekey_family_loop [OF v ij k(3) df m0 nof] obtain m1 where m1: "each_out (rekey_row now j) ?fam m = Ok m1"
      "nodes_ok m1" "ents m1 = (ents m - snd ` set ?fam) \<union> renamed_entity now j ` snd ` set ?fam"
      "edge_part m1 = edge_part m" by blast
    let ?ren = "map (\<lambda>(k, e). e\<lparr>ent_id := j, ent_updated := now\<rparr>) ?fam"
    let ?m2 = "fold (\<lambda>e. notify (NoteRenamed i e)) (filter (\<lambda>e. is_implicit (ent_face e)) ?ren @
        filter (\<lambda>e. \<not> is_implicit (ent_face e)) ?ren) m1"
    let ?m3 = "drop_marked_edges i ?m2"
    have d2: "data ?m2 = data m1" by simp
    have m3: "nodes_ok ?m3" "ents ?m3 = ents m1" "edges_ok ?m3" "rels ?m3 = rels m"
      "ms_relations ?m3 = ms_relations m" "ms_marked ?m3 = without_edges i (ms_marked m)"
      "ms_attachments ?m3 = ms_attachments m"
      using data_eqD [OF d2] m1(2,4) k(4) by (simp_all add: store_frame ents_def rels_def edge_part_def)
    let ?old = "filter (\<lambda>(k, r). touches r i) (ms_relations ?m3)"
    let ?add = "fold (\<lambda>(k, r). let r' = renamed_relation i j r in add_relation_row (relation_key r') r') ?old"
    have re: "\<forall>r\<in>rels ?m3. edge_ok (ids m) r" using l m3(4) by (simp add: links_def)
    from rename_relations_loop [OF m3(3) re i free(2) v] obtain m4 where m4:
      "each_out (\<lambda>(k, r). drop_relation_row k) ?old ?m3 = Ok m4" "edges_ok (?add m4)"
      "rels (?add m4) = {r \<in> rels m. \<not> touches r i} \<union> renamed_relation i j ` {r \<in> rels m. touches r i}"
      "node_part (?add m4) = node_part ?m3" unfolding m3(4) by blast
    define m5 where "m5 = ?add m4"
    note m5 = m4(2-4) [folded m5_def]
    let ?m6 = "rekey_attachments i j m5"
    have a5: "ms_attachments m5 = ms_attachments m" "ms_marked m5 = without_edges i (ms_marked m)"
      "nodes_ok m5" "ents m5 = ents m1"
      using m5(3) m3(1,2,6,7) by (simp_all add: node_part_def ents_def)
    have "keyed att_key (ms_attachments m5)" using l by (simp add: links_def a5)
    note at6 = rekey_attachments_ok [OF this, of i j, unfolded a5]
    have n6: "nodes_ok ?m6" "ents ?m6 = ents m1" using a5 by (simp_all add: store_frame ents_def)
    have "ent_id ` renamed_entity now j ` snd ` set ?fam = (\<lambda>x. j) ` set ?fam" by (simp add: image_image)
    also have "\<dots> = {j}" using fne by (simp add: image_constant_conv)
    finally have "ids m1 = insert j (ent_id ` (ents m - snd ` set ?fam))"
      by (simp add: ids_def m1(3) image_Un)
    also have "ent_id ` (ents m - snd ` set ?fam) = ids m - {i}" unfolding sf by (auto simp: ids_def)
    finally have "ids m1 = insert j (ids m - {i})" .
    then have ids6: "ids ?m6 = insert j (ids m - {i})" using n6(2) by (simp add: ids_def)
    note lr = links_rename [OF l i v free(2) free(1) at6]
    let ?R = "{r \<in> rels m. \<not> touches r i} \<union> renamed_relation i j ` {r \<in> rels m. touches r i}"
    have s6: "sound ?m6" "rels ?m6 = ?R"
      using n6(1) m5(1,2) lr a5 by (simp_all add: sound_def ids6 rels_def store_frame)
    define Q where "Q m' \<longleftrightarrow> sound m' \<and> ids m' = insert j (ids m - {i}) \<and> rels m' = ?R" for m'
    have "Q (emit_all evs ?m6)" for evs
      using s6 ids6 sets_data [OF data_emit_all [of evs ?m6]] by (simp add: Q_def sound_data [OF data_emit_all])
    then have s7: "Q (fst (rewrite_mentions rw now i j (emit_all evs ?m6)))" for evs
      using rewrite_mentions_keeps [of "emit_all evs ?m6" rw now i j] by (simp add: Q_def)
    show ?thesis
      unfolding rename_entity_def Let_def v option.case m1(1) bind_out.simps Q_def [symmetric]
      using t fne m4(1) s7
      by (simp add: case_prod_unfold Let_def m5_def)
  qed
qed

section \<open>Replacing a family\<close>

lemma drop_notify: "drop_entity_row k m = Ok m' \<Longrightarrow> drop_entity_row k (notify n m) = Ok (notify n m')"
  by (auto simp: drop_entity_row_def bind_out_Ok panic_none_Ok notify_def)

lemma replace_entity_family_leaves:
  assumes s: "sound m"
  shows "safely (leaves ({e \<in> ents m. ent_id e \<noteq> i} \<union> (\<lambda>r. (fr_entity r)\<lparr>ent_updated := now\<rparr>) ` set rs) (rels m))
    (replace_entity_family now i rs m)"
proof -
  let ?old = "family_rows (ms_entities m) i"
  note k = sound_keyed [OF s]
  show ?thesis
  proof (cases "validate_family_replacement i (map (\<lambda>(k, e). ent_face e) ?old) rs")
    case (Inl err)
    then show ?thesis by (simp add: replace_entity_family_def Let_def)
  next
    case (Inr emptied)
    have df: "distinct (map (\<lambda>(k, e). ent_face e) ?old)"
      using family_faces_distinct [OF k(1), of i] by (simp add: case_prod_unfold)
    have v: "validate_id i = None" and shape: "validate_replacement_shape i (map (\<lambda>(k, e). ent_face e) ?old) rs = Inr emptied"
      using Inr by (auto simp: validate_family_replacement_def split: option.splits sum.splits)
    note sh = replacement_shape_Inr [OF df, THEN iffD1, OF shape]
    then have rid: "ent_id (fr_entity r) = i" if "r \<in> set rs" for r using that by auto
    have ne: "rs \<noteq> []" using sh by auto
    note kf = keyed_family_rows [OF k(1), of i]
    have ds: "distinct (map snd ?old)" by (rule keyed_vals_distinct [OF kf(1)])
    have so: "set (map snd ?old) = {e \<in> ents m. ent_id e = i}" using kf(2) by (simp add: vals_def ents_def)
    have i: "i \<in> ids m"
    proof -
      have "?old \<noteq> []" using sh by auto
      then show ?thesis using family_size_ids [of m i] by (simp add: family_size_def)
    qed
    let ?f = "\<lambda>e m. drop_entity_row (entity_key e) (notify (NoteFaceDelete i (ent_face e)) m)"
    have pairs: "each_out (\<lambda>(k, e) m. drop_entity_row k (notify (NoteFaceDelete i (ent_face e)) m)) ?old m
        = each_out ?f (map snd ?old) m"
      using kf(1) by (intro each_out_pairs) (auto simp: keyed_def)
    have sub: "set (map snd ?old) \<subseteq> ents m" using so by auto
    from drop_entities_loop [of "map snd ?old" ?f "\<lambda>e. NoteFaceDelete i (ent_face e)" m, OF _ k(3) ds sub] drop_notify
    obtain m1 where m1: "each_out ?f (map snd ?old) m = Ok m1" "nodes_ok m1"
      "ents m1 = ents m - set (map snd ?old)" "edge_part m1 = edge_part m" by blast
    let ?row = "\<lambda>r. (fr_entity r)\<lparr>ent_updated := now\<rparr>"
    let ?put = "\<lambda>r m. let row = ?row r in
        emit (entity_event EventEntityUpdated (ent_type row) (ent_id row) (ent_face row))
          (notify (NotePut row) (add_entity_row (format_state_ref (ent_id row) (ent_face row)) row m))"
    let ?m2 = "notify (NoteLastFaceDelete i) m1"
    have d2: "data ?m2 = data m1" by simp
    have e2: "nodes_ok ?m2" "ents ?m2 = {e \<in> ents m. ent_id e \<noteq> i}" "edge_part ?m2 = edge_part m"
      using sets_data [OF d2] part_data [OF d2] data_eqD [OF d2] m1 so by auto
    have dk: "distinct (map (\<lambda>r. entity_key (?row r)) rs)"
    proof -
      have "inj_on (\<lambda>r. entity_key (?row r)) (set rs)"
      proof (rule inj_onI)
        fix r q
        assume r: "r \<in> set rs" and q: "q \<in> set rs" and eq: "entity_key (?row r) = entity_key (?row q)"
        have "fr_target r = fr_target q"
          using eq v rid [OF r] rid [OF q] by (simp add: entity_key_inject fr_target_def)
        then show "r = q" using sh r q by (auto simp: distinct_map inj_on_def)
      qed
      then show ?thesis using sh by (simp add: distinct_map)
    qed
    have fresh: "\<forall>r\<in>set rs. validate_id (ent_id (?row r)) = None \<and> entity_key (?row r) \<notin> entity_key ` ents ?m2"
    proof
      fix r
      assume r: "r \<in> set rs"
      have "entity_key (?row r) \<noteq> entity_key e" if "e \<in> ents m" "ent_id e \<noteq> i" for e
        using that rid [OF r] v s by (auto simp: entity_key_inject sound_def entity_index_def ents_def)
      then show "validate_id (ent_id (?row r)) = None \<and> entity_key (?row r) \<notin> entity_key ` ents ?m2"
        using rid [OF r] v by (auto simp: e2(2))
    qed
    have "nodes_ok (fold ?put rs ?m2) \<and> ents (fold ?put rs ?m2) = ents ?m2 \<union> ?row ` set rs \<and>
        edge_part (fold ?put rs ?m2) = edge_part ?m2"
      using e2(1) dk fresh by (intro add_entities_loop) (simp_all add: Let_def entity_key_def)
    then have m3: "nodes_ok (fold ?put rs ?m2)" "ents (fold ?put rs ?m2) = {e \<in> ents m. ent_id e \<noteq> i} \<union> ?row ` set rs"
      "edge_part (fold ?put rs ?m2) = edge_part m"
      using e2 by auto
    have "ent_id ` (?row ` set rs) = (\<lambda>r. i) ` set rs" using rid by (simp add: image_image)
    then have "ent_id ` (?row ` set rs) = {i}" using ne by (simp add: image_constant_conv)
    moreover have "ent_id ` {e \<in> ents m. ent_id e \<noteq> i} = ids m - {i}" by (auto simp: ids_def)
    ultimately have "ids (fold ?put rs ?m2) = ids m - {i} \<union> {i}" unfolding ids_def m3(2) image_Un by simp
    then have "ids (fold ?put rs ?m2) = ids m" using i by auto
    then have "leaves ({e \<in> ents m. ent_id e \<noteq> i} \<union> ?row ` set rs) (rels m) (fold ?put rs ?m2)"
      using s m3 by (simp add: leaves_def sound_def edge_part_def rels_def)
    then show ?thesis
      using Inr pairs m1(1) by (simp add: replace_entity_family_def Let_def leaves_data [OF data_emit_all])
  qed
qed

section \<open>Runs\<close>

text \<open>The writes of the store's interface, one constructor per exported method.\<close>

datatype store_write =
    CreateEntity entity | UpdateEntityIf entity string | DeleteFamily string bool | DeleteFace ref
  | RenameFamily string string | ReplaceEntityFamily string "family_replacement list"
  | CreateRelation relation_key "relation_data option" | UpdateRelation relation_key relation_data
  | DeleteRelation relation_key
  | AttachFamilyFile string string string string | DeleteFamilyAttachment string string string
  | MarkDeleted string string | Unmark string | PurgeMarked string

abbreviation next_state :: "('e, 'a \<times> memstore) outcome \<Rightarrow> ('e, memstore) outcome" where
  "next_state x \<equiv> bind_out x (\<lambda>(r, m). Ok m)"

fun exec_write ::
  "(string \<Rightarrow> string) \<Rightarrow> (string \<Rightarrow> string \<Rightarrow> string \<Rightarrow> string \<times> bool) \<Rightarrow> int \<Rightarrow> store_write \<Rightarrow>
   memstore \<Rightarrow> (store_error, memstore) outcome" where
  "exec_write sha rw now (CreateEntity e) m = create_entity now e m"
| "exec_write sha rw now (UpdateEntityIf e v) m = next_state (update_entity_if sha now e v m)"
| "exec_write sha rw now (DeleteFamily i c) m = next_state (delete_entity i c m)"
| "exec_write sha rw now (DeleteFace r) m = next_state (delete_face r m)"
| "exec_write sha rw now (RenameFamily i j) m = next_state (rename_entity rw now i j m)"
| "exec_write sha rw now (ReplaceEntityFamily i rs) m = replace_entity_family now i rs m"
| "exec_write sha rw now (CreateRelation k d) m = next_state (create_relation now k d m)"
| "exec_write sha rw now (UpdateRelation k d) m = next_state (update_relation now k d m)"
| "exec_write sha rw now (DeleteRelation k) m = delete_relation k m"
| "exec_write sha rw now (AttachFamilyFile i p f d) m = attach_file sha i p f d m"
| "exec_write sha rw now (DeleteFamilyAttachment i p f) m = delete_attachment i p f m"
| "exec_write sha rw now (MarkDeleted i who) m = next_state (mark_deleted now i who m)"
| "exec_write sha rw now (Unmark i) m = next_state (unmark i m)"
| "exec_write sha rw now (PurgeMarked i) m = next_state (purge_marked i m)"

text \<open>
  What the caller has to guarantee and the store does not check: a face is created under its
  family's spelling of the id, an update names no state key, the last face of a family with hidden
  edges is deleted as a family, a family is not renamed to itself, and an edge joins stored
  entities.
\<close>

fun permitted :: "store_write \<Rightarrow> memstore \<Rightarrow> bool" where
  "permitted (CreateEntity e) m \<longleftrightarrow> same_spelling e m"
| "permitted (UpdateEntityIf e v) m \<longleftrightarrow> CHR ''@'' \<notin> set (ent_id e)"
| "permitted (DeleteFace r) m \<longleftrightarrow>
     family_size (ms_entities m) (ref_id r) \<noteq> 1 \<or> no_hidden_edges (ref_id r) m"
| "permitted (RenameFamily i j) m \<longleftrightarrow> i \<noteq> j"
| "permitted (CreateRelation k d) m \<longleftrightarrow> edge_allowed k m"
| "permitted _ m \<longleftrightarrow> True"

inductive reachable ::
  "(string \<Rightarrow> string) \<Rightarrow> (string \<Rightarrow> string \<Rightarrow> string \<Rightarrow> string \<times> bool) \<Rightarrow> memstore \<Rightarrow> bool"
  for sha rw where
  start: "reachable sha rw new_store"
| written: "reachable sha rw m \<Longrightarrow> permitted w m \<Longrightarrow> exec_write sha rw now w m = Ok m' \<Longrightarrow> reachable sha rw m'"
| watch: "reachable sha rw m \<Longrightarrow> reachable sha rw (snd (subscribe n m))"
| unwatch: "reachable sha rw m \<Longrightarrow> reachable sha rw (cancel_sub n m)"
| closed: "reachable sha rw m \<Longrightarrow> reachable sha rw (close_store m)"

inductive_cases reachableE: "reachable sha rw m"

lemma next_state_safely:
  "safely (\<lambda>(r, m). P r m) x \<Longrightarrow> (\<And>r m. P r m \<Longrightarrow> Q m) \<Longrightarrow> safely Q (next_state x)"
  by (cases x) auto

lemma safely_mono: "safely P x \<Longrightarrow> (\<And>y. P y \<Longrightarrow> Q y) \<Longrightarrow> safely Q x"
  by (cases x) auto

lemmas write_leaves =
  create_entity_leaves [THEN safely_mono] update_entity_if_leaves [THEN next_state_safely]
  delete_entity_leaves [THEN next_state_safely] delete_face_leaves [THEN next_state_safely]
  rename_entity_leaves [THEN next_state_safely] replace_entity_family_leaves [THEN safely_mono]
  create_relation_leaves [THEN next_state_safely] update_relation_leaves [THEN next_state_safely]
  delete_relation_leaves [THEN safely_mono] attach_file_leaves [THEN safely_mono]
  delete_attachment_leaves [THEN safely_mono] mark_deleted_leaves [THEN next_state_safely]
  purge_marked_leaves [THEN next_state_safely] unmark_sound [THEN next_state_safely]

lemma exec_write_sound: "sound m \<Longrightarrow> permitted w m \<Longrightarrow> safely sound (exec_write sha rw now w m)"
  by (cases w) (auto intro!: write_leaves dest: leaves_sound)

lemma data_subscribers [simp]:
  "data (snd (subscribe n m)) = data m" "data (cancel_sub n m) = data m" "data (close_store m) = data m"
  by (simp_all add: data_def subscribe_def cancel_sub_def close_store_def)

lemma reachable_sound: "reachable sha rw m \<Longrightarrow> sound m"
proof (induction rule: reachable.induct)
  case (written m w now m')
  then show ?case using exec_write_sound [of m w sha rw now] by simp
qed (simp_all add: sound_new_store sound_data [OF data_subscribers(1)] sound_data [OF data_subscribers(2)]
    sound_data [OF data_subscribers(3)])

end
