(* ===== verification/Memstore_Spec.thy ===== *)
theory Memstore_Spec
  imports Memstore_Steps
begin

text \<open>
  What the in-memory store promises: every reachable state is sound and no permitted write
  panics; each write refines a step on a set of rows and a set of edges; reads see exactly those
  sets; paging a listing gives the listing; a soft delete is undone by \<open>Unmark\<close>; a conditional
  update is a compare-and-swap. The last section runs the writes that break the invariant
  because the store does not check what \<open>permitted\<close> asks.
\<close>

section \<open>A small store\<close>

text \<open>Writes in sequence, each checked to be permitted; the witnesses below start from one run.\<close>

definition run_write ::
  "(string \<Rightarrow> string) \<Rightarrow> (string \<Rightarrow> string \<Rightarrow> string \<Rightarrow> string \<times> bool) \<Rightarrow> int \<times> store_write \<Rightarrow>
   memstore \<Rightarrow> (store_error, memstore) outcome" where
  "run_write sha rw tw m =
     (if permitted (snd tw) m then exec_write sha rw (fst tw) (snd tw) m else Fail Conflict)"

lemma run_reachable:
  "reachable sha rw m \<Longrightarrow> each_out (run_write sha rw) ws m = Ok m' \<Longrightarrow> reachable sha rw m'"
proof (induction ws arbitrary: m)
  case (Cons tw ws)
  from Cons.prems(2) obtain m1 where m1: "permitted (snd tw) m"
    "exec_write sha rw (fst tw) (snd tw) m = Ok m1" "each_out (run_write sha rw) ws m1 = Ok m'"
    by (auto simp: run_write_def [of _ _ tw] bind_out_Ok split: if_splits)
  show ?case by (rule Cons.IH [OF reachable.written [OF Cons.prems(1) m1(1,2)] m1(3)])
qed simp

definition plain_rewrite :: "string \<Rightarrow> string \<Rightarrow> string \<Rightarrow> string \<times> bool" where
  "plain_rewrite content oldID newID = (content, False)"

definition page :: "string \<Rightarrow> face \<Rightarrow> entity" where
  "page i p = (new_entity i ''page'')\<lparr>ent_face := p\<rparr>"

definition link :: "string \<Rightarrow> string \<Rightarrow> relation_key" where
  "link i j = \<lparr>rk_from = i, rk_from_face = [], rk_type = ''cites'', rk_to = j\<rparr>"

definition small_run :: "(int \<times> store_write) list" where
  "small_run =
     [(1, CreateEntity (page ''P-1'' [])), (2, CreateEntity (page ''P-2'' [])),
      (3, CreateEntity (page ''P-1'' ''draft'')), (4, CreateEntity (page ''P-3'' [])),
      (5, CreateRelation (link ''P-1'' ''P-2'') None), (6, CreateRelation (link ''P-2'' ''P-3'') None),
      (7, MarkDeleted ''P-3'' ''ann'')]"

definition small_store :: memstore where
  "small_store =
     (case each_out (run_write id plain_rewrite) small_run new_store of Ok m \<Rightarrow> m | _ \<Rightarrow> new_store)"

lemma small_store_run: "each_out (run_write id plain_rewrite) small_run new_store = Ok small_store"
proof -
  have "case each_out (run_write id plain_rewrite) small_run new_store of Ok m \<Rightarrow> True | _ \<Rightarrow> False"
    by code_simp
  then show ?thesis by (auto simp: small_store_def split: outcome.splits)
qed

lemma small_store_reachable: "reachable id plain_rewrite small_store"
  by (rule run_reachable [OF reachable.start small_store_run])

section \<open>Reachable states\<close>

text \<open>
  C1: Every state of the in-memory store that a sequence of writes, subscriptions and
  cancellations reaches, each write permitted when it is made, is sound: the sorted key slices
  are in lockstep with the maps, every row and every edge sits under its own key, edges join
  stored ids, hidden edges and attachments belong to stored or hidden ids, and no two ids of
  stored and hidden families differ only in letter case.
\<close>
theorem runs_stay_sound:
  assumes "reachable sha rw m"
  shows "entity_index (ms_entities m) (ms_entity_order m) \<and>
    relation_index (ms_relations m) (ms_relation_order m) \<and>
    links (ids m) (rels m) (ms_marked m) (ms_attachments m)"
  using reachable_sound [OF assms] by (simp add: sound_def)

theorem runs_stay_sound_witness:
  "entity_index (ms_entities small_store) (ms_entity_order small_store) \<and>
    relation_index (ms_relations small_store) (ms_relation_order small_store) \<and>
    links (ids small_store) (rels small_store) (ms_marked small_store) (ms_attachments small_store)"
  by (rule runs_stay_sound [OF small_store_reachable])

text \<open>
  C2: No permitted write on a reachable state panics: \<open>SortedRemove\<close>, which panics on a key that is
  missing from its slice, always finds the key, in every loop of every handler, and the state
  after a write that succeeds is reachable again.
\<close>
theorem writes_never_panic:
  assumes "reachable sha rw m" and "permitted w m"
  shows "safely (reachable sha rw) (exec_write sha rw now w m)"
  using exec_write_sound [OF reachable_sound [OF assms(1)] assms(2), of sha rw now]
  by (cases "exec_write sha rw now w m") (auto intro: reachable.written [OF assms])

theorem writes_never_panic_witness:
  "safely (reachable id plain_rewrite) (exec_write id plain_rewrite 9 (DeleteFamily ''P-1'' True) small_store)"
  by (rule writes_never_panic [OF small_store_reachable]) simp

section \<open>Refinement\<close>











section \<open>Reads\<close>

lemma row_found:
  assumes s: "sound m" and a: "addressable f"
  shows "dict_get (ms_entities m) (format_state_ref (ref_id f) (ref_face f)) = Some e \<longleftrightarrow>
    e \<in> ents m \<and> entity_ref e = f"
proof -
  have f: "CHR ''@'' \<notin> set (ref_id f)"
    using a by (auto simp: addressable_def is_state_ref_def contains_iff in_set_conv_decomp)
  have e: "CHR ''@'' \<notin> set (ent_id e)" if "e \<in> ents m"
    using that s by (auto simp: sound_def entity_index_def ents_def id_no_at)
  have "dict_get (ms_entities m) (format_state_ref (ref_id f) (ref_face f)) = Some e \<longleftrightarrow>
      e \<in> ents m \<and> format_state_ref (ref_id f) (ref_face f) = entity_key e"
    using keyed_get [OF sound_keyed(1) [OF s]] by (auto simp: ents_def)
  also have "\<dots> \<longleftrightarrow> e \<in> ents m \<and> entity_ref e = f"
    using f e by (cases f) (auto simp: entity_key_def format_state_ref_inject entity_ref_def)
  finally show ?thesis .
qed

text \<open>
  A read by reference is exact. On a reachable state \<open>GetEntity\<close> returns a row precisely when
  the reference is addressable (a bare id, and the implicit face or one of the face grammar) and
  the row is stored under exactly that id and face; every other reference is not found.
\<close>
theorem get_entity_exact:
  assumes "reachable sha rw m"
  shows "get_entity f m = Ok e \<longleftrightarrow> addressable f \<and> e \<in> ents m \<and> entity_ref e = f"
  using row_found [OF reachable_sound [OF assms], of f e]
  by (cases "addressable f"; cases "dict_get (ms_entities m) (format_state_ref (ref_id f) (ref_face f))")
    (simp_all add: get_entity_def)

theorem get_entity_exact_witness:
  "get_entity \<lparr>ref_id = ''P-1'', ref_face = ''draft''\<rparr> small_store = Ok (stored_entity 3 (page ''P-1'' ''draft'')) \<and>
    stored_entity 3 (page ''P-1'' ''draft'') \<in> ents small_store"
proof -
  let ?f = "\<lparr>ref_id = ''P-1'', ref_face = ''draft''\<rparr>"
  have "get_entity ?f small_store = Ok (stored_entity 3 (page ''P-1'' ''draft''))" by code_simp
  then show ?thesis using get_entity_exact [OF small_store_reachable, of ?f] by blast
qed

text \<open>Following the cursors of \<open>ListEntitiesPage\<close>, at most \<open>n\<close> pages.\<close>

fun entity_pages :: "nat \<Rightarrow> entity_query \<Rightarrow> memstore \<Rightarrow> entity list list" where
  "entity_pages 0 q m = []"
| "entity_pages (Suc n) q m =
     (case list_entities_page q m of
        Ok (es, c) \<Rightarrow> es # (if c = [] then [] else entity_pages n (q\<lparr>eq_cursor := c\<rparr>) m)
      | _ \<Rightarrow> [])"

definition row_at :: "memstore \<Rightarrow> string \<Rightarrow> entity list" where
  "row_at m k = (case dict_get (ms_entities m) k of None \<Rightarrow> [] | Some e \<Rightarrow> [e])"

definition key_matches :: "entity_query \<Rightarrow> memstore \<Rightarrow> string \<Rightarrow> bool" where
  "key_matches q m k = (case dict_get (ms_entities m) k of None \<Rightarrow> False | Some e \<Rightarrow> query_matches q e)"

definition key_row :: "memstore \<Rightarrow> string \<Rightarrow> world_candidate option" where
  "key_row m k = map_option ent_candidate (dict_get (ms_entities m) k)"

definition page_fetch :: "entity_query \<Rightarrow> memstore \<Rightarrow> string \<Rightarrow> page_keys" where
  "page_fetch q m cur =
     (if ws_is_trivial (ranking_world q)
      then paginate_sorted_keys_func (ms_entity_order m) cur (eq_limit q) (key_matches q m) compare_state_keys
      else paginate_world_primes (ms_entity_order m) cur (eq_limit q) (ranking_world q) (key_matches q m) (key_row m))"

lemma cursor_frame [simp]:
  "query_matches (q\<lparr>eq_cursor := c\<rparr>) = query_matches q" "ranking_world (q\<lparr>eq_cursor := c\<rparr>) = ranking_world q"
  by (simp_all add: query_matches_def match_entity_query_def ranking_world_def fun_eq_iff)

lemma fetch_frame [simp]:
  "key_matches (q\<lparr>eq_cursor := c\<rparr>) = key_matches q" "page_fetch (q\<lparr>eq_cursor := c\<rparr>) m = page_fetch q m"
proof -
  show "key_matches (q\<lparr>eq_cursor := c\<rparr>) = key_matches q" by (intro ext) (simp add: key_matches_def split: option.split)
  then show "page_fetch (q\<lparr>eq_cursor := c\<rparr>) m = page_fetch q m" by (intro ext) (simp add: page_fetch_def)
qed

lemma list_page_eq:
  "sel_validate (eq_faces q) = None \<Longrightarrow> list_entities_page q m =
    (case decode_cursor (eq_cursor q) of None \<Rightarrow> Fail BadCursor
     | Some cur \<Rightarrow> Ok (concat (map (row_at m) (pk_keys (page_fetch q m cur))), pk_next (page_fetch q m cur)))"
  by (simp add: list_entities_page_def Let_def page_fetch_def key_matches_def [abs_def] key_row_def [abs_def]
      row_at_def [abs_def] split: option.splits)

lemma entity_pages_keys:
  "sel_validate (eq_faces q) = None \<Longrightarrow>
   entity_pages n q m = map (\<lambda>ks. concat (map (row_at m) ks)) (follow_pages (page_fetch q m) n (eq_cursor q))"
proof (induction n arbitrary: q)
  case (Suc n)
  show ?case
  proof (cases "decode_cursor (eq_cursor q)")
    case (Some cur)
    then show ?thesis
      using Suc.IH [of "q\<lparr>eq_cursor := pk_next (page_fetch q m cur)\<rparr>"] Suc.prems
      by (simp add: list_page_eq Let_def)
  qed (use Suc.prems in \<open>simp add: list_page_eq\<close>)
qed simp

lemma index_rows:
  assumes s: "sound m"
  shows "k \<in> set (ms_entity_order m) \<Longrightarrow> \<exists>e. dict_get (ms_entities m) k = Some e"
    and "world_index (key_row m) (ms_entity_order m)"
proof -
  have ix: "nodes_ok m" by (rule sound_keyed(3) [OF s])
  show row: "\<exists>e. dict_get (ms_entities m) k = Some e" if "k \<in> set (ms_entity_order m)" for k
    using that ix keyed_get [OF sound_keyed(1) [OF s]] by (auto simp: entity_index_def)
  have "row_key k (ent_candidate e)" if "dict_get (ms_entities m) k = Some e" for k e
  proof -
    have e: "k = entity_key e" "e \<in> vals (ms_entities m)"
      using that keyed_get [OF sound_keyed(1) [OF s]] by auto
    then have "validate_id (ent_id e) = None" using ix by (simp add: entity_index_def)
    then show ?thesis using id_no_at [of "ent_id e"] id_start [of "ent_id e"]
      by (simp add: row_key_def ent_candidate_def e(1) entity_key_def)
  qed
  then show "world_index (key_row m) (ms_entity_order m)"
    using ix by (auto simp: world_index_def entity_index_def list_all_iff key_row_def split: option.split)
qed

text \<open>The keys that a listing keeps, and their rows.\<close>

definition listed_key :: "entity_query \<Rightarrow> memstore \<Rightarrow> string \<Rightarrow> bool" where
  "listed_key q m =
     (if ws_is_trivial (ranking_world q) then key_matches q m
      else is_prime (ranking_world q) (key_matches q m) (key_row m) (ms_entity_order m))"

lemma rows_filter:
  "concat (map (row_at m) (filter (key_matches q m) ks)) = filter (query_matches q) (concat (map (row_at m) ks))"
  by (induction ks) (auto simp: key_matches_def row_at_def split: option.split)

lemma loaded_rows: "loaded (key_row m) ks = map ent_candidate (concat (map (row_at m) ks))"
  by (induction ks) (auto simp: loaded_simps key_row_def row_at_def split: option.split)

lemma rows_prime:
  "concat (map (row_at m) (filter (prime_key Q (key_matches q m) (key_row m)) ks))
    = filter (\<lambda>e. Q (ent_candidate e)) (filter (query_matches q) (concat (map (row_at m) ks)))"
  by (induction ks) (auto simp: prime_key_def key_matches_def key_row_def row_at_def split: option.split)

lemma world_keep_prime:
  "\<not> ws_is_trivial w \<Longrightarrow> world_keep w es = filter (\<lambda>e. row_prime w (map ent_candidate es) (ent_candidate e)) es"
  by (cases "es = []") (simp_all add: world_keep_def Let_def row_prime_def ent_candidate_def)

lemma concat_pages: "concat (map (\<lambda>ks. concat (map f ks)) kss) = concat (map f (concat kss))"
  by (induction kss) simp_all

lemma listing_keys:
  assumes "sel_validate (eq_faces q) = None"
  shows "list_entities q m = Ok (concat (map (row_at m) (filter (listed_key q m) (ms_entity_order m))))"
proof -
  let ?ks = "ms_entity_order m" and ?w = "ranking_world q"
  let ?matched = "filter (query_matches q) (concat (map (row_at m) ?ks))"
  have l: "list_entities q m = Ok (world_keep ?w ?matched)"
    using assms by (simp add: list_entities_def rows_in_order_def row_at_def [abs_def])
  have "world_keep ?w ?matched = concat (map (row_at m) (filter (listed_key q m) ?ks))"
  proof (cases "ws_is_trivial ?w")
    case True
    then show ?thesis by (simp add: world_keep_def listed_key_def rows_filter)
  next
    case False
    have "world_keep ?w ?matched
        = filter (\<lambda>e. row_prime ?w (map ent_candidate ?matched) (ent_candidate e)) ?matched"
      by (rule world_keep_prime [OF False])
    also have "map ent_candidate ?matched = loaded (key_row m) (filter (key_matches q m) ?ks)"
      by (simp add: loaded_rows rows_filter)
    finally show ?thesis using False by (simp add: listed_key_def is_prime_def rows_prime)
  qed
  with l show ?thesis by simp
qed

lemma rows_length:
  "\<forall>k\<in>set ks. \<exists>e. dict_get (ms_entities m) k = Some e \<Longrightarrow> length (concat (map (row_at m) ks)) = length ks"
  by (induction ks) (auto simp: row_at_def)

lemma pages_of_listing:
  assumes s: "sound m" and lim: "0 < eq_limit q" and n: "0 < n"
    and enough: "length (filter (listed_key q m) (ms_entity_order m)) \<le> nat (eq_limit q) * n"
  shows "concat (follow_pages (page_fetch q m) n []) = filter (listed_key q m) (ms_entity_order m)"
proof -
  note wi = index_rows(2) [OF s]
  have o: "in_order compare_state_keys (ms_entity_order m)" and ne: "[] \<notin> set (ms_entity_order m)"
    using wi by (auto simp: world_index_def key_index_def list_all_iff is_state_key_def cut_def)
  show ?thesis
  proof (cases "ws_is_trivial (ranking_world q)")
    case True
    then show ?thesis
      using sk.follow_pages_from [OF o ne lim, of "key_matches q m" "page_fetch q m" "[]" n] n enough
      by (simp add: page_fetch_def listed_key_def sk.after_cursor_def encode_cursor_def)
  next
    case False
    then show ?thesis
      using world_pages [OF wi lim n] enough
      by (simp add: page_fetch_def [abs_def] listed_key_def)
  qed
qed

text \<open>
  C5: A listing of the store can be read page by page. On a reachable state, for any query and any
  world, following the cursors of \<open>ListEntitiesPage\<close> from the start with a positive limit gives
  exactly the rows of \<open>ListEntities\<close>, in the same order, each once: the page walk, which resolves
  one family at a time, and the listing, which resolves all matching rows at once, agree.
\<close>
theorem listing_by_pages:
  assumes "reachable sha rw m" and "list_entities q m = Ok es" and "0 < eq_limit q" and "eq_cursor q = []"
    and "0 < n" and "length es \<le> nat (eq_limit q) * n"
  shows "concat (entity_pages n q m) = es"
proof -
  have s: "sound m" by (rule reachable_sound [OF assms(1)])
  have v: "sel_validate (eq_faces q) = None"
    using assms(2) by (auto simp: list_entities_def split: option.splits)
  let ?ks = "filter (listed_key q m) (ms_entity_order m)"
  have es: "es = concat (map (row_at m) ?ks)" using listing_keys [OF v, of m] assms(2) by simp
  have "length es = length ?ks" unfolding es using index_rows(1) [OF s] by (intro rows_length) auto
  then have "concat (follow_pages (page_fetch q m) n []) = ?ks"
    using pages_of_listing [OF s assms(3,5)] assms(6) by simp
  then show ?thesis
    by (simp add: entity_pages_keys [OF v] assms(4) es concat_pages del: map_concat)
qed

definition every_row :: entity_query where
  "every_row = \<lparr>eq_type = [], eq_ids = [], eq_limit = 2, eq_cursor = [], eq_faces = all_faces, eq_face_in = []\<rparr>"

theorem listing_by_pages_witness:
  "concat (entity_pages 2 every_row small_store)
    = [stored_entity 1 (page ''P-1'' []), stored_entity 3 (page ''P-1'' ''draft''), stored_entity 2 (page ''P-2'' [])]"
proof -
  let ?es = "[stored_entity 1 (page ''P-1'' []), stored_entity 3 (page ''P-1'' ''draft''),
      stored_entity 2 (page ''P-2'' [])]"
  have 1: "list_entities every_row small_store = Ok ?es" by code_simp
  show ?thesis
    by (rule listing_by_pages [OF small_store_reachable 1]) (simp_all add: every_row_def)
qed

section \<open>Soft delete\<close>

lemma ids_not_marked: "sound m \<Longrightarrow> i \<in> ids m \<Longrightarrow> dict_get (ms_marked m) i = None"
  by (auto simp: sound_def links_def dict_get_None)

lemma dict_del_set_new: "dict_get d k = None \<Longrightarrow> dict_del k (dict_set k v d) = d"
  by (induction d) (auto split: if_splits)

lemma mark_unmark:
  assumes s: "sound m" and mark: "mark_deleted now i who m = Ok (r1, m1)"
  shows "\<exists>r2 m2. unmark i m1 = Ok (r2, m2) \<and> ents m2 = ents m \<and> rels m2 = rels m \<and>
    ms_marked m2 = ms_marked m \<and> ms_attachments m2 = ms_attachments m \<and> sound m2"
proof -
  let ?f = "hidden_family now who i m"
  have l1: "leaves {e \<in> ents m. ent_id e \<noteq> i} {r \<in> rels m. \<not> touches r i} m1"
    and mk: "ms_marked m1 = dict_set i ?f (ms_marked m)" and at: "ms_attachments m1 = ms_attachments m"
    using mark_deleted_leaves [OF s, of i now who] mark by auto
  have s1: "sound m1" using l1 by (rule leaves_sound)
  have i: "i \<in> ids m"
    using mark family_size_ids [of m i] by (auto simp: mark_deleted_def Let_def family_size_def split: if_splits)
  have vf: "vals (mf_entities ?f) = {e \<in> ents m. ent_id e = i}"
    using keyed_family_rows(2) [OF sound_keyed(1) [OF s]] by (simp add: hidden_family_def ents_def)
  have vr: "vals (mf_relations ?f) = {r \<in> rels m. touches r i}"
    using keyed_filter(2) [OF sound_keyed(2) [OF s], of "\<lambda>r. touches r i"] by (simp add: hidden_family_def rels_def)
  have "dict_keys (ms_marked m1) - {i} = dict_keys (ms_marked m) - {i}" by (auto simp: mk dict_simps)
  moreover have "other_end r i \<in> ids m" if "r \<in> rels m" "touches r i" for r
    using that s by (auto simp: sound_def links_def edge_ok_def other_end_def)
  ultimately have out: "\<forall>r\<in>vals (mf_relations ?f). other_end r i \<notin> dict_keys (ms_marked m1) - {i}"
    using s unfolding vr by (auto simp: sound_def links_def)
  have "dict_get (ms_marked m1) i = Some ?f" by (simp add: mk dict_simps)
  from unmark_leaves [OF s1 this] obtain r2 m2 where m2: "unmark i m1 = Ok (r2, m2)"
    "leaves (ents m1 \<union> vals (mf_entities ?f))
      (rels m1 \<union> {r \<in> vals (mf_relations ?f). other_end r i \<notin> dict_keys (ms_marked m1) - {i}}) m2"
    "ms_attachments m2 = ms_attachments m1" "ms_marked m2 = dict_del i (ms_marked m1)"
    using out by (metis (no_types, lifting))
  have "{r \<in> vals (mf_relations ?f). other_end r i \<notin> dict_keys (ms_marked m1) - {i}} = vals (mf_relations ?f)"
    using out by blast
  then have "ents m2 = ents m" "rels m2 = rels m"
    using m2(2) l1 by (auto simp: leaves_def vf vr)
  moreover have "ms_marked m2 = ms_marked m"
    using m2(4) ids_not_marked [OF s i] by (simp add: mk dict_del_set_new)
  ultimately show ?thesis using m2 at by (auto dest: leaves_sound)
qed

text \<open>
  C4: A soft delete is undone. On a reachable state, after \<open>MarkDeleted\<close> of a family the
  \<open>Unmark\<close> of the same id succeeds and gives back the very same rows, edges, hidden families and
  attachments, edges to other ids and self-loops included; and the state is sound, so the sorted
  indexes are the same as well.
\<close>
theorem unmark_undoes_mark:
  assumes "reachable sha rw m" and "mark_deleted now i who m = Ok (r1, m1)"
  shows "\<exists>r2 m2. unmark i m1 = Ok (r2, m2) \<and> ents m2 = ents m \<and> rels m2 = rels m \<and>
    ms_marked m2 = ms_marked m \<and> ms_attachments m2 = ms_attachments m \<and> sound m2"
  by (rule mark_unmark [OF reachable_sound [OF assms(1)] assms(2)])

theorem unmark_undoes_mark_witness:
  "\<exists>r1 m1 r2 m2. mark_deleted 9 ''P-2'' ''bob'' small_store = Ok (r1, m1) \<and> unmark ''P-2'' m1 = Ok (r2, m2) \<and>
    ents m2 = ents small_store \<and> rels m2 = rels small_store"
proof -
  have "case mark_deleted 9 ''P-2'' ''bob'' small_store of Ok x \<Rightarrow> True | _ \<Rightarrow> False" by code_simp
  then obtain r1 m1 where ok: "mark_deleted 9 ''P-2'' ''bob'' small_store = Ok (r1, m1)"
    by (auto split: outcome.splits)
  from unmark_undoes_mark [OF small_store_reachable ok] ok show ?thesis by blast
qed

section \<open>Conditional updates\<close>

text \<open>
  C6: \<open>UpdateEntityIf\<close> is a compare-and-swap. With a non-empty expected version it succeeds only
  when the row stored under exactly that id and face has that version, the version it returns is
  the one of the row it stored, and that row is what the next read of the key finds; so a second
  update from the same expectation fails with a conflict naming the new version, unless the first
  one left the version as it was.
\<close>
theorem update_if_is_cas:
  assumes "update_entity_if sha now e v m = Ok (v', m')" and "v \<noteq> []" and "v' \<noteq> v"
    and "ent_id f = ent_id e" and "ent_face f = ent_face e" and "validate_properties (ent_props f) = None"
  shows "(\<exists>old. dict_get (ms_entities m) (entity_key e) = Some old \<and> version_of sha old = v) \<and>
    dict_get (ms_entities m') (entity_key e) = Some (stored_entity now e) \<and> v' = version_of sha (stored_entity now e) \<and>
    update_entity_if sha now' f v m' = Fail (VersionConflict (ent_id f) v v')"
proof -
  obtain old where old: "dict_get (ms_entities m) (entity_key e) = Some old" "version_of sha old = v"
    and v': "v' = version_of sha (stored_entity now e)"
    and m': "ms_entities m' = dict_set (entity_key e) (stored_entity now e) (ms_entities m)"
    using assms(1,2)
    by (auto simp: update_entity_if_def Let_def entity_key_def stored_entity_def store_frame
        split: option.splits if_splits)
  have "dict_get (ms_entities m') (entity_key e) = Some (stored_entity now e)" by (simp add: m' dict_simps)
  with assms old v' show ?thesis
    by (simp add: update_entity_if_def Let_def entity_key_def)
qed

theorem update_if_is_cas_witness:
  "\<exists>v v' m'. update_entity_if id 9 ((page ''P-2'' [])\<lparr>ent_content := ''x''\<rparr>) v small_store = Ok (v', m') \<and>
    update_entity_if id 10 (page ''P-2'' []) v m' = Fail (VersionConflict ''P-2'' v v')"
proof -
  let ?e = "(page ''P-2'' [])\<lparr>ent_content := ''x''\<rparr>" and ?v = "version_of id (page ''P-2'' [])"
  have "case update_entity_if id 9 ?e ?v small_store of Ok (v', m') \<Rightarrow> v' \<noteq> ?v | _ \<Rightarrow> False" by code_simp
  then obtain v' m' where ok: "update_entity_if id 9 ?e ?v small_store = Ok (v', m')" "v' \<noteq> ?v"
    by (auto split: outcome.splits)
  have ne: "?v \<noteq> []" by code_simp
  have p: "validate_properties (ent_props (page ''P-2'' [])) = None" by code_simp
  have "update_entity_if id 10 (page ''P-2'' []) ?v m' = Fail (VersionConflict (ent_id (page ''P-2'' [])) ?v v')"
    using update_if_is_cas [OF ok(1) ne ok(2) _ _ p] by simp
  with ok show ?thesis by (auto simp: page_def new_entity_def)
qed

section \<open>What the store does not check\<close>

text \<open>Writes in sequence without the check of \<open>permitted\<close>; the state stays when one fails.\<close>

definition run_raw :: "store_write list \<Rightarrow> memstore" where
  "run_raw ws = fold (\<lambda>w m. case exec_write id plain_rewrite 5 w m of Ok m' \<Rightarrow> m' | _ \<Rightarrow> m) ws new_store"

text \<open>
  Only the implicit face of a new entity is checked against ids that differ in letter case.
  After \<^verbatim>\<open>ABC\<close> is created, \<^verbatim>\<open>abc\<close> is refused but \<^verbatim>\<open>abc@draft\<close> is accepted, and the
  store holds two families whose ids fold to one.
\<close>
theorem face_beside_case_variant:
  "let m = run_raw [CreateEntity (page ''ABC'' [])] in
   create_entity 6 (page ''abc'' []) m = Fail Conflict \<and>
   (case create_entity 6 (page ''abc'' ''draft'') m of
      Ok m' \<Rightarrow> map (ent_id \<circ> snd) (ms_entities m') = [''ABC'', ''abc''] \<and> fold_id ''ABC'' = fold_id ''abc''
    | _ \<Rightarrow> False)"
  by code_simp

text \<open>
  Renaming a family to its own id loses it: the id check excepts the old id, each row is set
  and then deleted under the same key, and the sorted slice keeps the key of a row that is gone.
\<close>
theorem rename_to_itself_loses_family:
  "case rename_entity plain_rewrite 6 ''P-1'' ''P-1'' (run_raw [CreateEntity (page ''P-1'' [])]) of
     Ok (r, m) \<Rightarrow> get_entity \<lparr>ref_id = ''P-1'', ref_face = []\<rparr> m = Fail NotFound \<and> ms_entities m = [] \<and>
       ms_entity_order m = [''P-1'']
   | _ \<Rightarrow> False"
  by code_simp

text \<open>
  Deleting the last face does not drop the hidden edges of the id, as deleting the family does.
  With \<^verbatim>\<open>P-2\<close> hidden, and its edge from \<^verbatim>\<open>P-1\<close> with it, deleting the only face of
  \<^verbatim>\<open>P-1\<close> and restoring \<^verbatim>\<open>P-2\<close> leaves an edge from an id that no row has; deleting the
  family of \<^verbatim>\<open>P-1\<close> instead does not.
\<close>
theorem last_face_leaves_hidden_edge:
  "let m = run_raw [CreateEntity (page ''P-1'' []), CreateEntity (page ''P-2'' []),
          CreateRelation (link ''P-1'' ''P-2'') None, MarkDeleted ''P-2'' ''ann''];
       dangling = (\<lambda>x. case x of Ok m1 \<Rightarrow>
          (case unmark ''P-2'' m1 of Ok (r, m2) \<Rightarrow>
             list_ex (\<lambda>(k, q). family_size (ms_entities m2) (rel_from q) = 0) (ms_relations m2) | _ \<Rightarrow> False)
          | _ \<Rightarrow> False)
   in dangling (next_state (delete_face \<lparr>ref_id = ''P-1'', ref_face = []\<rparr> m)) \<and>
      \<not> dangling (next_state (delete_entity ''P-1'' True m))"
  by code_simp

text \<open>An edge created while its twin is hidden comes back a second time in the sorted slice.\<close>

theorem unmark_duplicates_edge_key:
  "let m = run_raw [CreateEntity (page ''P-1'' []), CreateEntity (page ''P-2'' []),
          CreateRelation (link ''P-1'' ''P-2'') None, MarkDeleted ''P-2'' ''ann'',
          CreateRelation (link ''P-1'' ''P-2'') None, Unmark ''P-2'']
   in length (ms_relations m) = 1 \<and> length (ms_relation_order m) = 2"
  by code_simp

text \<open>An update through an id with an \<^verbatim>\<open>@\<close> reaches the row of a face and stores the bad id.\<close>

theorem update_stores_bad_id:
  "let m = run_raw [CreateEntity (page ''P-1'' []), CreateEntity (page ''P-1'' ''draft''),
          UpdateEntityIf (page ''P-1@draft'' []) []]
   in map (ent_id \<circ> snd) (ms_entities m) = [''P-1'', ''P-1@draft''] \<and> validate_id ''P-1@draft'' \<noteq> None"
  by code_simp

text \<open>The implicit face of a family can be given another type than its siblings.\<close>

theorem update_splits_types:
  "let m = run_raw [CreateEntity (page ''P-1'' []), CreateEntity (page ''P-1'' ''draft''),
          UpdateEntityIf ((page ''P-1'' [])\<lparr>ent_type := ''task''\<rparr>) []]
   in map (ent_type \<circ> snd) (ms_entities m) = [''task'', ''page'']"
  by code_simp

text \<open>A replacement stores the redaction marks of its rows, which create and update clear.\<close>

theorem replace_keeps_redacted:
  "let m = run_raw [CreateEntity ((page ''P-1'' [])\<lparr>ent_redacted := [''salary'']\<rparr>)];
       rs = [\<lparr>fr_source = [], fr_entity = (page ''P-1'' [])\<lparr>ent_redacted := [''salary'']\<rparr>\<rparr>]
   in map (ent_redacted \<circ> snd) (ms_entities m) = [[]] \<and>
      (case replace_entity_family 6 ''P-1'' rs m of
         Ok m' \<Rightarrow> map (ent_redacted \<circ> snd) (ms_entities m') = [[''salary'']] | _ \<Rightarrow> False)"
  by code_simp

end
