(* ===== verification/Graph_Mem.thy ===== *)
theory Graph_Mem
  imports Graph_Spec Memstore_Spec
begin

text \<open>
  Graph queries on the in-memory store (memstore/graphquery.go delegates to the shared evaluator
  with the store itself as the reader). The interface \<open>graph_source\<close> is discharged by the store's
  own listings, and its consequences are stated over the store's states.
\<close>

section \<open>The store as a reader\<close>

text \<open>An iterator that fails yields one error; \<open>revealed\<close> is the hidden families the context shows.\<close>

definition stream :: "(store_error, 'a list) outcome \<Rightarrow> (row_error + 'a) list" where
  "stream x = (case x of Ok rows \<Rightarrow> map Inr rows | _ \<Rightarrow> [Inl (ReadFailed ''list'')])"

definition mem_reader :: "string list \<Rightarrow> memstore \<Rightarrow> graph_reader" where
  "mem_reader revealed m = \<lparr>read_entities = \<lambda>q. stream (list_entities q m),
     read_relations = \<lambda>q. stream (list_relations revealed q m)\<rparr>"

lemma stream_rows: "stream x = map Inr rows \<Longrightarrow> x = Ok rows"
  by (auto simp: stream_def inj_map_eq_map split: outcome.splits dest: map_eq_Cons_D)

lemma relations_at_ok:
  "\<forall>k\<in>set ks. \<exists>r. dict_get d k = Some r \<Longrightarrow> \<exists>rs. relations_at d ks = Ok rs"
  by (induction ks) auto

lemma sound_relations: "sound m \<Longrightarrow> \<exists>rs. list_relations revealed q m = Ok rs"
  using relations_at_ok [of "ms_relation_order m" "ms_relations m"] keyed_get [OF sound_keyed(2), of m]
  by (fastforce simp: sound_def relation_index_def list_relations_def)

lemma rows_row_at: "rows_in_order m = concat (map (row_at m) (ms_entity_order m))"
  by (simp add: rows_in_order_def row_at_def [abs_def])

lemma row_of_key:
  assumes "sound m" and "k \<in> set (ms_entity_order m)"
  shows "\<exists>e. row_at m k = [e] \<and> e \<in> ents m \<and> entity_key e = k"
proof -
  obtain e where e: "dict_get (ms_entities m) k = Some e" using index_rows(1) [OF assms] by blast
  moreover from e have "k = entity_key e \<and> e \<in> vals (ms_entities m)"
    using keyed_get [OF sound_keyed(1) [OF assms(1)]] by simp
  ultimately show ?thesis by (simp add: row_at_def ents_def)
qed

lemma rows_are_ents:
  assumes s: "sound m"
  shows "set (rows_in_order m) = ents m" and "plain_rows (rows_in_order m)"
proof -
  have ix: "entity_index (ms_entities m) (ms_entity_order m)" using s by (simp add: sound_def)
  have v: "validate_id (ent_id e) = None" if "e \<in> ents m" for e
    using ix that by (simp add: entity_index_def ents_def)
  have "distinct ks \<Longrightarrow> set ks \<subseteq> set (ms_entity_order m) \<Longrightarrow>
      distinct (concat (map (row_at m) ks)) \<and> entity_key ` set (concat (map (row_at m) ks)) = set ks" for ks
  proof (induction ks)
    case (Cons k ks)
    obtain e where e: "row_at m k = [e]" "entity_key e = k" using row_of_key [OF s, of k] Cons.prems by auto
    with Cons show ?case by auto
  qed simp
  moreover have "distinct (ms_entity_order m)"
    using ix by (auto simp: entity_index_def key_index_def intro: sk.in_order_distinct)
  ultimately have d: "distinct (rows_in_order m)" by (simp add: rows_row_at)
  show e: "set (rows_in_order m) = ents m"
  proof
    show "set (rows_in_order m) \<subseteq> ents m" using row_of_key [OF s] by (force simp: rows_row_at)
    show "ents m \<subseteq> set (rows_in_order m)"
    proof
      fix e
      assume "e \<in> ents m"
      then have "entity_key e \<in> set (ms_entity_order m)" "dict_get (ms_entities m) (entity_key e) = Some e"
        using ix keyed_get [OF sound_keyed(1) [OF s]] by (auto simp: entity_index_def ents_def)
      then show "e \<in> set (rows_in_order m)" by (auto simp: rows_row_at row_at_def intro!: bexI)
    qed
  qed
  have "inj_on entity_ref (ents m)"
    unfolding inj_on_def ents_def using keyed_inj [OF sound_keyed(1) [OF s]] entity_ref_key by blast
  then show "plain_rows (rows_in_order m)"
    unfolding plain_rows_def distinct_map e using d v id_no_at by blast
qed

lemma world_keep_filter: "\<exists>P. world_keep w es = filter P es"
  by (cases "ws_is_trivial w \<or> es = []") (auto simp: world_keep_def Let_def intro: exI [of _ "\<lambda>_. True"])

lemma listed_rows:
  assumes "list_entities q m = Ok es"
  shows "\<exists>P. es = filter P (rows_in_order m) \<and> (\<forall>e. P e \<longrightarrow> query_matches q e)"
proof -
  obtain P where "es = filter P (filter (query_matches q) (rows_in_order m))"
    using assms world_keep_filter by (metis list_entities_def option.case_eq_if outcome.distinct(1) outcome.inject(1))
  then have "es = filter (\<lambda>e. query_matches q e \<and> P e) (rows_in_order m)" by simp
  then show ?thesis by (intro exI conjI) auto
qed

lemma mem_clean:
  assumes "sound m"
  shows "clean_reader (mem_reader revealed m)"
proof -
  have "\<exists>rs. read_relations (mem_reader revealed m) q = map Inr rs" for q
  proof -
    obtain rs where "list_relations revealed q m = Ok rs" using sound_relations [OF assms] by blast
    then show ?thesis by (auto simp: mem_reader_def stream_def)
  qed
  moreover have "\<exists>es. read_entities (mem_reader revealed m) q = map Inr es" if "sel_validate (eq_faces q) = None" for q
    using that by (auto simp: mem_reader_def stream_def list_entities_def)
  ultimately show ?thesis by (simp add: clean_reader_def)
qed

lemma mem_entities:
  assumes "read_entities (mem_reader revealed m) q = map Inr es"
  shows "list_entities q m = Ok es"
  using assms stream_rows by (simp add: mem_reader_def)

interpretation mem: graph_source "mem_reader revealed" sound
proof
  fix s q es e
  show "sound s \<Longrightarrow> clean_reader (mem_reader revealed s)" by (rule mem_clean)
  assume a: "sound s" "read_entities (mem_reader revealed s) q = map Inr es"
  from listed_rows [OF mem_entities [OF a(2)]] obtain P where
    P: "es = filter P (rows_in_order s)" "\<forall>e. P e \<longrightarrow> query_matches q e" by blast
  show "plain_rows es" unfolding P(1) by (rule plain_rows_filter [OF rows_are_ents(2) [OF a(1)]])
  assume "e \<in> set es"
  then show "match_entity_query (ent_type e) (ent_id e) (ent_face e) q"
    using P by (auto simp: query_matches_def)
qed

section \<open>What a query answers\<close>

text \<open>The rows a ranking world ranks: what the type and faces of the query admit and a branch grants.\<close>

definition seen_rows :: "string list \<Rightarrow> memstore \<Rightarrow> graph_query \<Rightarrow> entity list" where
  "seen_rows revealed m q = filter (\<lambda>e. query_matches (candidate_query q (gq_faces q)) e \<and>
     (gq_any q = [] \<or> branch_grants (mem_reader revealed m) q e)) (rows_in_order m)"

definition serves :: "world_scope \<Rightarrow> entity list \<Rightarrow> entity \<Rightarrow> bool" where
  "serves w es e \<longleftrightarrow> ws_is_trivial w \<or> dict_get (world_primes w (map row_candidate es)) (ent_id e) = Some (ent_face e)"

lemma row_candidate_ent: "row_candidate = ent_candidate"
  by (rule ext) (simp add: row_candidate_def ent_candidate_def)

lemma world_keep_serves: "set (world_keep w es) = {e \<in> set es. serves w es e}"
  by (auto simp: world_keep_def serves_def row_candidate_ent Let_def)

lemma branched_query_matches:
  assumes "is_branched q"
  shows "query_matches (candidate_query q all_faces) = query_matches (candidate_query q (gq_faces q))"
proof -
  obtain w where "gq_faces q = SelectWorld w" "\<not> ws_is_trivial w"
    using assms by (cases "gq_faces q") (auto simp: is_branched_def sel_world_def)
  then show ?thesis
    by (intro ext) (auto simp: query_matches_def match_entity_query_def candidate_query_def all_faces_def sel_is_trivial_def
        sel_admits_def sel_world_def sel_is_all_def sel_faces_def)
qed

lemma answers_iff:
  assumes s: "sound m" and q: "check_query_shape q = None"
  shows "e \<in> set (answers (mem_reader revealed m) q) \<longleftrightarrow>
    e \<in> set (seen_rows revealed m q) \<and> matches (mem_reader revealed m) e q = Inr True \<and>
    serves (ranking_world (candidate_query q (gq_faces q))) (seen_rows revealed m q) e"
proof -
  let ?r = "mem_reader revealed m" and ?w = "ranking_world (candidate_query q (gq_faces q))"
  obtain es where es: "read_entities ?r (candidate_query q (if is_branched q then all_faces else gq_faces q)) = map Inr es"
    "collect_by_type ?r q = Inr (if is_branched q then rows_of_primes ?w (filter (branch_grants ?r q) es) else es)"
    using collect_ok [OF mem_clean [OF s] q] by blast
  note l = mem_entities [OF es(1)]
  have w: "?w = (case sel_world (gq_faces q) of Some w \<Rightarrow> w | None \<Rightarrow> unset_scope)"
    by (simp add: ranking_world_def candidate_query_def)
  show ?thesis
  proof (cases "is_branched q")
    case True
    have "ranking_world (candidate_query q all_faces) = unset_scope"
      by (simp add: ranking_world_def candidate_query_def all_faces_def sel_world_def)
    then have "es = filter (query_matches (candidate_query q (gq_faces q))) (rows_in_order m)"
      using l True by (auto simp: list_entities_def world_keep_def branched_query_matches split: option.splits)
    then have f: "filter (branch_grants ?r q) es = seen_rows revealed m q"
      using True by (simp add: seen_rows_def is_branched_def conj_commute)
    have "plain_rows (seen_rows revealed m q)"
      unfolding seen_rows_def by (rule plain_rows_filter [OF rows_are_ents(2) [OF s]])
    moreover have "\<not> ws_is_trivial ?w" using True by (auto simp: w is_branched_def)
    ultimately show ?thesis
      using True es(2) rows_of_primes_set by (auto simp: answers_def candidates_def f serves_def)
  next
    case False
    have es': "es = world_keep ?w (filter (query_matches (candidate_query q (gq_faces q))) (rows_in_order m))"
      using l False by (auto simp: list_entities_def split: option.splits)
    have a: "e \<in> set (answers ?r q) \<longleftrightarrow> e \<in> set es \<and> matches ?r e q = Inr True"
      using es(2) False by (auto simp: answers_def candidates_def)
    show ?thesis
    proof (cases "gq_any q = []")
      case True
      then show ?thesis by (auto simp: a es' world_keep_serves seen_rows_def)
    next
      case any: False
      then have t: "ws_is_trivial ?w" using False by (simp add: w is_branched_def)
      have "branch_grants ?r q e" if "matches ?r e q = Inr True"
        using that any matches_any_grants [OF mem_clean [OF s] q] by (simp add: matches_def)
      then show ?thesis by (auto simp: a es' t world_keep_def serves_def seen_rows_def)
    qed
  qed
qed

text \<open>
  C17: Which rows a graph query answers. On a reachable state a query that passes the shape check
  answers exactly the stored rows whose type and face it asks for, that one of its branches grants
  when it has branches, that are the prime of their family under its ranking world, and on which
  every predicate holds. The prime is chosen among the rows the branches grant and before any
  predicate is asked: a predicate that fails on the prime does not bring another face forward.
\<close>
theorem graph_answers_exact:
  assumes "reachable sha rw m" and "check_query_shape q = None"
  shows "e \<in> set (answers (mem_reader revealed m) q) \<longleftrightarrow>
    e \<in> ents m \<and> query_matches (candidate_query q (gq_faces q)) e \<and>
    (gq_any q \<noteq> [] \<longrightarrow> branch_grants (mem_reader revealed m) q e) \<and>
    serves (ranking_world (candidate_query q (gq_faces q))) (seen_rows revealed m q) e \<and>
    matches (mem_reader revealed m) e q = Inr True"
  using answers_iff [OF reachable_sound [OF assms(1)] assms(2)] rows_are_ents(1) [OF reachable_sound [OF assms(1)]]
  by (auto simp: seen_rows_def)


definition cites_p2 :: relation_predicate where
  "cites_p2 = RelationPredicate [''P-2''] [''cites''] False [] 0 [] 0
     (Some (EndpointPredicate all_faces [] [] None None))"

definition linked_pages :: graph_query where
  "linked_pages = \<lparr>gq_type = ''page'', gq_props = [], gq_inbound = None, gq_outbound = Some cites_p2,
     gq_faces = all_faces, gq_face_in = [], gq_any = [], gq_skip_unreadable = False, gq_narrowing = [],
     gq_related = [], gq_order = [\<lparr>os_property = ''title'', os_descending = True, os_values = []\<rparr>],
     gq_limit = 1, gq_offset = 0\<rparr>"


theorem graph_answers_exact_witness:
  "stored_entity 1 (page ''P-1'' []) \<in> set (answers (mem_reader [] small_store) linked_pages) \<and>
    stored_entity 1 (page ''P-1'' []) \<in> ents small_store"
proof -
  have c: "check_query_shape linked_pages = None" by code_simp
  have "stored_entity 1 (page ''P-1'' []) \<in> set (answers (mem_reader [] small_store) linked_pages)" by code_simp
  then show ?thesis using graph_answers_exact [OF small_store_reachable c] by blast
qed

lemma sorted_faces_nonempty: "sorted_faces_of fs \<noteq> [] \<longleftrightarrow> fs \<noteq> []"
  unfolding sorted_faces_of_def by (metis remdups_adj_Nil_iff sort_key_simps(1) set_empty set_sort)

lemma faces_in_nonempty: "faces_in es i \<noteq> [] \<longleftrightarrow> (\<exists>e\<in>set es. ent_id e = i)"
  by (auto simp: faces_in_def filter_empty_conv)

text \<open>
  C20: The four ways to ask agree. On a reachable state a query that passes the shape check counts
  as many rows as it answers, out of the candidates; \<open>MatchingFaces\<close> gives, for each id asked
  for, the sorted faces of the answers of that id, and no entry for any other; \<open>MatchingIDs\<close> is
  \<open>True\<close> exactly for the ids asked for that have an answer.
\<close>
theorem graph_queries_agree:
  assumes "reachable sha rw m" and "check_query_shape q = None" and as_def: "as = answers (mem_reader revealed m) q"
  shows "count_query (mem_reader revealed m) q = Inr (length as, length (candidates (mem_reader revealed m) q)) \<and>
    (\<exists>d. matching_faces (mem_reader revealed m) q js = Inr d \<and> (\<forall>i. dict_get d i =
      (if i \<in> set js \<and> faces_in as i \<noteq> [] then Some (sorted_faces_of (faces_in as i)) else None))) \<and>
    (\<exists>bs. matching_ids (mem_reader revealed m) q js = Inr bs \<and>
      bs = map (\<lambda>i. (i, \<exists>e\<in>set as. ent_id e = i)) js)"
proof (intro conjI)
  note s = reachable_sound [OF assms(1)]
  show "count_query (mem_reader revealed m) q = Inr (length as, length (candidates (mem_reader revealed m) q))"
    unfolding as_def by (rule mem.count_rows [OF s assms(2)])
  obtain d where d: "matching_faces (mem_reader revealed m) q js = Inr d"
    "\<And>i. dict_get d i = (if i \<in> set js \<and> faces_in as i \<noteq> [] then Some (sorted_faces_of (faces_in as i)) else None)"
    using mem.faces_rows [OF s assms(2), of revealed js] unfolding Let_def as_def by blast
  then show "\<exists>d. matching_faces (mem_reader revealed m) q js = Inr d \<and> (\<forall>i. dict_get d i =
      (if i \<in> set js \<and> faces_in as i \<noteq> [] then Some (sorted_faces_of (faces_in as i)) else None))" by blast
  have n: "(case dict_get d i of None \<Rightarrow> False | Some fs \<Rightarrow> fs \<noteq> []) = (\<exists>e\<in>set as. ent_id e = i)"
    if "i \<in> set js" for i
    using that by (simp add: d(2) sorted_faces_nonempty faces_in_nonempty)
  show "\<exists>bs. matching_ids (mem_reader revealed m) q js = Inr bs \<and> bs = map (\<lambda>i. (i, \<exists>e\<in>set as. ent_id e = i)) js"
    using n by (simp add: matching_ids_def d(1))
qed

theorem graph_queries_agree_witness:
  "count_query (mem_reader [] small_store) linked_pages = Inr (2, 3) \<and>
    matching_ids (mem_reader [] small_store) linked_pages [''P-2'', ''P-1''] = Inr [(''P-2'', False), (''P-1'', True)]"
proof -
  let ?as = "[stored_entity 1 (page ''P-1'' []), stored_entity 3 (page ''P-1'' ''draft'')]"
  have a: "?as = answers (mem_reader [] small_store) linked_pages" by code_simp
  have c: "check_query_shape linked_pages = None" by code_simp
  have n: "length (candidates (mem_reader [] small_store) linked_pages) = 3" by code_simp
  from graph_queries_agree [OF small_store_reachable c a, of "[''P-2'', ''P-1'']"] n
  show ?thesis by (simp add: stored_entity_def page_def new_entity_def)
qed

section \<open>The access ceiling and the caller's conditions\<close>

text \<open>
  What a caller adds to a query only narrows it. On a reachable state, whatever narrowing,
  related predicates, order, limit and offset a query carries, every row it yields is among the
  rows the query without them yields.
\<close>
theorem caller_only_narrows:
  assumes "reachable sha rw m" and "check_query_shape q = None"
    and "run_query (mem_reader revealed m) q = Some out" and "x \<in> set out"
  shows "\<exists>all. run_query (mem_reader revealed m) (without_caller q) = Some all \<and> x \<in> set all"
proof -
  let ?r = "mem_reader revealed m"
  note s = reachable_sound [OF assms(1)]
  have q': "check_query_shape (without_caller q) = None"
    using query_shape_ok [OF assms(2)] by (auto simp: check_query_shape_def first_error_None without_caller_def)
  have "page_fits (without_caller q)" "\<not> is_paged (without_caller q)"
    by (simp_all add: page_fits_def is_paged_def without_caller_def)
  then have all: "run_query ?r (without_caller q) = Some (map Inr (answers ?r (without_caller q)))"
    using mem.run_rows [OF s q', of revealed] by simp
  have "set out \<subseteq> Inr ` set (answers ?r q)" by (rule mem.run_subset [OF s assms(2,3)])
  with assms(4) answers_caller all show ?thesis by fastforce
qed

text \<open>
  C19: Every row a query yields under branches is granted. On a reachable state each row of a query
  with branches has a face that some branch grants and whose relation that branch's predicate
  holds on, so a path of the access ceiling never mixes the face of one branch with the relation
  of another, and a row of no branch is never yielded, whatever the world ranks.
\<close>
theorem branches_are_a_ceiling:
  assumes "reachable sha rw m" and "check_query_shape q = None" and "gq_any q \<noteq> []"
    and "run_query (mem_reader revealed m) q = Some out" and "Inr e \<in> set out"
  shows "\<exists>br\<in>set (gq_any q). (gb_face_in br = [] \<or> ent_face e \<in> set (gb_face_in br)) \<and>
    optional_predicate (mem_reader revealed m) (ent_id e) DirectionIncoming (gq_faces q) (gb_inbound br) = Inr True"
proof -
  have "e \<in> set (answers (mem_reader revealed m) q)"
    using mem.run_subset [OF reachable_sound [OF assms(1)] assms(2,4)] assms(5) by auto
  from mem.answer_granted [OF reachable_sound [OF assms(1)] assms(2) this assms(3)]
  show ?thesis by (simp add: branch_grants_def branch_faces_def)
qed

definition granted_pages :: graph_query where
  "granted_pages = linked_pages\<lparr>gq_outbound := None, gq_order := [], gq_limit := 0,
     gq_narrowing := [[\<lparr>pp_property = ''status'', pp_op = PropEqual, pp_value = [], pp_scalar = False, pp_key = []\<rparr>]],
     gq_any := [\<lparr>gb_inbound = None, gb_face_in = [''draft'']\<rparr>,
       \<lparr>gb_inbound = Some (RelationPredicate [''P-1''] [''cites''] False [] 0 [] 0 None), gb_face_in = [[]]\<rparr>]\<rparr>"

lemma granted_pages_run:
  "check_query_shape granted_pages = None \<and>
   run_query (mem_reader [] small_store) granted_pages
     = Some [Inr (stored_entity 3 (page ''P-1'' ''draft'')), Inr (stored_entity 2 (page ''P-2'' []))]"
  by code_simp

theorem caller_only_narrows_witness:
  "\<exists>all. run_query (mem_reader [] small_store) (without_caller granted_pages) = Some all \<and>
    Inr (stored_entity 3 (page ''P-1'' ''draft'')) \<in> set all"
  by (rule caller_only_narrows [OF small_store_reachable conjunct1 [OF granted_pages_run] conjunct2 [OF granted_pages_run]]) simp

theorem branches_are_a_ceiling_witness:
  "\<exists>br\<in>set (gq_any granted_pages). (gb_face_in br = [] \<or> ent_face (page ''P-2'' []) \<in> set (gb_face_in br)) \<and>
    optional_predicate (mem_reader [] small_store) ''P-2'' DirectionIncoming all_faces (gb_inbound br) = Inr True"
proof -
  have "gq_any granted_pages \<noteq> []" by (simp add: granted_pages_def)
  from branches_are_a_ceiling [OF small_store_reachable conjunct1 [OF granted_pages_run] this
      conjunct2 [OF granted_pages_run], of "stored_entity 2 (page ''P-2'' [])"]
  show ?thesis by (simp add: stored_entity_def page_def new_entity_def granted_pages_def linked_pages_def)
qed

text \<open>
  C21: The inheritance expansion is bounded reachability. On a reachable state \<open>expandSet\<close> returns,
  each once, exactly the ids that the seeds reach over the identity edges of the given types in
  at most \<open>depth\<close> steps, capped at five, whatever cycles the graph has.
\<close>
theorem expand_set_reaches:
  assumes "reachable sha rw m"
  shows "\<exists>out. expand_set (mem_reader revealed m) seeds through depth = Inr out \<and> distinct out \<and>
    set out = {j. \<exists>i\<in>set seeds. \<exists>n \<le> nat (min depth 5). (i, j) \<in> through_edges (mem_reader revealed m) through ^^ n}"
  using expand_set_ok [OF mem_clean [OF reachable_sound [OF assms]]]
  by (simp add: reach_within_def depth_cap_def)

theorem expand_set_reaches_witness:
  "\<exists>out. expand_set (mem_reader [''P-3''] small_store) [''P-1''] [''cites''] 9 = Inr out \<and> distinct out \<and>
    set out = {j. \<exists>n \<le> 5. (''P-1'', j) \<in> through_edges (mem_reader [''P-3''] small_store) [''cites''] ^^ n}"
  using expand_set_reaches [OF small_store_reachable, of "[''P-3'']" "[''P-1'']" "[''cites'']" 9] by simp

text \<open>
  A limit that overflows panics instead of being capped. With offset 1 and the largest limit,
  the end of the window wraps to a negative number, and the page of two rows is a slice whose end
  is before its start.
\<close>
theorem page_end_overflows:
  "page_rows [x, y] 1 (2 ^ 63 - 1) = None \<and> page_rows [x, y] 0 (2 ^ 63 - 1) = Some [x, y]"
  by (simp add: page_rows_def wrap64_def)

end
