(* ===== verification/Go_Time.thy ===== *)
theory Go_Time
  imports Prelude
begin

text \<open>
  Go's \<open>time\<close> as the modelled code uses it. An instant is the integer number of nanoseconds since
  the zero time (1 January of year 1, UTC), so the zero time is 0; every instant is read in UTC, as
  the stores keep them. A \<open>Duration\<close> is a 64-bit count of nanoseconds. \<open>AddDate\<close> in months is the
  proleptic Gregorian calendar with Go's normalization: the day of the month is kept and runs over
  into the next month when the month is too short.
\<close>

type_synonym instant = int
type_synonym duration = int

definition microsecond :: duration where
  "microsecond = 1000"
definition second :: duration where "second = 1000000000"
definition minute :: duration where "minute = 60 * second"
definition hour :: duration where "hour = 60 * minute"
definition day :: duration where "day = 24 * hour"

lemmas duration_units = microsecond_def second_def minute_def hour_def day_def

text \<open>\<open>Truncate(time.Microsecond)\<close> rounds down, also before the zero time.\<close>

definition norm_time :: "instant \<Rightarrow> instant" where
  "norm_time t = t - t mod microsecond"

text \<open>Nanoseconds of the Unix epoch, and \<open>UnixMicro\<close>.\<close>

definition unix_epoch :: instant where "unix_epoch = 62135596800 * second"

definition unix_micro :: "instant \<Rightarrow> int" where
  "unix_micro t = (t - unix_epoch) div microsecond"

text \<open>\<open>Sub\<close> saturates at the largest and the smallest duration.\<close>

definition time_sub :: "instant \<Rightarrow> instant \<Rightarrow> duration" where
  "time_sub a b = max (- (2 ^ 63)) (min (2 ^ 63 - 1) (a - b))"

lemma norm_le: "norm_time t \<le> t" and norm_near: "t < norm_time t + microsecond"
  using pos_mod_bound [of microsecond t] pos_mod_sign [of microsecond t]
  by (simp_all add: norm_time_def microsecond_def)

lemma norm_norm [simp]: "norm_time (norm_time t) = norm_time t"
  by (simp add: norm_time_def microsecond_def minus_mod_eq_mult_div)

lemma norm_zero [simp]: "norm_time 0 = 0"
  by (simp add: norm_time_def)

lemma norm_mono: "s \<le> t \<Longrightarrow> norm_time s \<le> norm_time t"
  using zdiv_mono1 [of s t microsecond] by (simp add: norm_time_def minus_mod_eq_mult_div microsecond_def)

lemma norm_below: "s \<le> norm_time t \<longleftrightarrow> s \<le> t" if "norm_time s = s"
  using norm_mono [of s t] norm_le [of t] that by auto

lemma norm_above: "norm_time t < s \<longleftrightarrow> t < s" if "norm_time s = s"
  using norm_below [OF that, of t] by linarith

section \<open>The calendar\<close>

text \<open>Days are counted from 1 January of year 1, months from January of year 1.\<close>

definition leap_year :: "int \<Rightarrow> bool" where
  "leap_year y \<longleftrightarrow> y mod 4 = 0 \<and> (y mod 100 \<noteq> 0 \<or> y mod 400 = 0)"

definition days_before_year :: "int \<Rightarrow> int" where
  "days_before_year y = 365 * (y - 1) + (y - 1) div 4 - (y - 1) div 100 + (y - 1) div 400"

definition month_lengths :: "bool \<Rightarrow> int list" where
  "month_lengths leap = [31, if leap then 29 else 28, 31, 30, 31, 30, 31, 31, 30, 31, 30, 31]"

definition days_before_month :: "bool \<Rightarrow> nat \<Rightarrow> int" where
  "days_before_month leap k = sum_list (take k (month_lengths leap))"

definition first_of :: "int \<Rightarrow> int" where
  "first_of m = (let y = m div 12 + 1 in days_before_year y + days_before_month (leap_year y) (nat (m mod 12)))"

definition year_of :: "int \<Rightarrow> int" where
  "year_of d =
     (let n400 = d div 146097; r400 = d mod 146097;
          n100 = min 3 (r400 div 36524); r100 = r400 - 36524 * n100;
          n4 = r100 div 1461; r4 = r100 mod 1461;
          n1 = min 3 (r4 div 365)
      in 400 * n400 + 100 * n100 + 4 * n4 + n1 + 1)"

definition month_of :: "int \<Rightarrow> int" where
  "month_of d =
     (let y = year_of d; r = d - days_before_year y
      in 12 * (y - 1) + int (length (takeWhile (\<lambda>k. days_before_month (leap_year y) (Suc k) \<le> r) [0..<11])))"

definition add_months :: "int \<Rightarrow> instant \<Rightarrow> instant" where
  "add_months n t =
     (let d = t div day; m = month_of d
      in (first_of (m + n) + (d - first_of m)) * day + t mod day)"

lemma year_of_bounds: "days_before_year (year_of d) \<le> d \<and> d < days_before_year (year_of d + 1)"
proof -
  define a r where "a = d div 146097" and "r = d mod 146097"
  define b where "b = min 3 (r div 36524)"
  define s where "s = r - 36524 * b"
  define c e where "c = s div 1461" and "e = s mod 1461"
  define f where "f = min 3 (e div 365)"
  have d: "d = 146097 * a + r" "0 \<le> r" "r < 146097" by (simp_all add: a_def r_def)
  have b: "0 \<le> b" "b \<le> 3" and s: "0 \<le> s" "s \<le> 36524" "b < 3 \<longrightarrow> s < 36524" using d by (auto simp: b_def s_def)
  have c: "0 \<le> c" "c \<le> 24" and e: "s = 1461 * c + e" "0 \<le> e" "e < 1461" using s by (auto simp: c_def e_def)
  have f: "0 \<le> f" "f \<le> 3" "365 * f \<le> e" "f < 3 \<longrightarrow> e < 365 * f + 365" using e by (auto simp: f_def)
  define z where "z = 400 * a + 100 * b + 4 * c + f"
  have y: "year_of d = z + 1"
    by (simp only: year_of_def Let_def z_def flip: a_def r_def b_def s_def c_def e_def f_def)
  have z: "z div 4 = 100 * a + 25 * b + c" "z div 100 = 4 * a + b" "z div 400 = a"
    using b c f by (auto simp: z_def)
  have z1: "(z + 1) div 4 = 100 * a + 25 * b + c + (if f = 3 then 1 else 0)"
    "(z + 1) div 100 = 4 * a + b + (if f = 3 \<and> c = 24 then 1 else 0)"
    "(z + 1) div 400 = a + (if f = 3 \<and> c = 24 \<and> b = 3 then 1 else 0)"
    using b c f by (auto simp: z_def)
  have lo: "days_before_year (z + 1) \<le> d"
    using d e f by (simp add: days_before_year_def z) (simp add: z_def s_def)
  have "z + 1 + 1 - 1 = z + 1" by simp
  then have "days_before_year (z + 1 + 1) = 365 * (z + 1) + (100 * a + 25 * b + c + (if f = 3 then 1 else 0))
      - (4 * a + b + (if f = 3 \<and> c = 24 then 1 else 0)) + (a + (if f = 3 \<and> c = 24 \<and> b = 3 then 1 else 0))"
    unfolding days_before_year_def by (simp only: z1)
  then have hi: "d < days_before_year (z + 1 + 1)"
    using d b s c e f unfolding z_def s_def by (cases "f = 3"; cases "c = 24"; cases "b = 3"; simp)
  show ?thesis using lo hi by (simp add: y)
qed


text \<open>A year is as long as its twelve months.\<close>

lemma year_days: "days_before_month l 12 = (if l then 366 else 365)"
  by (cases l) (simp_all add: days_before_month_def month_lengths_def)

lemma div_step: "0 < n \<Longrightarrow> y div n - (y - 1) div n = (if y mod n = 0 then 1 else 0)" for n y :: int
proof -
  assume n: "0 < n"
  have y: "y = n * (y div n) + y mod n" "0 \<le> y mod n" "y mod n < n" using n by simp_all
  show ?thesis
  proof (cases "y mod n = 0")
    case True
    have "y - 1 = n * (y div n - 1) + (n - 1)" using y(1) True by (simp add: algebra_simps)
    from int_div_pos_eq [OF this] n True show ?thesis by simp
  next
    case False
    have "y - 1 = n * (y div n) + (y mod n - 1)" using y(1) by simp
    from int_div_pos_eq [OF this] y(2,3) False show ?thesis by simp
  qed
qed

lemma year_length: "days_before_year (y + 1) = days_before_year y + days_before_month (leap_year y) 12"
proof -
  note q = div_step [of 4 y] div_step [of 100 y] div_step [of 400 y]
  have m: "y mod 100 = 0 \<longrightarrow> y mod 4 = 0" "y mod 400 = 0 \<longrightarrow> y mod 100 = 0"
    using dvd_trans [of 4 100 y] dvd_trans [of 100 400 y] by (simp_all add: dvd_eq_mod_eq_0)
  have c: "365 + (if A then 1 else 0) - (if B then 1 else 0) + (if C then 1 else 0) = (if A \<and> (\<not> B \<or> C) then 366 else 365 :: int)"
    if "B \<longrightarrow> A" "C \<longrightarrow> B" for A B C
    using that by (cases A; cases B; cases C) simp_all
  have p: "365 * y + a - b + c - (365 * (y - 1) + a' - b' + c') = 365 + (a - a') - (b - b') + (c - c')"
    for a b c a' b' c' :: int by simp
  have "days_before_year (y + 1) - days_before_year y
      = 365 + (y div 4 - (y - 1) div 4) - (y div 100 - (y - 1) div 100) + (y div 400 - (y - 1) div 400)"
    unfolding days_before_year_def add_diff_cancel_right' by (rule p)
  also have "\<dots> = (if leap_year y then 366 else 365)"
    using q c [OF m] by (simp only: leap_year_def zero_less_numeral simp_thms)
  finally show ?thesis unfolding year_days diff_eq_eq by (rule trans [OF _ add.commute])
qed

lemma month_lengths_ge: "k < 12 \<Longrightarrow> 28 \<le> month_lengths l ! k"
  by (auto simp: month_lengths_def less_Suc_eq numeral_eq_Suc)

lemma length_month_lengths: "length (month_lengths l) = 12"
  by (simp add: month_lengths_def)

lemma days_before_month_Suc: "k < 12 \<Longrightarrow> days_before_month l (Suc k) = days_before_month l k + month_lengths l ! k"
  using take_Suc_conv_app_nth [of k "month_lengths l"] by (simp add: days_before_month_def length_month_lengths)

lemma month_index: "k < 12 \<Longrightarrow> (12 * y + int k) div 12 = y" "k < 12 \<Longrightarrow> nat ((12 * y + int k) mod 12) = k"
  by (simp_all add: div_add1_eq mod_add_eq)

lemma first_of_index:
  "k < 12 \<Longrightarrow> first_of (12 * y + int k) = days_before_year (y + 1) + days_before_month (leap_year (y + 1)) k"
  by (simp add: first_of_def Let_def month_index)

lemma first_of_next:
  assumes "k < 12"
  shows "first_of (12 * y + int k + 1) = days_before_year (y + 1) + days_before_month (leap_year (y + 1)) (Suc k)"
proof (cases "k = 11")
  case True
  then have "12 * y + int k + 1 = 12 * (y + 1) + int 0" by simp
  then have "first_of (12 * y + int k + 1) = first_of (12 * (y + 1) + int 0)" by (rule arg_cong)
  also have "\<dots> = days_before_year (y + 1 + 1)" by (subst first_of_index) (simp_all add: days_before_month_def)
  finally show ?thesis using year_length [of "y + 1"] True by simp
next
  case False
  then have "Suc k < 12" using assms by simp
  moreover have "12 * y + int k + 1 = 12 * y + int (Suc k)" by simp
  ultimately show ?thesis by (simp only: first_of_index)
qed

text \<open>Every month has at least 28 days, so the first days of months increase.\<close>

lemma first_of_step: "first_of m + 28 \<le> first_of (m + 1)"
proof -
  define y k where "y = m div 12" and "k = nat (m mod 12)"
  have m: "m = 12 * y + int k" "k < 12" by (simp_all add: y_def k_def)
  show ?thesis
    using month_lengths_ge [OF m(2)] first_of_index [OF m(2), of y] first_of_next [OF m(2), of y]
    by (simp add: m(1) days_before_month_Suc [OF m(2)])
qed

lemma first_of_mono: "m \<le> n \<Longrightarrow> first_of m \<le> first_of n"
proof (induction n rule: int_ge_induct)
  case (step i)
  then show ?case using first_of_step [of i] by simp
qed simp

lemma first_of_strict: "m < n \<Longrightarrow> first_of m < first_of n"
  using first_of_mono [of "m + 1" n] first_of_step [of m] by simp

lemma takeWhile_count:
  assumes "\<And>k. k < n \<Longrightarrow> f k \<le> f (Suc k)" and "f 0 \<le> r" and "r < f (Suc n)"
  defines "k \<equiv> length (takeWhile (\<lambda>k. f (Suc k) \<le> (r::int)) [0..<n])"
  shows "f k \<le> r \<and> r < f (Suc k) \<and> k \<le> n"
proof -
  let ?P = "\<lambda>k. f (Suc k) \<le> r"
  have n: "k \<le> n" unfolding k_def using length_takeWhile_le [of ?P "[0..<n]"] by simp
  have lo: "f k \<le> r"
  proof (cases k)
    case (Suc j)
    then have "j < length (takeWhile ?P [0..<n])" by (simp add: k_def)
    then have "?P (takeWhile ?P [0..<n] ! j)" using nth_mem set_takeWhileD by fast
    moreover have "takeWhile ?P [0..<n] ! j = j" using \<open>j < _\<close> n Suc by (simp add: takeWhile_nth)
    ultimately show ?thesis using Suc by simp
  qed (use assms(2) in simp)
  have "r < f (Suc k)"
  proof (cases "k = n")
    case True
    then show ?thesis using assms(3) by simp
  next
    case False
    then have "k < length [0..<n]" using n by simp
    then have "\<not> ?P ([0..<n] ! k)" unfolding k_def using nth_length_takeWhile [of ?P "[0..<n]"] by blast
    then show ?thesis using False n by simp
  qed
  with lo n show ?thesis by blast
qed

lemma month_of_bounds: "first_of (month_of d) \<le> d \<and> d < first_of (month_of d + 1)"
proof -
  define y where "y = year_of d"
  define k where "k = length (takeWhile (\<lambda>k. days_before_month (leap_year y) (Suc k) \<le> d - days_before_year y) [0..<11])"
  have m: "month_of d = 12 * (y - 1) + int k" by (simp add: month_of_def Let_def y_def k_def)
  have b: "days_before_month (leap_year y) k \<le> d - days_before_year y \<and>
      d - days_before_year y < days_before_month (leap_year y) (Suc k) \<and> k \<le> 11"
    unfolding k_def
  proof (rule takeWhile_count)
    show "days_before_month (leap_year y) j \<le> days_before_month (leap_year y) (Suc j)" if "j < 11" for j
      using that month_lengths_ge [of j "leap_year y"] by (simp add: days_before_month_Suc)
    show "days_before_month (leap_year y) 0 \<le> d - days_before_year y"
      using year_of_bounds [of d] by (simp add: y_def days_before_month_def)
    show "d - days_before_year y < days_before_month (leap_year y) (Suc 11)"
      using year_of_bounds [of d] year_length [of y] by (simp add: y_def numeral_eq_Suc)
  qed
  then show ?thesis
    using first_of_index [of k "y - 1"] first_of_next [of k "y - 1"] by (simp add: m)
qed

text \<open>The first days of two months, against days of the months.\<close>

lemma month_of_less: "first_of m \<le> d \<Longrightarrow> m \<le> month_of d"
  using month_of_bounds [of d] first_of_mono [of "month_of d + 1" m] by linarith

text \<open>
  Adding months and taking them away again: if \<open>s\<close> plus \<open>n\<close> months is not after \<open>t\<close>, then \<open>s\<close> is not
  after \<open>t\<close> minus \<open>n\<close> months, although days that run over make the addition itself not monotone.
\<close>

lemma add_months_adjoint:
  assumes "add_months n s \<le> t"
  shows "s \<le> add_months (- n) t"
proof -
  define d a where "d = s div day" and "a = month_of d"
  define e b where "e = t div day" and "b = month_of e"
  have day: "0 < day" by (simp add: duration_units)
  have tod: "0 \<le> s mod day" "s mod day < day" "0 \<le> t mod day" "t mod day < day"
    using day by simp_all
  have s: "s = d * day + s mod day" and t: "t = e * day + t mod day" by (simp_all add: d_def e_def)
  have d: "first_of a \<le> d" "d < first_of (a + 1)" and e: "first_of b \<le> e" "e < first_of (b + 1)"
    using month_of_bounds by (simp_all add: a_def b_def)
  have add: "add_months n s = (first_of (a + n) + (d - first_of a)) * day + s mod day"
    by (simp add: add_months_def Let_def d_def a_def)
  have sub: "add_months (- n) t = (first_of (b - n) + (e - first_of b)) * day + t mod day"
    by (simp add: add_months_def Let_def e_def b_def)
  have carry: "x < y \<Longrightarrow> x * day + p \<le> y * day + q" if "p < day" "0 \<le> q" for x y p q :: int
  proof -
    assume "x < y"
    then have "(x + 1) * day \<le> y * day" using day by (intro mult_right_mono) auto
    then show ?thesis using that by (simp add: algebra_simps)
  qed
  have le: "first_of (a + n) + (d - first_of a) \<le> e"
  proof (rule ccontr)
    assume "\<not> ?thesis"
    then have "e * day + day \<le> (first_of (a + n) + (d - first_of a)) * day"
      using day mult_right_mono [of "e + 1" "first_of (a + n) + (d - first_of a)" day] by (simp add: algebra_simps)
    then show False using assms tod t by (simp add: add)
  qed
  consider "a + n = b" | "a + n < b" | "b < a + n" by linarith
  then show ?thesis
  proof cases
    case 1
    then have ab: "b - n = a" by simp
    show ?thesis
    proof (cases "d - first_of a < e - first_of b")
      case True
      then show ?thesis using carry [OF tod(2,3)] by (subst s, unfold sub ab) simp
    next
      case False
      then have eq: "d - first_of a = e - first_of b" using le 1 by simp
      then have "s mod day \<le> t mod day" using assms add t 1 by simp
      then show ?thesis by (subst s, unfold sub ab) (simp flip: eq)
    qed
  next
    case 2
    then have "d < first_of (b - n)" using d(2) first_of_mono [of "a + 1" "b - n"] by simp
    then show ?thesis using e(1) carry [OF tod(2,3), of d "first_of (b - n) + (e - first_of b)"]
      by (subst s, unfold sub) simp
  next
    case 3
    then have "first_of (b + 1) \<le> first_of (a + n)" by (intro first_of_mono) simp
    then show ?thesis using le d(1) e(2) by simp
  qed
qed

end
