(* ===== verification/Flow.thy ===== *)
theory Flow
  imports Entity_Model Go_Time
begin

text \<open>
  The session engine of \<^verbatim>\<open>internal/flow\<close>: definitions (states, timers, reminders), instances,
  the decision over branches, the due times and the schedule stored after a step, and the wake-up
  times handed to the leader. A map that the code tells apart from nil is an option of a dictionary.
  The loader's checks are not part of the engine; a parameter of a theorem asks for them.
\<close>

section \<open>Periods (period.go)\<close>

record period =
  pd_fixed :: duration
  pd_months :: int
  pd_text :: string

definition zero_period :: period where
  "zero_period = \<lparr>pd_fixed = 0, pd_months = 0, pd_text = []\<rparr>"

definition max_period_count :: int where
  "max_period_count = 100000"

definition parse_period :: "string \<Rightarrow> period option" where
  "parse_period s0 =
     (let s = trim_space s0; ds = takeWhile is_digit s; unit = dropWhile is_digit s in
      if ds = [] \<or> unit = [] then None
      else case atoi ds of
          None \<Rightarrow> None
        | Some n \<Rightarrow>
            if n \<le> 0 \<or> max_period_count < n then None
            else if unit = ''s'' then Some (zero_period\<lparr>pd_text := s, pd_fixed := wrap64 (n * second)\<rparr>)
            else if unit = ''m'' then Some (zero_period\<lparr>pd_text := s, pd_fixed := wrap64 (n * minute)\<rparr>)
            else if unit = ''h'' then Some (zero_period\<lparr>pd_text := s, pd_fixed := wrap64 (n * hour)\<rparr>)
            else if unit = ''d'' then Some (zero_period\<lparr>pd_text := s, pd_fixed := wrap64 (wrap64 (n * 24) * hour)\<rparr>)
            else if unit = ''mo'' then Some (zero_period\<lparr>pd_text := s, pd_months := n\<rparr>)
            else if unit = ''y'' then Some (zero_period\<lparr>pd_text := s, pd_months := 12 * n\<rparr>)
            else None)"

definition period_is_zero :: "period \<Rightarrow> bool" where
  "period_is_zero p \<longleftrightarrow> pd_fixed p = 0 \<and> pd_months p = 0"

definition period_fixed :: "period \<Rightarrow> duration \<times> bool" where
  "period_fixed p = (pd_fixed p, pd_months p = 0)"

definition add_to :: "period \<Rightarrow> instant \<Rightarrow> instant" where
  "add_to p t = (if pd_months p \<noteq> 0 then add_months (pd_months p) t else t + pd_fixed p)"

definition calendar_slack :: duration where
  "calendar_slack = 4 * day"

definition cutoff :: "period \<Rightarrow> instant \<Rightarrow> instant" where
  "cutoff p now =
     (if pd_months p \<noteq> 0 then add_months (- pd_months p) now + calendar_slack
      else now + wrap64 (- pd_fixed p) + microsecond)"

section \<open>Definitions (definition.go)\<close>

definition since_session :: string where
  "since_session = ''session''"

record timer =
  tm_name :: string
  tm_to :: string
  tm_period :: period
  tm_since :: string

record flow_state =
  st_name :: string
  st_final :: bool
  st_timers :: "timer list"

record reminder =
  rm_name :: string
  rm_every :: duration
  rm_first :: duration
  rm_max :: int
  rm_in :: "string list"

record machine =
  df_initial :: string
  df_states :: "flow_state list"
  df_reminders :: "reminder list"
  df_paused :: "string list"

definition new_state :: "string \<Rightarrow> bool \<Rightarrow> timer list \<Rightarrow> flow_state" where
  "new_state name final timers = \<lparr>st_name = name, st_final = final, st_timers = sort_key tm_name timers\<rparr>"

definition new_definition :: "string \<Rightarrow> flow_state list \<Rightarrow> reminder list \<Rightarrow> machine" where
  "new_definition initial states reminders =
     \<lparr>df_initial = initial, df_states = states, df_reminders = sort_key rm_name reminders, df_paused = []\<rparr>"

definition state_of :: "machine \<Rightarrow> string \<Rightarrow> flow_state option" where
  "state_of d name = find (\<lambda>st. st_name st = name) (df_states d)"

definition reminder_of :: "machine \<Rightarrow> string \<Rightarrow> reminder option" where
  "reminder_of d name = find (\<lambda>r. rm_name r = name) (df_reminders d)"

definition active :: "reminder \<Rightarrow> string \<Rightarrow> bool" where
  "active r state \<longleftrightarrow> state \<in> set (rm_in r)"

definition reminders_in :: "machine \<Rightarrow> string \<Rightarrow> reminder list" where
  "reminders_in d state = filter (\<lambda>r. active r state) (df_reminders d)"

definition pausing :: "string list \<Rightarrow> machine \<Rightarrow> machine" where
  "pausing names d = d\<lparr>df_paused := df_paused d @ names\<rparr>"

definition paused :: "machine \<Rightarrow> string \<Rightarrow> bool" where
  "paused d name \<longleftrightarrow> name \<in> set (df_paused d)"

section \<open>Instances (instance.go, current.go)\<close>

record reminder_record =
  rr_since :: instant
  rr_last :: instant
  rr_count :: int

record flow_instance =
  in_state :: string
  in_generation :: int
  in_entered :: instant
  in_cause :: int
  in_previous :: string
  in_due :: instant
  in_restarts :: "instant dict"
  in_reminders :: "reminder_record dict option"

record move =
  mv_from :: string
  mv_to :: string

record schedule =
  sc_due :: instant
  sc_restarts :: "instant dict option"
  sc_reminders :: "reminder_record dict option"

record current =
  cu_inst :: flow_instance
  cu_created :: instant
  cu_stranded :: bool

definition unset_instance :: flow_instance where
  "unset_instance = \<lparr>in_state = [], in_generation = 0, in_entered = 0, in_cause = 0, in_previous = [],
     in_due = 0, in_restarts = [], in_reminders = None\<rparr>"

definition instance_is_zero :: "flow_instance \<Rightarrow> bool" where
  "instance_is_zero i \<longleftrightarrow> in_generation i = 0 \<and> in_state i = []"

definition enter :: "move \<Rightarrow> instant \<Rightarrow> int \<Rightarrow> flow_instance \<Rightarrow> flow_instance" where
  "enter mv at cause i =
     \<lparr>in_state = mv_to mv, in_generation = wrap64 (in_generation i + 1), in_entered = norm_time at, in_cause = cause,
      in_previous = (if mv_from mv = mv_to mv then in_previous i else mv_from mv),
      in_due = 0, in_restarts = [], in_reminders = None\<rparr>"

definition norm_reminder :: "reminder_record \<Rightarrow> reminder_record" where
  "norm_reminder r = \<lparr>rr_since = norm_time (rr_since r), rr_last = norm_time (rr_last r), rr_count = rr_count r\<rparr>"

definition read_instance :: "machine \<Rightarrow> flow_instance \<Rightarrow> instant \<Rightarrow> current" where
  "read_instance d i created =
     (if instance_is_zero i then
        \<lparr>cu_inst = unset_instance\<lparr>in_state := df_initial d, in_entered := created,
           in_restarts := in_restarts i, in_reminders := in_reminders i\<rparr>,
         cu_created = created, cu_stranded = False\<rparr>
      else \<lparr>cu_inst = i, cu_created = created, cu_stranded = (state_of d (in_state i) = None)\<rparr>)"

definition live :: "machine \<Rightarrow> current \<Rightarrow> flow_state option" where
  "live d cur = (case state_of d (in_state (cu_inst cur)) of
     None \<Rightarrow> None | Some st \<Rightarrow> if st_final st then None else Some st)"

section \<open>Reminders (reminders.go)\<close>

definition records :: "current \<Rightarrow> reminder_record dict" where
  "records cur = (case in_reminders (cu_inst cur) of None \<Rightarrow> [] | Some rs \<Rightarrow> rs)"

definition record_of :: "reminder \<Rightarrow> current \<Rightarrow> reminder_record option" where
  "record_of r cur =
     (if \<not> active r (in_state (cu_inst cur)) then None
      else case dict_get (records cur) (rm_name r) of
          Some rec \<Rightarrow> Some rec
        | None \<Rightarrow> Some \<lparr>rr_since = in_entered (cu_inst cur), rr_last = 0, rr_count = 0\<rparr>)"

text \<open>Go's division truncates; the code corrects it to a floor. The products and sums wrap.\<close>

definition go_quot :: "int \<Rightarrow> int \<Rightarrow> int" where
  "go_quot a b = sgn a * (\<bar>a\<bar> div b)"

definition go_rem :: "int \<Rightarrow> int \<Rightarrow> int" where
  "go_rem a b = a - b * go_quot a b"

definition next_slot :: "reminder \<Rightarrow> current \<Rightarrow> instant option" where
  "next_slot r cur =
     (if cu_stranded cur then None
      else case record_of r cur of
          None \<Rightarrow> None
        | Some rec \<Rightarrow>
            if (0 < rm_max r \<and> rm_max r \<le> rr_count rec) \<or> rm_every r \<le> 0 then None
            else
              let first = rr_since rec + rm_first r in
              if rr_last rec = 0 then Some (norm_time first)
              else
                let diff = time_sub (rr_last rec) first;
                    k0 = go_quot diff (rm_every r);
                    k = (if go_rem diff (rm_every r) < 0 then k0 - 1 else k0)
                in Some (norm_time (first + wrap64 ((k + 1) * rm_every r))))"

definition earlier :: "('a \<times> instant) option \<Rightarrow> ('a \<times> instant) option \<Rightarrow> ('a \<times> instant) option" where
  "earlier best x =
     (case x of None \<Rightarrow> best
      | Some (a, at) \<Rightarrow> (case best of None \<Rightarrow> x | Some (b, bt) \<Rightarrow> if at < bt then x else best))"

definition next_reminder :: "machine \<Rightarrow> current \<Rightarrow> (reminder \<times> instant) option" where
  "next_reminder d cur =
     (case live d cur of None \<Rightarrow> None
      | Some st \<Rightarrow> fold (\<lambda>r best. if paused d (rm_name r) then best
            else earlier best (map_option (\<lambda>at. (r, at)) (next_slot r cur)))
          (reminders_in d (in_state (cu_inst cur))) None)"

definition carried_reminders :: "machine \<Rightarrow> current \<Rightarrow> string \<Rightarrow> reminder_record dict" where
  "carried_reminders d from to =
     fold (\<lambda>r out. if \<not> active r to then out
         else case record_of r from of None \<Rightarrow> out | Some rec \<Rightarrow> dict_set (rm_name r) rec out)
       (df_reminders d) []"

definition prune_reminders :: "machine \<Rightarrow> reminder_record dict \<Rightarrow> reminder_record dict" where
  "prune_reminders d rs = filter (\<lambda>(name, rec). reminder_of d name \<noteq> None) rs"

definition resume_reminders :: "machine \<Rightarrow> current \<Rightarrow> instant \<Rightarrow> reminder_record dict" where
  "resume_reminders d cur at =
     fold (\<lambda>r out. case next_slot r cur of None \<Rightarrow> out
         | Some slot \<Rightarrow>
             if at < slot then out
             else dict_set (rm_name r) \<lparr>rr_since = at, rr_last = 0,
               rr_count = (case record_of r cur of None \<Rightarrow> 0 | Some rec \<Rightarrow> rr_count rec)\<rparr> out)
       (reminders_in d (in_state (cu_inst cur))) (prune_reminders d (records cur))"

definition reminder_counts :: "machine \<Rightarrow> current \<Rightarrow> int dict" where
  "reminder_counts d cur =
     fold (\<lambda>r out. dict_set (rm_name r)
         (if active r (in_state (cu_inst cur))
          then case dict_get (records cur) (rm_name r) of None \<Rightarrow> 0 | Some rec \<Rightarrow> rr_count rec else 0) out)
       (df_reminders d) []"

section \<open>Timers and schedules (timers.go)\<close>

definition timer_due :: "timer \<Rightarrow> current \<Rightarrow> instant" where
  "timer_due t cur =
     (let anchor = (if tm_since t = since_session then cu_created cur else in_entered (cu_inst cur));
          anchor' = (case dict_get (in_restarts (cu_inst cur)) (tm_name t) of
            None \<Rightarrow> anchor | Some r \<Rightarrow> if anchor < r then r else anchor)
      in norm_time (add_to (tm_period t) anchor'))"

definition next_timer :: "machine \<Rightarrow> current \<Rightarrow> (timer \<times> instant) option" where
  "next_timer d cur =
     (case live d cur of None \<Rightarrow> None
      | Some st \<Rightarrow> fold (\<lambda>t best. earlier best (Some (t, timer_due t cur))) (st_timers st) None)"

definition reminder_slack :: duration where
  "reminder_slack = 30 * second"

definition next_due :: "machine \<Rightarrow> current \<Rightarrow> instant" where
  "next_due d cur =
     (let due = map_option snd (next_timer d cur);
          due' = (case next_reminder d cur of None \<Rightarrow> due
            | Some (r, slot) \<Rightarrow>
                let hint = slot + reminder_slack in
                case due of None \<Rightarrow> Some hint | Some at \<Rightarrow> if hint < at then Some hint else due)
      in case due' of None \<Rightarrow> 0 | Some at \<Rightarrow> norm_time at)"

definition carried_restarts :: "machine \<Rightarrow> current \<Rightarrow> string \<Rightarrow> instant dict option" where
  "carried_restarts d from to =
     (case (state_of d (in_state (cu_inst from)), state_of d to) of
        (Some left, Some target) \<Rightarrow>
          if in_restarts (cu_inst from) = [] then None
          else
            let scoped = fold (\<lambda>t m. dict_set (tm_name t) (tm_since t = since_session) m) (st_timers left) [];
                out = fold (\<lambda>t out. case dict_get (in_restarts (cu_inst from)) (tm_name t) of
                    None \<Rightarrow> out
                  | Some r \<Rightarrow> if tm_since t = since_session \<and> dict_get scoped (tm_name t) = Some True
                      then dict_set (tm_name t) r out else out) (st_timers target) []
            in if out = [] then None else Some out
      | _ \<Rightarrow> None)"

definition step_schedule :: "machine \<Rightarrow> current \<Rightarrow> current \<Rightarrow> schedule" where
  "step_schedule d from next =
     (if in_generation (cu_inst next) = in_generation (cu_inst from) then
        \<lparr>sc_due = next_due d next, sc_restarts = None,
         sc_reminders = map_option (prune_reminders d) (in_reminders (cu_inst next))\<rparr>
      else
        let carried = carried_restarts d from (in_state (cu_inst next));
            reminders = carried_reminders d from (in_state (cu_inst next));
            next' = next\<lparr>cu_inst := (cu_inst next)\<lparr>in_restarts := (case carried of None \<Rightarrow> [] | Some rs \<Rightarrow> rs),
              in_reminders := Some reminders\<rparr>\<rparr>
        in \<lparr>sc_due = next_due d next', sc_restarts = carried, sc_reminders = Some reminders\<rparr>)"

definition resume_restarts :: "flow_state \<Rightarrow> current \<Rightarrow> instant \<Rightarrow> instant dict" where
  "resume_restarts st cur at =
     fold (\<lambda>t out.
         let out1 = (case dict_get (in_restarts (cu_inst cur)) (tm_name t) of
               None \<Rightarrow> out | Some r \<Rightarrow> dict_set (tm_name t) r out)
         in if at < timer_due t cur then out1 else dict_set (tm_name t) at out1)
       (st_timers st) []"

definition resume :: "machine \<Rightarrow> current \<Rightarrow> instant \<Rightarrow> schedule" where
  "resume d cur at0 =
     (let at = norm_time at0 in
      case live d cur of
        None \<Rightarrow> \<lparr>sc_due = 0, sc_restarts = None, sc_reminders = None\<rparr>
      | Some st \<Rightarrow>
          let restarts = resume_restarts st cur at;
              reminders = resume_reminders d cur at;
              resumed = cur\<lparr>cu_inst := (cu_inst cur)\<lparr>in_restarts := restarts, in_reminders := Some reminders\<rparr>\<rparr>
          in \<lparr>sc_due = next_due d resumed, sc_restarts = Some restarts, sc_reminders = Some reminders\<rparr>)"

section \<open>Decisions (decide.go)\<close>

datatype 'b decision = NoMove | Moved move 'b | GuardFailed 'b string | Gated 'b

record 'b rules =
  ru_admits :: "'b \<Rightarrow> bool"
  ru_holds :: "'b \<Rightarrow> string + bool"
  ru_gate :: "('b \<Rightarrow> bool) option"
  ru_target :: "'b \<Rightarrow> string"

fun decide_branch :: "string \<Rightarrow> 'b list \<Rightarrow> 'b rules \<Rightarrow> 'b decision" where
  "decide_branch from [] r = NoMove"
| "decide_branch from (b # bs) r =
     (if \<not> ru_admits r b then decide_branch from bs r
      else case ru_holds r b of
          Inl err \<Rightarrow> GuardFailed b err
        | Inr False \<Rightarrow> decide_branch from bs r
        | Inr True \<Rightarrow>
            if (case ru_gate r of None \<Rightarrow> False | Some g \<Rightarrow> \<not> g b) then Gated b
            else Moved \<lparr>mv_from = from, mv_to = ru_target r b\<rparr> b)"

section \<open>Wake-up times (duewake.go)\<close>

text \<open>The earliest noted time and whether the one-slot channel holds a ping.\<close>

record due_wake =
  dw_at :: instant
  dw_ping :: bool

definition new_due_wake :: due_wake where
  "new_due_wake = \<lparr>dw_at = 0, dw_ping = False\<rparr>"

definition note_due :: "instant \<Rightarrow> due_wake \<Rightarrow> due_wake" where
  "note_due at w =
     (if at = 0 then w
      else \<lparr>dw_at = (if dw_at w = 0 \<or> at < dw_at w then at else dw_at w), dw_ping = True\<rparr>)"

definition receive_ping :: "due_wake \<Rightarrow> due_wake option" where
  "receive_ping w = (if dw_ping w then Some (w\<lparr>dw_ping := False\<rparr>) else None)"

definition take_due :: "due_wake \<Rightarrow> instant \<times> due_wake" where
  "take_due w = (dw_at w, w\<lparr>dw_at := 0\<rparr>)"

section \<open>Statuses (status.go)\<close>

datatype status = StatusWorking | StatusInputRequired | StatusCompleted | StatusCancelled | StatusFailed

definition terminal :: "status \<Rightarrow> bool" where
  "terminal s \<longleftrightarrow> s = StatusCompleted \<or> s = StatusCancelled \<or> s = StatusFailed"

end
