(* ===== verification/Flow_Spec.thy ===== *)
theory Flow_Spec
  imports Flow
begin

text \<open>
  What the session engine's pure functions promise: a cutoff never misses a period that has run
  out, the chosen timer and reminder are the earliest, a reminder's slots lie on their grid, a
  decision takes the first branch that applies, and the wake-up carries the earliest noted time.
\<close>

section \<open>Periods\<close>

text \<open>
  C27: A cutoff finds everything that has run out. For every period that \<open>ParsePeriod\<close> accepts and
  every start \<open>s\<close> whose period has ended by \<open>now\<close>, \<open>s\<close> lies before \<open>Cutoff(now)\<close>: in fixed units
  up to a microsecond, and for calendar periods across month ends and leap years, although adding
  months is not monotone.
\<close>
theorem cutoff_covers:
  assumes "parse_period text = Some p" and "add_to p s \<le> now"
  shows "s < cutoff p now \<and> \<not> period_is_zero p \<and> (pd_months p = 0 \<longrightarrow> 0 < pd_fixed p)"
proof -
  have "- (2 ^ 63) < pd_fixed p \<and> pd_fixed p < 2 ^ 63 \<and>
      (if pd_months p = 0 then 0 < pd_fixed p else 0 < pd_months p)"
    using assms(1)
    by (auto simp: parse_period_def Let_def zero_period_def max_period_count_def wrap64_def duration_units
        split: option.splits if_splits)
  moreover have "s < cutoff p now" if "pd_months p \<noteq> 0"
    using that add_months_adjoint [of "pd_months p" s now] assms(2)
    by (simp add: add_to_def cutoff_def calendar_slack_def duration_units)
  ultimately show ?thesis
    using assms(2) by (auto simp: add_to_def cutoff_def period_is_zero_def wrap64_def microsecond_def split: if_splits)
qed

text \<open>31 January 2025 plus one month is 3 March 2025.\<close>

theorem cutoff_covers_witness:
  "\<exists>p. parse_period '' 1mo'' = Some p \<and> 63873878400 * second < cutoff p (63876556800 * second)"
proof -
  define p where "p = \<lparr>pd_fixed = 0, pd_months = 1, pd_text = ''1mo''\<rparr>"
  have parse: "parse_period '' 1mo'' = Some p" unfolding p_def by code_simp
  have "add_to p (63873878400 * second) \<le> 63876556800 * second" unfolding p_def by code_simp
  from cutoff_covers [OF parse this] parse show ?thesis by blast
qed

section \<open>The earliest of several\<close>

definition earliest_of :: "('a \<times> instant) list \<Rightarrow> ('a \<times> instant) option" where
  "earliest_of xs = fold (\<lambda>x best. earlier best (Some x)) xs None"

lemma fold_earlier:
  "(\<exists>p\<in>insert b (set xs). fold (\<lambda>x best. earlier best (Some x)) xs (Some b) = Some p \<and>
     (\<forall>q\<in>insert b (set xs). snd p \<le> snd q))"
proof (induction xs arbitrary: b)
  case (Cons x xs)
  have e: "earlier (Some b) (Some x) = Some (if snd x < snd b then x else b)"
    by (simp add: earlier_def split: prod.split)
  show ?case
    using Cons.IH [of "if snd x < snd b then x else b"] by (cases "snd x < snd b") (fastforce simp: e)+
qed simp

lemma earliest_of_None: "earliest_of xs = None \<longleftrightarrow> xs = []"
  using fold_earlier [of "hd xs" "tl xs"] by (cases xs) (auto simp: earliest_of_def earlier_def split: prod.splits)

lemma earliest_of_Some: "earliest_of xs = Some p \<Longrightarrow> p \<in> set xs \<and> (\<forall>q\<in>set xs. snd p \<le> snd q)"
  using fold_earlier [of "hd xs" "tl xs"] by (cases xs) (auto simp: earliest_of_def earlier_def split: prod.splits)

definition timer_dues :: "machine \<Rightarrow> current \<Rightarrow> (timer \<times> instant) list" where
  "timer_dues d cur = (case live d cur of None \<Rightarrow> [] | Some st \<Rightarrow> map (\<lambda>t. (t, timer_due t cur)) (st_timers st))"

definition reminder_slots :: "machine \<Rightarrow> current \<Rightarrow> (reminder \<times> instant) list" where
  "reminder_slots d cur = (case live d cur of None \<Rightarrow> []
     | Some st \<Rightarrow> List.map_filter (\<lambda>r. if paused d (rm_name r) then None else map_option (Pair r) (next_slot r cur))
         (reminders_in d (in_state (cu_inst cur))))"

lemma fold_map_arg: "fold (\<lambda>x. f (g x)) xs = fold f (map g xs)"
  by (induction xs) simp_all

lemma next_timer_earliest: "next_timer d cur = earliest_of (timer_dues d cur)"
  by (simp add: next_timer_def timer_dues_def earliest_of_def fold_map o_def split: option.split)

lemma fold_filter_arg:
  "fold (\<lambda>r best. if P r then best else earlier best (map_option (\<lambda>at. (r, at)) (f r))) rs b =
   fold (\<lambda>x best. earlier best (Some x)) (List.map_filter (\<lambda>r. if P r then None else map_option (Pair r) (f r)) rs) b"
  by (induction rs arbitrary: b) (auto simp: map_filter_simps earlier_def split: option.split)

lemma next_reminder_earliest: "next_reminder d cur = earliest_of (reminder_slots d cur)"
  by (simp add: next_reminder_def reminder_slots_def earliest_of_def fold_filter_arg split: option.split)

section \<open>The grid of a reminder\<close>

lemma go_floor:
  assumes "0 < b"
  shows "(if go_rem a b < 0 then go_quot a b - 1 else go_quot a b) = a div b"
proof (cases "0 \<le> a")
  case True
  then have "go_quot a b = a div b" using assms by (cases "a = 0") (simp_all add: go_quot_def)
  moreover have "go_rem a b = a mod b" using calculation by (simp add: go_rem_def minus_mult_div_eq_mod)
  ultimately show ?thesis using pos_mod_sign [OF assms, of a] by simp
next
  case False
  then have q: "go_quot a b = - ((- a) div b)" by (simp add: go_quot_def)
  have "go_rem a b = - ((- a) mod b)" unfolding go_rem_def q by (simp add: minus_mult_div_eq_mod [symmetric])
  then show ?thesis
    using assms q zdiv_zminus1_eq_if [of b "- a"] by (cases "- a mod b = 0") (auto simp: order.strict_iff_order)
qed

lemma grid_after:
  fixes e f l :: int
  assumes "0 < e"
  shows "l < f + ((l - f) div e + 1) * e" and "f + ((l - f) div e + 1) * e \<le> l + e"
proof -
  have "l - f = (l - f) div e * e + (l - f) mod e" "0 \<le> (l - f) mod e" "(l - f) mod e < e" using assms by simp_all
  then show "l < f + ((l - f) div e + 1) * e" "f + ((l - f) div e + 1) * e \<le> l + e"
    unfolding distrib_right by linarith+
qed

text \<open>Times and counts of one reminder for which the 64-bit products do not overflow.\<close>

definition grid_fits :: "reminder \<Rightarrow> reminder_record \<Rightarrow> bool" where
  "grid_fits r rec \<longleftrightarrow> 0 < rm_every r \<and>
     (rr_last rec = 0 \<or> \<bar>rr_last rec - (rr_since rec + rm_first r)\<bar> + 2 * rm_every r < 2 ^ 63)"

lemma next_slot_grid:
  assumes "\<not> cu_stranded cur" and "record_of r cur = Some rec" and "grid_fits r rec" and "rr_last rec \<noteq> 0"
    and "rm_max r \<le> 0 \<or> rr_count rec < rm_max r"
  shows "next_slot r cur = Some (norm_time (rr_since rec + rm_first r +
    ((rr_last rec - (rr_since rec + rm_first r)) div rm_every r + 1) * rm_every r))"
proof -
  let ?f = "rr_since rec + rm_first r" and ?l = "rr_last rec" and ?e = "rm_every r"
  have e: "0 < ?e" and d: "\<bar>?l - ?f\<bar> + 2 * ?e < 2 ^ 63" using assms(3,4) by (simp_all add: grid_fits_def)
  have s: "time_sub ?l ?f = ?l - ?f" using d e by (simp add: time_sub_def)
  have "((?l - ?f) div ?e + 1) * ?e \<le> ?l - ?f + ?e" "?l - ?f < ((?l - ?f) div ?e + 1) * ?e"
    using grid_after [OF e, where l = ?l and f = ?f] by simp_all
  then have w: "wrap64 (((?l - ?f) div ?e + 1) * ?e) = ((?l - ?f) div ?e + 1) * ?e"
    using d e by (intro wrap64_id) auto
  have c: "((0 < rm_max r \<and> rm_max r \<le> rr_count rec) \<or> ?e \<le> 0) = False" using assms(5) e by auto
  have "next_slot r cur = Some (norm_time (?f + wrap64
      (((if go_rem (?l - ?f) ?e < 0 then go_quot (?l - ?f) ?e - 1 else go_quot (?l - ?f) ?e) + 1) * ?e)))"
    by (simp only: next_slot_def Let_def assms(1,2,4) c s if_False option.case)
  then show ?thesis unfolding go_floor [OF e] w .
qed

text \<open>
  A reminder's slots lie on the grid of its span and never repeat. When a reminder has posted,
  its next slot is on the grid \<open>since + first + k * every\<close> (at the stores' precision), strictly after
  the last post and at most one \<open>every\<close> after it: missed slots are skipped, not replayed, also when
  the last post lies before the first slot; with its maximum reached it has no slot.
\<close>
theorem next_slot_on_grid:
  assumes "record_of r cur = Some rec" and "\<not> cu_stranded cur" and "grid_fits r rec" and "rr_last rec \<noteq> 0"
    and "norm_time (rr_last rec) = rr_last rec" and "microsecond dvd rr_since rec + rm_first r" and "microsecond dvd rm_every r"
  shows "if 0 < rm_max r \<and> rm_max r \<le> rr_count rec then next_slot r cur = None
    else \<exists>k. next_slot r cur = Some (rr_since rec + rm_first r + k * rm_every r) \<and>
      rr_last rec < rr_since rec + rm_first r + k * rm_every r \<and>
      rr_since rec + rm_first r + k * rm_every r \<le> rr_last rec + rm_every r"
proof (cases "0 < rm_max r \<and> rm_max r \<le> rr_count rec")
  case True
  then show ?thesis using assms(1,2) by (simp add: next_slot_def)
next
  case False
  let ?f = "rr_since rec + rm_first r"
  let ?k = "(rr_last rec - ?f) div rm_every r + 1"
  have e: "0 < rm_every r" using assms(3) by (simp add: grid_fits_def)
  have "microsecond dvd ?f + ?k * rm_every r" by (rule dvd_add [OF assms(6) dvd_mult [OF assms(7)]])
  then have "norm_time (?f + ?k * rm_every r) = ?f + ?k * rm_every r"
    by (simp add: norm_time_def dvd_eq_mod_eq_0)
  with next_slot_grid [OF assms(2,1,3,4)] False grid_after [OF e, where l = "rr_last rec" and f = ?f] show ?thesis
    by (auto simp: not_le intro!: exI [of _ ?k])
qed

definition daily :: reminder where
  "daily = \<lparr>rm_name = ''nudge'', rm_every = day, rm_first = hour, rm_max = 3, rm_in = [''open'']\<rparr>"

definition nudged :: reminder_record where
  "nudged = \<lparr>rr_since = 1000 * day, rr_last = 1000 * day + minute, rr_count = 1\<rparr>"

definition waiting :: current where
  "waiting = \<lparr>cu_inst = unset_instance\<lparr>in_state := ''open'', in_reminders := Some [(''nudge'', nudged)]\<rparr>,
     cu_created = 1000 * day, cu_stranded = False\<rparr>"

text \<open>A last post before the first slot: the next one is the slot an hour after the start.\<close>

theorem next_slot_on_grid_witness:
  "\<exists>k. next_slot daily waiting = Some (1000 * day + hour + k * day) \<and>
    1000 * day + minute < 1000 * day + hour + k * day \<and> 1000 * day + hour + k * day \<le> 1000 * day + minute + day"
proof -
  have r: "record_of daily waiting = Some nudged" by code_simp
  have "grid_fits daily nudged" "norm_time (rr_last nudged) = rr_last nudged"
    "microsecond dvd rr_since nudged + rm_first daily" "microsecond dvd rm_every daily"
    by (simp_all add: grid_fits_def daily_def nudged_def duration_units norm_time_def)
  from next_slot_on_grid [OF r _ this(1) _ this(2-4)] show ?thesis
    by (simp add: waiting_def nudged_def daily_def duration_units)
qed

section \<open>Decisions\<close>

text \<open>
  C26: A decision takes the first branch that applies. \<open>Decide\<close> skips the branches that the poster
  rule refuses and those whose guard does not hold; the first other branch decides alone: a guard
  that fails stops the decision, a gate that refuses stops it, and otherwise the instance moves to
  that branch's target. No later branch is ever tried, so a guard error never falls through.
\<close>
theorem decide_first_branch:
  "decide_branch from bs r =
    (case dropWhile (\<lambda>b. if ru_admits r b then ru_holds r b = Inr False else True) bs of
       [] \<Rightarrow> NoMove
     | b # _ \<Rightarrow>
         (case ru_holds r b of Inl err \<Rightarrow> GuardFailed b err
          | Inr _ \<Rightarrow> if \<exists>g. ru_gate r = Some g \<and> \<not> g b then Gated b
              else Moved \<lparr>mv_from = from, mv_to = ru_target r b\<rparr> b))"
  by (induction bs) (auto split: sum.split bool.split option.split)

section \<open>Wake-up times\<close>

definition note_all :: "instant list \<Rightarrow> due_wake \<Rightarrow> due_wake" where
  "note_all ats w = fold note_due ats w"

lemma note_all_min:
  "dw_at w \<noteq> 0 \<Longrightarrow> dw_at (note_all ats w) = Min (insert (dw_at w) (set ats - {0})) \<and>
    dw_ping (note_all ats w) = (dw_ping w \<or> set ats - {0} \<noteq> {})"
proof (induction ats arbitrary: w)
  case (Cons at ats)
  show ?case
  proof (cases "at = 0")
    case True
    then show ?thesis using Cons by (simp add: note_all_def note_due_def)
  next
    case False
    let ?w = "note_due at w"
    have w: "dw_at ?w = min (dw_at w) at" "dw_ping ?w" "dw_at ?w \<noteq> 0" using False Cons.prems by (auto simp: note_due_def min_def)
    have "Min (insert (min a b) S) = Min (insert a (insert b S))" if "finite S" for a b :: int and S
      using that by (cases "S = {}") (simp_all add: min.assoc)
    from this [of "set ats - {0}" "dw_at w" at] show ?thesis using Cons.IH [OF w(3)] w False by (simp add: note_all_def insert_Diff_if)
  qed
qed (simp add: note_all_def)

text \<open>
  The wake-up carries the earliest noted time. After any sequence of \<open>Note\<close> calls on a fresh or
  just taken \<open>DueWake\<close>, \<open>Take\<close> returns the least non-zero noted time, or zero when none was noted,
  and a ping waits exactly when one was noted or was already waiting; the next \<open>Take\<close> returns zero.
\<close>
theorem take_is_earliest:
  "take_due (note_all ats \<lparr>dw_at = 0, dw_ping = p\<rparr>) =
    (if set ats - {0} = {} then 0 else Min (set ats - {0}),
     \<lparr>dw_at = 0, dw_ping = (p \<or> set ats - {0} \<noteq> {})\<rparr>)"
proof (induction ats)
  case (Cons at ats)
  show ?case
  proof (cases "at = 0")
    case True
    then show ?thesis using Cons by (simp add: note_all_def note_due_def)
  next
    case False
    then have "note_due at \<lparr>dw_at = 0, dw_ping = p\<rparr> = \<lparr>dw_at = at, dw_ping = True\<rparr>" by (simp add: note_due_def)
    with False note_all_min [of "\<lparr>dw_at = at, dw_ping = True\<rparr>" ats] show ?thesis
      by (cases "note_all ats \<lparr>dw_at = at, dw_ping = True\<rparr>") (auto simp: note_all_def take_due_def insert_Diff_if)
  qed
qed (simp add: note_all_def take_due_def)

end
