(* ===== verification/Flow_Session.thy ===== *)
theory Flow_Session
  imports Flow_Spec
begin

text \<open>
  Channel sessions: the engine composed with what the store keeps. A session is the stored instance
  of an open or closed channel. A post runs the decider (realtime/session.go), a leader's round fires
  a timer or posts a reminder under a compare-and-set or rewrites the due time (realtime/timers.go,
  reminders.go), a reopen resumes; every step stores the schedule the engine derives
  (\<open>ApplySchedule\<close> of channels/session.go). A configuration reload is a step under another
  definition. The theorems: the stored due time is always the derived one after a step, a step is
  never refused, a timer fires once per generation, a reminder posts once per slot, and a resume
  leaves nothing overdue.
\<close>

section \<open>The store's side (channels/session.go)\<close>

record session =
  se_inst :: flow_instance
  se_created :: instant
  se_open :: bool

datatype session_error = InvalidMessage

definition valid_state_name :: "string \<Rightarrow> bool" where
  "valid_state_name s = (case s of [] \<Rightarrow> False
     | c # cs \<Rightarrow> is_lower c \<and> list_all (\<lambda>x. is_lower x \<or> is_digit x \<or> x = CHR ''-'') cs \<and> length cs \<le> 62)"

definition max_session_reminders :: nat where
  "max_session_reminders = 8"

definition max_session_restarts :: nat where
  "max_session_restarts = 8"

definition check_reminder :: "string \<Rightarrow> reminder_record \<Rightarrow> bool" where
  "check_reminder name r \<longleftrightarrow> valid_state_name name \<and> 0 \<le> rr_count r"

definition check_reminders :: "reminder_record dict \<Rightarrow> bool" where
  "check_reminders rs \<longleftrightarrow> length rs \<le> max_session_reminders \<and> list_all (\<lambda>(name, r). check_reminder name r) rs"

definition check_restarts :: "instant dict \<Rightarrow> bool" where
  "check_restarts rs \<longleftrightarrow> length rs \<le> max_session_restarts \<and> list_all (\<lambda>(name, at). valid_state_name name) rs"

definition clone_reminders :: "reminder_record dict \<Rightarrow> reminder_record dict option" where
  "clone_reminders rs = (if rs = [] then None else Some rs)"

definition map_dict :: "('a \<Rightarrow> 'b) \<Rightarrow> 'a dict \<Rightarrow> 'b dict" where
  "map_dict f m = map (\<lambda>(k, v). (k, f v)) m"

definition apply_schedule :: "schedule \<Rightarrow> session \<Rightarrow> (session_error, session) outcome" where
  "apply_schedule sch s =
     (if (case sc_reminders sch of None \<Rightarrow> False | Some rs \<Rightarrow> \<not> check_reminders rs) then Fail InvalidMessage
      else if (case sc_restarts sch of None \<Rightarrow> False | Some rs \<Rightarrow> \<not> check_restarts rs) then Fail InvalidMessage
      else Ok (s\<lparr>se_inst := (se_inst s)\<lparr>
        in_restarts := (case sc_restarts sch of None \<Rightarrow> in_restarts (se_inst s) | Some rs \<Rightarrow> map_dict norm_time rs),
        in_reminders := (case sc_reminders sch of None \<Rightarrow> in_reminders (se_inst s)
          | Some rs \<Rightarrow> clone_reminders (map_dict norm_reminder rs)),
        in_due := norm_time (sc_due sch)\<rparr>\<rparr>))"

definition check_move :: "move \<Rightarrow> bool" where
  "check_move mv \<longleftrightarrow> valid_state_name (mv_from mv) \<and> valid_state_name (mv_to mv)"

section \<open>Steps (realtime/session.go, timers.go, reminders.go)\<close>

definition current_session :: "machine \<Rightarrow> session \<Rightarrow> current" where
  "current_session d s = read_instance d (se_inst s) (se_created s)"

definition new_session :: "machine \<Rightarrow> instant \<Rightarrow> (session_error, session) outcome" where
  "new_session d at =
     (let s = \<lparr>se_inst = unset_instance, se_created = norm_time at, se_open = True\<rparr>
      in apply_schedule \<lparr>sc_due = next_due d (current_session d s), sc_restarts = None, sc_reminders = None\<rparr> s)"

text \<open>A step with the move its decider returned: \<open>ApplySession\<close>, then \<open>stepSchedule\<close>.\<close>

definition run_step :: "machine \<Rightarrow> move option \<Rightarrow> instant \<Rightarrow> int \<Rightarrow> session \<Rightarrow> (session_error, session) outcome" where
  "run_step d mv at cause s =
     (case mv of
        None \<Rightarrow> apply_schedule (step_schedule d (current_session d s) (current_session d s)) s
      | Some mv \<Rightarrow>
          if \<not> check_move mv then Fail InvalidMessage
          else
            let s' = s\<lparr>se_inst := enter mv at cause (se_inst s)\<rparr>
            in apply_schedule (step_schedule d (current_session d s) (current_session d s')) s')"

definition session_decider :: "machine \<Rightarrow> (string \<Rightarrow> 'b list) \<Rightarrow> (current \<Rightarrow> 'b rules) \<Rightarrow> session \<Rightarrow> move option" where
  "session_decider d branches rules s =
     (if \<not> se_open s then None
      else
        let cur = current_session d s; bs = branches (in_state (cu_inst cur)) in
        if bs = [] then None
        else case decide_branch (in_state (cu_inst cur)) bs (rules cur) of Moved mv b \<Rightarrow> Some mv | _ \<Rightarrow> None)"

definition post_message ::
  "machine \<Rightarrow> (string \<Rightarrow> 'b list) \<Rightarrow> (current \<Rightarrow> 'b rules) \<Rightarrow> instant \<Rightarrow> int \<Rightarrow> session \<Rightarrow>
   (session_error, session) outcome" where
  "post_message d branches rules at cause s = run_step d (session_decider d branches rules s) (norm_time at) cause s"

definition timer_decider :: "machine \<Rightarrow> timer \<Rightarrow> string \<Rightarrow> int \<Rightarrow> instant \<Rightarrow> session \<Rightarrow> move option" where
  "timer_decider d fire state gen now s =
     (let cur = current_session d s in
      if \<not> se_open s then None
      else if in_state (cu_inst cur) \<noteq> state \<or> in_generation (cu_inst cur) \<noteq> gen then None
      else case next_timer d cur of
          None \<Rightarrow> None
        | Some (t, due) \<Rightarrow>
            if tm_name t \<noteq> tm_name fire \<or> now < due then None
            else Some \<lparr>mv_from = in_state (cu_inst cur), mv_to = tm_to fire\<rparr>)"

definition timer_step :: "machine \<Rightarrow> (timer \<times> string \<times> int) option \<Rightarrow> instant \<Rightarrow> session \<Rightarrow> (session_error, session) outcome" where
  "timer_step d fire now s =
     run_step d (case fire of None \<Rightarrow> None | Some (t, state, gen) \<Rightarrow> timer_decider d t state gen now s) (norm_time now) 0 s"

definition remind :: "machine \<Rightarrow> reminder \<Rightarrow> reminder_record \<Rightarrow> instant \<Rightarrow> session \<Rightarrow> reminder_record option" where
  "remind d r listed now s =
     (if \<not> se_open s then None
      else
        let cur = current_session d s in
        case record_of r cur of
          None \<Rightarrow> None
        | Some rec0 \<Rightarrow>
            let rec = norm_reminder rec0 in
            if rr_since rec \<noteq> rr_since (norm_reminder listed) \<or> rr_last rec \<noteq> rr_last (norm_reminder listed) then None
            else case next_slot r cur of
                None \<Rightarrow> None
              | Some slot \<Rightarrow>
                  if now < slot then None
                  else Some \<lparr>rr_since = rr_since rec, rr_last = now, rr_count = wrap64 (rr_count rec + 1)\<rparr>)"

definition apply_reminder :: "string \<Rightarrow> reminder_record \<Rightarrow> session \<Rightarrow> session" where
  "apply_reminder name rec s =
     s\<lparr>se_inst := (se_inst s)\<lparr>in_reminders :=
       Some (dict_set name (norm_reminder rec) (case in_reminders (se_inst s) of None \<Rightarrow> [] | Some rs \<Rightarrow> rs))\<rparr>\<rparr>"

text \<open>The schedule of a reminder step keeps the records, pruned.\<close>

definition reminder_due :: "machine \<Rightarrow> session \<Rightarrow> schedule" where
  "reminder_due d s =
     (let pruned = prune_reminders d (case in_reminders (se_inst s) of None \<Rightarrow> [] | Some rs \<Rightarrow> rs);
          s' = s\<lparr>se_inst := (se_inst s)\<lparr>in_reminders := Some pruned\<rparr>\<rparr>
      in \<lparr>sc_due = next_due d (current_session d s'), sc_restarts = None, sc_reminders = Some pruned\<rparr>)"

definition reminder_step ::
  "machine \<Rightarrow> reminder \<Rightarrow> reminder_record \<Rightarrow> instant \<Rightarrow> session \<Rightarrow> (session_error, session \<times> bool) outcome" where
  "reminder_step d r listed now s =
     (case remind d r listed now s of
        None \<Rightarrow> bind_out (apply_schedule (reminder_due d s) s) (\<lambda>s'. Ok (s', False))
      | Some rec \<Rightarrow>
          if \<not> check_reminder (rm_name r) rec then Fail InvalidMessage
          else
            let s1 = apply_reminder (rm_name r) rec s
            in bind_out (apply_schedule (reminder_due d s1) s1) (\<lambda>s'. Ok (s', True)))"

definition close_session :: "session \<Rightarrow> session" where
  "close_session s = s\<lparr>se_open := False\<rparr>"

definition reopen_session :: "machine \<Rightarrow> instant \<Rightarrow> session \<Rightarrow> (session_error, session) outcome" where
  "reopen_session d at s = apply_schedule (resume d (current_session d s) at) (s\<lparr>se_open := True\<rparr>)"

section \<open>What a session keeps\<close>

definition good_machine :: "machine \<Rightarrow> bool" where
  "good_machine d \<longleftrightarrow>
     (\<forall>st\<in>set (df_states d). length (st_timers st) \<le> max_session_restarts \<and>
        (\<forall>t\<in>set (st_timers st). valid_state_name (tm_name t))) \<and>
     length (df_reminders d) \<le> max_session_reminders \<and>
     (\<forall>r\<in>set (df_reminders d). valid_state_name (rm_name r))"

definition stored_records :: "session \<Rightarrow> reminder_record dict" where
  "stored_records s = (case in_reminders (se_inst s) of None \<Rightarrow> [] | Some rs \<Rightarrow> rs)"

definition norm_records :: "reminder_record dict \<Rightarrow> bool" where
  "norm_records rs \<longleftrightarrow> (\<forall>r\<in>snd ` set rs. norm_reminder r = r \<and> 0 \<le> rr_count r)"

lemma norm_records_Nil [simp]: "norm_records []"
  by (simp add: norm_records_def)

text \<open>Normalized times, distinct names, and records and anchors the store would accept again.\<close>

definition kept :: "session \<Rightarrow> bool" where
  "kept s \<longleftrightarrow> norm_time (se_created s) = se_created s \<and> norm_time (in_entered (se_inst s)) = in_entered (se_inst s) \<and>
     dict_ok (in_restarts (se_inst s)) \<and> (\<forall>at\<in>snd ` set (in_restarts (se_inst s)). norm_time at = at) \<and>
     dict_ok (stored_records s) \<and> norm_records (stored_records s)"

lemma active_record: "active r (in_state (cu_inst cur)) \<Longrightarrow> \<exists>rec. record_of r cur = Some rec"
  by (auto simp: record_of_def split: option.split)

lemma state_of_in: "state_of d n = Some st \<Longrightarrow> st \<in> set (df_states d) \<and> st_name st = n"
  by (auto simp: state_of_def find_Some_iff)

lemma reminder_declared: "r \<in> set (df_reminders d) \<Longrightarrow> reminder_of d (rm_name r) \<noteq> None"
  by (auto simp: reminder_of_def find_None_iff)

lemma live_in: "live d cur = Some st \<Longrightarrow> st \<in> set (df_states d)"
  by (auto simp: live_def dest: state_of_in split: option.splits if_splits)

text \<open>Dictionaries built by a fold that sets one name per element.\<close>

lemma fold_dict:
  assumes "\<And>x m. x \<in> set xs \<Longrightarrow> f x m = m \<or> (\<exists>v. Q v \<and> f x m = dict_set (name x) v m)"
    and "dict_ok m" and "\<forall>v\<in>snd ` set m. Q v"
  shows "dict_ok (fold f xs m) \<and> dict_keys (fold f xs m) \<subseteq> dict_keys m \<union> name ` set xs \<and>
    (\<forall>v\<in>snd ` set (fold f xs m). Q v)"
  using assms
proof (induction xs arbitrary: m)
  case (Cons x xs)
  have ok: "dict_ok (f x m)" and k: "dict_keys (f x m) \<subseteq> insert (name x) (dict_keys m)"
    and q: "\<forall>v\<in>snd ` set (f x m). Q v"
    using Cons.prems(1) [of x m] Cons.prems(2,3) by (auto simp: dict_simps dict_set_set)
  have "dict_ok (fold f xs (f x m)) \<and> dict_keys (fold f xs (f x m)) \<subseteq> dict_keys (f x m) \<union> name ` set xs \<and>
      (\<forall>v\<in>snd ` set (fold f xs (f x m)). Q v)"
    by (rule Cons.IH [OF _ ok q]) (use Cons.prems(1) in simp)
  then show ?case using k by auto
qed simp

lemma dict_length_keys: "dict_ok m \<Longrightarrow> dict_keys m \<subseteq> name ` set xs \<Longrightarrow> length m \<le> length xs"
proof -
  assume "dict_ok m" "dict_keys m \<subseteq> name ` set xs"
  then have "length m = card (dict_keys m)"
    using distinct_card [of "map fst m"] by (simp add: dict_ok_def dict_keys_def)
  also have "\<dots> \<le> card (name ` set xs)" using \<open>dict_keys m \<subseteq> _\<close> by (intro card_mono) auto
  also have "\<dots> \<le> length xs" by (meson card_image_le card_length finite_set le_trans)
  finally show ?thesis .
qed

lemma check_records_fold:
  assumes "dict_ok rs" and "dict_keys rs \<subseteq> rm_name ` set (df_reminders d)" and "norm_records rs" and "good_machine d"
  shows "check_reminders rs"
  using assms dict_length_keys [OF assms(1,2)]
  by (fastforce simp: check_reminders_def check_reminder_def list_all_iff good_machine_def norm_records_def dict_keys_def)

lemma check_restarts_fold:
  assumes "dict_ok rs" and "dict_keys rs \<subseteq> tm_name ` set (st_timers st)" and "st \<in> set (df_states d)" and "good_machine d"
  shows "check_restarts rs"
  using assms dict_length_keys [OF assms(1,2)]
  by (fastforce simp: check_restarts_def list_all_iff good_machine_def dict_keys_def)

lemma map_dict_id: "\<forall>v\<in>snd ` set m. f v = v \<Longrightarrow> map_dict f m = m"
  by (induction m) (auto simp: map_dict_def)

section \<open>Due times depend on few fields\<close>

definition agree :: "machine \<Rightarrow> current \<Rightarrow> current \<Rightarrow> bool" where
  "agree d a b \<longleftrightarrow> in_state (cu_inst a) = in_state (cu_inst b) \<and> in_entered (cu_inst a) = in_entered (cu_inst b) \<and>
     in_restarts (cu_inst a) = in_restarts (cu_inst b) \<and> cu_created a = cu_created b \<and> cu_stranded a = cu_stranded b \<and>
     (\<forall>r\<in>set (df_reminders d). dict_get (records a) (rm_name r) = dict_get (records b) (rm_name r))"

lemma agree_record: "agree d a b \<Longrightarrow> r \<in> set (df_reminders d) \<Longrightarrow> record_of r a = record_of r b"
  by (auto simp: agree_def record_of_def split: option.split)

lemma agree_slot: "agree d a b \<Longrightarrow> r \<in> set (df_reminders d) \<Longrightarrow> next_slot r a = next_slot r b"
  using agree_record [of d a b r] by (simp add: agree_def next_slot_def)

lemma agree_timer: "agree d a b \<Longrightarrow> timer_due t a = timer_due t b"
  by (simp add: agree_def timer_due_def)

lemma agree_due:
  assumes "agree d a b"
  shows "next_due d a = next_due d b"
proof -
  have l: "live d a = live d b" using assms by (simp add: live_def agree_def)
  have t: "next_timer d a = next_timer d b" unfolding next_timer_def l agree_timer [OF assms] ..
  have i: "reminders_in d (in_state (cu_inst a)) = reminders_in d (in_state (cu_inst b))" using assms by (simp add: agree_def)
  have f: "fold (\<lambda>r best. if paused d (rm_name r) then best else earlier best (map_option (Pair r) (next_slot r a))) rs b0
      = fold (\<lambda>r best. if paused d (rm_name r) then best else earlier best (map_option (Pair r) (next_slot r b))) rs b0"
    if "set rs \<subseteq> set (df_reminders d)" for rs b0
    using that by (induction rs arbitrary: b0) (auto simp: agree_slot [OF assms])
  have "set (reminders_in d n) \<subseteq> set (df_reminders d)" for n by (auto simp: reminders_in_def)
  from f [OF this] have "next_reminder d a = next_reminder d b"
    by (cases "live d b") (simp_all add: next_reminder_def l i)
  then show ?thesis by (simp add: next_due_def t)
qed

lemma due_norm [simp]: "norm_time (next_due d cur) = next_due d cur"
  by (simp add: next_due_def Let_def split: option.split)

lemma prune_get: "reminder_of d n \<noteq> None \<Longrightarrow> dict_get (prune_reminders d rs) n = dict_get rs n"
  by (induction rs) (auto simp: prune_reminders_def)

lemma prune_ok:
  "dict_ok rs \<Longrightarrow> dict_ok (prune_reminders d rs)" "set (prune_reminders d rs) \<subseteq> set rs"
  "dict_keys (prune_reminders d rs) \<subseteq> rm_name ` set (df_reminders d)"
  by (auto simp: prune_reminders_def dict_ok_def distinct_map_filter dict_keys_def reminder_of_def find_Some_iff)

section \<open>Schedules are accepted and exact\<close>

text \<open>A schedule the store accepts, and the session it stores.\<close>

definition fits :: "schedule \<Rightarrow> bool" where
  "fits sch \<longleftrightarrow>
     (\<forall>rs. sc_reminders sch = Some rs \<longrightarrow> dict_ok rs \<and> norm_records rs \<and> check_reminders rs) \<and>
     (\<forall>rs. sc_restarts sch = Some rs \<longrightarrow> dict_ok rs \<and> (\<forall>at\<in>snd ` set rs. norm_time at = at) \<and> check_restarts rs)"

lemma apply_fits:
  assumes "fits sch" and "kept s"
  obtains s' where "apply_schedule sch s = Ok s'" and "kept s'" and "in_due (se_inst s') = norm_time (sc_due sch)"
    and "in_restarts (se_inst s') = (case sc_restarts sch of None \<Rightarrow> in_restarts (se_inst s) | Some rs \<Rightarrow> rs)"
    and "stored_records s' = (case sc_reminders sch of None \<Rightarrow> stored_records s | Some rs \<Rightarrow> rs)"
    and "in_state (se_inst s') = in_state (se_inst s)" and "in_generation (se_inst s') = in_generation (se_inst s)"
    and "in_entered (se_inst s') = in_entered (se_inst s)" and "se_created s' = se_created s" and "se_open s' = se_open s"
proof -
  have m: "map_dict norm_reminder rs = rs" if "sc_reminders sch = Some rs" for rs
    using assms(1) that by (intro map_dict_id) (auto simp: fits_def norm_records_def)
  have r: "map_dict norm_time rs = rs" if "sc_restarts sch = Some rs" for rs
    using assms(1) that by (intro map_dict_id) (auto simp: fits_def)
  let ?i = "(se_inst s)\<lparr>
        in_restarts := (case sc_restarts sch of None \<Rightarrow> in_restarts (se_inst s) | Some rs \<Rightarrow> rs),
        in_reminders := (case sc_reminders sch of None \<Rightarrow> in_reminders (se_inst s) | Some rs \<Rightarrow> clone_reminders rs),
        in_due := norm_time (sc_due sch)\<rparr>"
  have ok: "apply_schedule sch s = Ok (s\<lparr>se_inst := ?i\<rparr>)"
    using assms(1) m r by (auto simp: fits_def apply_schedule_def split: option.split)
  have rec: "stored_records (s\<lparr>se_inst := ?i\<rparr>) = (case sc_reminders sch of None \<Rightarrow> stored_records s | Some rs \<Rightarrow> rs)"
    by (auto simp: stored_records_def clone_reminders_def split: option.split)
  have "kept (s\<lparr>se_inst := ?i\<rparr>)"
    using assms unfolding kept_def rec by (auto simp: fits_def split: option.split)
  from that [OF ok this _ _ rec] show thesis by simp
qed

lemma current_fields:
  "cu_created (current_session d s) = se_created s"
  "in_restarts (cu_inst (current_session d s)) = in_restarts (se_inst s)"
  "records (current_session d s) = stored_records s"
  "in_generation (cu_inst (current_session d s)) = in_generation (se_inst s)"
  by (auto simp: current_session_def read_instance_def records_def stored_records_def unset_instance_def instance_is_zero_def)

lemma current_entered: "kept s \<Longrightarrow> norm_time (in_entered (cu_inst (current_session d s))) = in_entered (cu_inst (current_session d s))"
  by (auto simp: kept_def current_session_def read_instance_def)

lemma current_same:
  assumes "in_state (se_inst s) = in_state (se_inst t)" and "in_generation (se_inst s) = in_generation (se_inst t)"
    and "in_entered (se_inst s) = in_entered (se_inst t)" and "se_created s = se_created t"
  shows "in_state (cu_inst (current_session d s)) = in_state (cu_inst (current_session d t))"
    and "in_entered (cu_inst (current_session d s)) = in_entered (cu_inst (current_session d t))"
    and "cu_stranded (current_session d s) = cu_stranded (current_session d t)"
  using assms by (auto simp: current_session_def read_instance_def instance_is_zero_def)

lemma record_of_norm:
  "kept s \<Longrightarrow> record_of r (current_session d s) = Some rec \<Longrightarrow> norm_reminder rec = rec \<and> 0 \<le> rr_count rec"
  using current_entered [of s d]
  by (auto simp: record_of_def current_fields kept_def norm_records_def norm_reminder_def
      split: option.splits if_splits dest!: map_of_SomeD)

lemma carried_reminders_ok:
  assumes "kept s" and "good_machine d"
  shows "dict_ok (carried_reminders d (current_session d' s) to)" "norm_records (carried_reminders d (current_session d' s) to)"
    "check_reminders (carried_reminders d (current_session d' s) to)"
proof -
  let ?c = "carried_reminders d (current_session d' s) to"
  have c: "dict_ok ?c \<and> dict_keys ?c \<subseteq> dict_keys ([] :: reminder_record dict) \<union> rm_name ` set (df_reminders d) \<and>
      (\<forall>v\<in>snd ` set ?c. norm_reminder v = v \<and> 0 \<le> rr_count v)"
    unfolding carried_reminders_def
    by (rule fold_dict) (use record_of_norm [OF assms(1)] in \<open>auto split: option.split\<close>)
  then show "dict_ok ?c" "norm_records ?c" by (auto simp: norm_records_def)
  then show "check_reminders ?c" using c assms(2) by (intro check_records_fold) (auto simp: dict_simps)
qed

lemma carried_restarts_ok:
  assumes "kept s" and "good_machine d" and "carried_restarts d (current_session d' s) to = Some rs"
  shows "dict_ok rs" "\<forall>at\<in>snd ` set rs. norm_time at = at" "check_restarts rs"
proof -
  let ?old = "in_restarts (se_inst s)"
  obtain left target where t: "state_of d (in_state (cu_inst (current_session d' s))) = Some left" "state_of d to = Some target"
    using assms(3) by (auto simp: carried_restarts_def split: option.splits)
  define scoped where "scoped = fold (\<lambda>t m. dict_set (tm_name t) (tm_since t = since_session) m) (st_timers left) []"
  have rs: "rs = fold (\<lambda>t out. case dict_get ?old (tm_name t) of
                    None \<Rightarrow> out
                  | Some r \<Rightarrow> if tm_since t = since_session \<and> dict_get scoped (tm_name t) = Some True
                      then dict_set (tm_name t) r out else out) (st_timers target) []"
    using assms(3) unfolding scoped_def carried_restarts_def Let_def current_fields t by (simp split: if_splits)
  have "dict_ok rs \<and> dict_keys rs \<subseteq> dict_keys ([] :: instant dict) \<union> tm_name ` set (st_timers target) \<and>
      (\<forall>v\<in>snd ` set rs. norm_time v = v)"
    unfolding rs
    by (rule fold_dict) (use assms(1) in \<open>auto simp: kept_def split: option.split dest!: map_of_SomeD\<close>)
  then show "dict_ok rs" "\<forall>at\<in>snd ` set rs. norm_time at = at" "check_restarts rs"
    using check_restarts_fold [of rs target d] state_of_in [OF t(2)] assms(2) by (auto simp: dict_simps)
qed

lemma resume_restarts_ok:
  assumes "kept s" and "good_machine d" and "st \<in> set (df_states d)" and "norm_time at = at"
  shows "dict_ok (resume_restarts st (current_session d' s) at)"
    "\<forall>v\<in>snd ` set (resume_restarts st (current_session d' s) at). norm_time v = v"
    "check_restarts (resume_restarts st (current_session d' s) at)"
proof -
  let ?c = "current_session d' s"
  let ?f = "\<lambda>t out. let out1 = (case dict_get (in_restarts (cu_inst ?c)) (tm_name t) of
               None \<Rightarrow> out | Some r \<Rightarrow> dict_set (tm_name t) r out)
         in if at < timer_due t ?c then out1 else dict_set (tm_name t) at out1"
  have "dict_ok (fold ?f (st_timers st) []) \<and>
      dict_keys (fold ?f (st_timers st) []) \<subseteq> dict_keys ([] :: instant dict) \<union> tm_name ` set (st_timers st) \<and>
      (\<forall>v\<in>snd ` set (fold ?f (st_timers st) []). norm_time v = v)"
  proof (rule fold_dict)
    fix t and m :: "instant dict"
    show "?f t m = m \<or> (\<exists>v. norm_time v = v \<and> ?f t m = dict_set (tm_name t) v m)"
    proof (cases "dict_get (in_restarts (se_inst s)) (tm_name t)")
      case None
      then show ?thesis using assms(4) by (auto simp: current_fields)
    next
      case (Some r)
      then have "norm_time r = r" using assms(1) by (force simp: kept_def dest: map_of_SomeD)
      then show ?thesis using Some assms(4) by (auto simp: current_fields Let_def)
    qed
  qed simp_all
  then show "dict_ok (resume_restarts st ?c at)" "\<forall>v\<in>snd ` set (resume_restarts st ?c at). norm_time v = v"
    "check_restarts (resume_restarts st ?c at)"
    using check_restarts_fold [of "resume_restarts st ?c at" st d] assms(2,3)
    by (auto simp: resume_restarts_def dict_simps)
qed

lemma resume_reminders_ok:
  assumes "kept s" and "good_machine d" and "norm_time at = at"
  shows "dict_ok (resume_reminders d (current_session d s) at)" "norm_records (resume_reminders d (current_session d s) at)"
    "check_reminders (resume_reminders d (current_session d s) at)"
proof -
  let ?c = "current_session d s" and ?p = "prune_reminders d (stored_records s)"
  let ?f = "\<lambda>r out. case next_slot r ?c of None \<Rightarrow> out
         | Some slot \<Rightarrow> if at < slot then out
             else dict_set (rm_name r) \<lparr>rr_since = at, rr_last = 0,
               rr_count = (case record_of r ?c of None \<Rightarrow> 0 | Some rec \<Rightarrow> rr_count rec)\<rparr> out"
  let ?rs = "reminders_in d (in_state (cu_inst ?c))"
  have d: "dict_ok (fold ?f ?rs ?p) \<and> dict_keys (fold ?f ?rs ?p) \<subseteq> dict_keys ?p \<union> rm_name ` set ?rs \<and>
      (\<forall>v\<in>snd ` set (fold ?f ?rs ?p). norm_reminder v = v \<and> 0 \<le> rr_count v)"
  proof (rule fold_dict)
    fix r m
    show "?f r m = m \<or> (\<exists>v. (norm_reminder v = v \<and> 0 \<le> rr_count v) \<and> ?f r m = dict_set (rm_name r) v m)"
    proof (cases "next_slot r ?c")
      case (Some slot)
      let ?v = "\<lparr>rr_since = at, rr_last = 0, rr_count = (case record_of r ?c of None \<Rightarrow> 0 | Some rec \<Rightarrow> rr_count rec)\<rparr>"
      have "norm_reminder ?v = ?v \<and> 0 \<le> rr_count ?v"
        using record_of_norm [OF assms(1), of r d] assms(3) by (simp add: norm_reminder_def split: option.split)
      then show ?thesis using Some by auto
    qed simp
  next
    show "dict_ok ?p" using assms(1) prune_ok(1) by (simp add: kept_def)
    show "\<forall>v\<in>snd ` set ?p. norm_reminder v = v \<and> 0 \<le> rr_count v"
      using assms(1) prune_ok(2) [of d "stored_records s"] by (auto simp: kept_def norm_records_def)
  qed
  moreover have "dict_keys ?p \<union> rm_name ` set ?rs \<subseteq> rm_name ` set (df_reminders d)"
    using prune_ok(3) by (auto simp: reminders_in_def)
  ultimately have k: "dict_keys (fold ?f ?rs ?p) \<subseteq> rm_name ` set (df_reminders d)" by blast
  have e: "resume_reminders d ?c at = fold ?f ?rs ?p" by (simp add: resume_reminders_def current_fields)
  have n: "norm_records (fold ?f ?rs ?p)" using d unfolding norm_records_def by blast
  show "dict_ok (resume_reminders d ?c at)" "norm_records (resume_reminders d ?c at)"
    "check_reminders (resume_reminders d ?c at)"
    unfolding e using d n check_records_fold [OF _ k n assms(2)] by blast+
qed

text \<open>A step, a resume and a reminder all leave the due time exact, whatever it was before.\<close>

definition due_exact :: "machine \<Rightarrow> session \<Rightarrow> bool" where
  "due_exact d s \<longleftrightarrow> in_due (se_inst s) = next_due d (current_session d s)"

lemma wrap64_Suc: "wrap64 (g + 1) \<noteq> g"
proof
  assume "wrap64 (g + 1) = g"
  then have "(g + 1 + 2 ^ 63) mod 2 ^ 64 = (g + 2 ^ 63)" by (simp add: wrap64_def)
  then have "(g + 1 + 2 ^ 63) mod 2 ^ 64 = (g + 2 ^ 63) mod 2 ^ 64" by (metis mod_mod_trivial)
  then have "(2 :: int) ^ 64 dvd (g + 1 + 2 ^ 63) - (g + 2 ^ 63)" by (rule mod_eq_dvd_iff [THEN iffD1])
  then show False by simp
qed

lemma prune_fits:
  assumes "dict_ok rs" and "norm_records rs" and "good_machine d"
  shows "dict_ok (prune_reminders d rs)" "norm_records (prune_reminders d rs)" "check_reminders (prune_reminders d rs)"
proof -
  show "dict_ok (prune_reminders d rs)" by (rule prune_ok(1) [OF assms(1)])
  moreover show "norm_records (prune_reminders d rs)"
    using prune_ok(2) [of d rs] assms(2) by (auto simp: norm_records_def)
  ultimately show "check_reminders (prune_reminders d rs)" by (rule check_records_fold [OF _ prune_ok(3) _ assms(3)])
qed

lemma plain_step_ok:
  assumes "kept s" and "good_machine d"
  shows "\<exists>s'. run_step d None at cause s = Ok s' \<and> kept s' \<and> due_exact d s' \<and> se_open s' = se_open s \<and>
    in_state (se_inst s') = in_state (se_inst s) \<and> in_generation (se_inst s') = in_generation (se_inst s)"
proof -
  let ?c = "current_session d s"
  let ?sch = "step_schedule d ?c ?c"
  have sch: "sc_due ?sch = next_due d ?c" "sc_restarts ?sch = None"
    "sc_reminders ?sch = map_option (prune_reminders d) (in_reminders (se_inst s))"
    by (simp_all add: step_schedule_def) (simp add: current_session_def read_instance_def)
  have "fits ?sch"
    using assms prune_fits [of "stored_records s" d] by (auto simp: fits_def sch kept_def stored_records_def)
  from this assms(1) obtain s' where s': "apply_schedule ?sch s = Ok s'" "kept s'" "in_due (se_inst s') = norm_time (sc_due ?sch)"
    "in_restarts (se_inst s') = (case sc_restarts ?sch of None \<Rightarrow> in_restarts (se_inst s) | Some rs \<Rightarrow> rs)"
    "stored_records s' = (case sc_reminders ?sch of None \<Rightarrow> stored_records s | Some rs \<Rightarrow> rs)"
    "in_state (se_inst s') = in_state (se_inst s)" "in_generation (se_inst s') = in_generation (se_inst s)"
    "in_entered (se_inst s') = in_entered (se_inst s)" "se_created s' = se_created s" "se_open s' = se_open s"
    by (rule apply_fits)
  have "dict_get (stored_records s') (rm_name r) = dict_get (stored_records s) (rm_name r)" if "r \<in> set (df_reminders d)" for r
    using s'(5) prune_get [OF reminder_declared [OF that]]
    by (cases "in_reminders (se_inst s)") (simp_all add: sch stored_records_def)
  then have "agree d (current_session d s') ?c"
    using s'(4) sch(2) current_same [OF s'(6,7,8,9), of d] s'(9) by (simp add: agree_def current_fields)
  then show ?thesis using s' sch(1) agree_due by (auto simp: run_step_def due_exact_def)
qed

lemma agree_after:
  assumes "in_state (se_inst s') = in_state (se_inst s)" and "in_generation (se_inst s') = in_generation (se_inst s)"
    and "in_entered (se_inst s') = in_entered (se_inst s)" and "se_created s' = se_created s"
    and "in_restarts (se_inst s') = rs" and "stored_records s' = rr"
  shows "agree d (current_session d s') ((current_session d s)\<lparr>cu_inst :=
    (cu_inst (current_session d s))\<lparr>in_restarts := rs, in_reminders := Some rr\<rparr>\<rparr>)"
  using current_same [OF assms(1-4), of d] assms(4-6) current_fields [of d s'] current_fields [of d s]
  by (simp add: agree_def) (simp add: records_def)

lemma moved_step_ok:
  assumes "kept s" and "good_machine d" and "check_move mv" and "norm_time at = at"
  shows "\<exists>s'. run_step d (Some mv) at cause s = Ok s' \<and> kept s' \<and> due_exact d s' \<and> se_open s' = se_open s \<and>
    in_state (se_inst s') = mv_to mv \<and> in_generation (se_inst s') = wrap64 (in_generation (se_inst s) + 1) \<and>
    in_entered (se_inst s') = at \<and> se_created s' = se_created s \<and>
    in_restarts (se_inst s') = (case carried_restarts d (current_session d s) (mv_to mv) of None \<Rightarrow> [] | Some rs \<Rightarrow> rs) \<and>
    stored_records s' = carried_reminders d (current_session d s) (mv_to mv)"
proof -
  define S where "S = s\<lparr>se_inst := enter mv at cause (se_inst s)\<rparr>"
  have S: "in_state (se_inst S) = mv_to mv" "in_generation (se_inst S) = wrap64 (in_generation (se_inst s) + 1)"
    "in_entered (se_inst S) = at" "se_created S = se_created s" "se_open S = se_open s" "in_restarts (se_inst S) = []"
    using assms(4) by (simp_all add: S_def enter_def)
  have kept: "kept S" using assms(1,4) by (simp add: S_def kept_def enter_def stored_records_def)
  let ?c = "current_session d s"
  let ?rs = "case carried_restarts d ?c (mv_to mv) of None \<Rightarrow> [] | Some rs \<Rightarrow> rs" and ?rr = "carried_reminders d ?c (mv_to mv)"
  let ?n = "(current_session d S)\<lparr>cu_inst := (cu_inst (current_session d S))\<lparr>in_restarts := ?rs, in_reminders := Some ?rr\<rparr>\<rparr>"
  let ?sch = "step_schedule d ?c (current_session d S)"
  have "mv_to mv \<noteq> []" using assms(3) by (auto simp: check_move_def valid_state_name_def)
  then have n: "in_state (cu_inst (current_session d S)) = mv_to mv"
    using S(1) by (simp add: current_session_def read_instance_def instance_is_zero_def)
  have "in_generation (cu_inst (current_session d S)) \<noteq> in_generation (cu_inst ?c)"
    using wrap64_Suc [of "in_generation (se_inst s)"] by (simp add: current_fields S(2))
  then have sch: "sc_due ?sch = next_due d ?n" "sc_restarts ?sch = carried_restarts d ?c (mv_to mv)" "sc_reminders ?sch = Some ?rr"
    by (simp_all add: step_schedule_def Let_def n)
  have "fits ?sch"
    using carried_reminders_ok [OF assms(1,2)] carried_restarts_ok [OF assms(1,2)] by (simp add: fits_def sch)
  from this kept obtain s' where s': "apply_schedule ?sch S = Ok s'" "kept s'" "in_due (se_inst s') = norm_time (sc_due ?sch)"
    "in_restarts (se_inst s') = (case sc_restarts ?sch of None \<Rightarrow> in_restarts (se_inst S) | Some rs \<Rightarrow> rs)"
    "stored_records s' = (case sc_reminders ?sch of None \<Rightarrow> stored_records S | Some rs \<Rightarrow> rs)"
    "in_state (se_inst s') = in_state (se_inst S)" "in_generation (se_inst s') = in_generation (se_inst S)"
    "in_entered (se_inst s') = in_entered (se_inst S)" "se_created s' = se_created S" "se_open s' = se_open S"
    by (rule apply_fits)
  have rs: "in_restarts (se_inst s') = ?rs" "stored_records s' = ?rr" using s'(4,5) unfolding sch S(6) by simp_all
  have "due_exact d s'"
    using s'(3) agree_due [OF agree_after [OF s'(6-9) rs]] by (simp add: due_exact_def sch(1))
  moreover have "run_step d (Some mv) at cause s = Ok s'" using assms(3) s'(1) by (simp add: run_step_def Let_def S_def)
  ultimately show ?thesis using s'(2,6-10) rs S(1-5) by simp
qed

lemma reopen_ok:
  assumes "kept s" and "good_machine d"
  shows "\<exists>s'. reopen_session d at s = Ok s' \<and> kept s' \<and> due_exact d s' \<and>
    (\<forall>st. live d (current_session d s) = Some st \<longrightarrow>
      in_restarts (se_inst s') = resume_restarts st (current_session d s) (norm_time at) \<and>
      stored_records s' = resume_reminders d (current_session d s) (norm_time at)) \<and>
    in_state (se_inst s') = in_state (se_inst s) \<and> in_generation (se_inst s') = in_generation (se_inst s) \<and>
    in_entered (se_inst s') = in_entered (se_inst s) \<and> se_created s' = se_created s"
proof -
  let ?c = "current_session d s" and ?at = "norm_time at"
  let ?s = "s\<lparr>se_open := True\<rparr>"
  have c: "current_session d ?s = ?c" by (simp add: current_session_def)
  have k: "kept ?s" using assms(1) by (simp add: kept_def stored_records_def)
  show ?thesis
  proof (cases "live d ?c")
    case None
    then have sch: "resume d ?c at = \<lparr>sc_due = 0, sc_restarts = None, sc_reminders = None\<rparr>"
      by (simp add: resume_def Let_def)
    have z: "next_due d cur = 0" if "live d cur = None" for cur
      using that by (simp add: next_due_def next_timer_def next_reminder_def)
    have "fits (resume d ?c at)" by (simp add: fits_def sch)
    from this k obtain s' where s': "apply_schedule (resume d ?c at) ?s = Ok s'" "kept s'"
      "in_due (se_inst s') = norm_time (sc_due (resume d ?c at))"
      "in_restarts (se_inst s') = (case sc_restarts (resume d ?c at) of None \<Rightarrow> in_restarts (se_inst ?s) | Some rs \<Rightarrow> rs)"
      "stored_records s' = (case sc_reminders (resume d ?c at) of None \<Rightarrow> stored_records ?s | Some rs \<Rightarrow> rs)"
      "in_state (se_inst s') = in_state (se_inst ?s)" "in_generation (se_inst s') = in_generation (se_inst ?s)"
      "in_entered (se_inst s') = in_entered (se_inst ?s)" "se_created s' = se_created ?s" "se_open s' = se_open ?s"
      by (rule apply_fits)
    have "in_state (cu_inst (current_session d s')) = in_state (cu_inst ?c)"
      using current_same(1) [OF s'(6-9), of d] unfolding c .
    then have "live d (current_session d s') = None" using None unfolding live_def by presburger
    then show ?thesis using s' None z by (simp add: reopen_session_def due_exact_def sch)
  next
    case (Some st)
    let ?rs = "resume_restarts st ?c ?at" and ?rr = "resume_reminders d ?c ?at"
    let ?n = "?c\<lparr>cu_inst := (cu_inst ?c)\<lparr>in_restarts := ?rs, in_reminders := Some ?rr\<rparr>\<rparr>"
    have sch: "sc_due (resume d ?c at) = next_due d ?n" "sc_restarts (resume d ?c at) = Some ?rs"
      "sc_reminders (resume d ?c at) = Some ?rr"
      using Some by (simp_all add: resume_def Let_def)
    note r = resume_restarts_ok [OF assms live_in [OF Some], of ?at d] and q = resume_reminders_ok [OF assms, of ?at]
    have "fits (resume d ?c at)"
      unfolding fits_def sch option.inject using r [OF norm_norm] q [OF norm_norm] by blast
    from this k obtain s' where s': "apply_schedule (resume d ?c at) ?s = Ok s'" "kept s'"
      "in_due (se_inst s') = norm_time (sc_due (resume d ?c at))"
      "in_restarts (se_inst s') = (case sc_restarts (resume d ?c at) of None \<Rightarrow> in_restarts (se_inst ?s) | Some rs \<Rightarrow> rs)"
      "stored_records s' = (case sc_reminders (resume d ?c at) of None \<Rightarrow> stored_records ?s | Some rs \<Rightarrow> rs)"
      "in_state (se_inst s') = in_state (se_inst ?s)" "in_generation (se_inst s') = in_generation (se_inst ?s)"
      "in_entered (se_inst s') = in_entered (se_inst ?s)" "se_created s' = se_created ?s" "se_open s' = se_open ?s"
      by (rule apply_fits)
    have rs: "in_restarts (se_inst s') = ?rs" "stored_records s' = ?rr" using s'(4,5) by (simp_all add: sch)
    have "agree d (current_session d s') ?n" using agree_after [OF s'(6-9) rs, of d] unfolding c .
    from agree_due [OF this] have "due_exact d s'" unfolding due_exact_def s'(3) sch(1) due_norm by (rule sym)
    then show ?thesis using s' rs Some by (simp add: reopen_session_def)
  qed
qed


lemma reminder_step_ok:
  assumes "kept s" and "good_machine d" and "r \<in> set (df_reminders d)" and "reminder_step d r listed now s = Ok (s', posted)"
  shows "kept s' \<and> due_exact d s' \<and> se_open s' = se_open s \<and>
    in_state (se_inst s') = in_state (se_inst s) \<and> in_generation (se_inst s') = in_generation (se_inst s) \<and>
    in_entered (se_inst s') = in_entered (se_inst s) \<and> se_created s' = se_created s \<and>
    (case remind d r listed now s of None \<Rightarrow> \<not> posted
     | Some rec \<Rightarrow> posted \<and> dict_get (stored_records s') (rm_name r) = Some (norm_reminder rec))"
proof -
  define S where "S = (case remind d r listed now s of None \<Rightarrow> s | Some rec \<Rightarrow> apply_reminder (rm_name r) rec s)"
  have rem: "remind d r listed now s = Some rec \<Longrightarrow> check_reminder (rm_name r) rec" for rec
    using assms(4) by (auto simp: reminder_step_def split: if_splits)
  have run: "apply_schedule (reminder_due d S) S = Ok s'" and posted: "posted = (remind d r listed now s \<noteq> None)"
    using assms(4) rem by (auto simp: reminder_step_def S_def Let_def bind_out_Ok split: option.splits if_splits)
  have S: "in_state (se_inst S) = in_state (se_inst s)" "in_generation (se_inst S) = in_generation (se_inst s)"
    "in_entered (se_inst S) = in_entered (se_inst s)" "se_created S = se_created s" "se_open S = se_open s"
    "in_restarts (se_inst S) = in_restarts (se_inst s)"
    "stored_records S = (case remind d r listed now s of None \<Rightarrow> stored_records s
       | Some rec \<Rightarrow> dict_set (rm_name r) (norm_reminder rec) (stored_records s))"
    by (simp_all add: S_def apply_reminder_def stored_records_def split: option.split)
  have kept: "kept S"
    using assms(1) rem
    by (auto simp: kept_def S norm_records_def norm_reminder_def check_reminder_def dict_set_set split: option.split)
  let ?c = "current_session d S" and ?p = "prune_reminders d (stored_records S)"
  have st: "(case in_reminders (se_inst S) of None \<Rightarrow> [] | Some rs \<Rightarrow> rs) = stored_records S" by (simp add: stored_records_def)
  let ?T = "S\<lparr>se_inst := (se_inst S)\<lparr>in_reminders := Some ?p\<rparr>\<rparr>"
  have sch: "sc_due (reminder_due d S) = next_due d (current_session d ?T)" "sc_restarts (reminder_due d S) = None"
    "sc_reminders (reminder_due d S) = Some ?p"
    by (simp_all add: reminder_due_def Let_def st)
  have "fits (reminder_due d S)"
    using kept prune_fits [of "stored_records S" d] assms(2) by (simp add: fits_def sch kept_def)
  from this kept obtain t where t: "apply_schedule (reminder_due d S) S = Ok t" "kept t"
    "in_due (se_inst t) = norm_time (sc_due (reminder_due d S))"
    "in_restarts (se_inst t) = (case sc_restarts (reminder_due d S) of None \<Rightarrow> in_restarts (se_inst S) | Some rs \<Rightarrow> rs)"
    "stored_records t = (case sc_reminders (reminder_due d S) of None \<Rightarrow> stored_records S | Some rs \<Rightarrow> rs)"
    "in_state (se_inst t) = in_state (se_inst S)" "in_generation (se_inst t) = in_generation (se_inst S)"
    "in_entered (se_inst t) = in_entered (se_inst S)" "se_created t = se_created S" "se_open t = se_open S"
    by (rule apply_fits)
  have [simp]: "s' = t" using run t(1) by simp
  have T: "in_state (se_inst t) = in_state (se_inst ?T)" "in_generation (se_inst t) = in_generation (se_inst ?T)"
    "in_entered (se_inst t) = in_entered (se_inst ?T)" "se_created t = se_created ?T"
    using t(6-9) by simp_all
  have rs: "in_restarts (se_inst t) = in_restarts (se_inst ?T)" "stored_records t = stored_records ?T"
    using t(4,5) unfolding sch by (simp_all add: stored_records_def)
  have "agree d (current_session d t) (current_session d ?T)"
    unfolding agree_def current_fields using current_same [OF T, of d] rs T(4) by simp
  from agree_due [OF this] have "due_exact d t" unfolding due_exact_def t(3) sch(1) due_norm by (rule sym)
  moreover have "dict_get (stored_records t) (rm_name r) = dict_get (stored_records S) (rm_name r)"
    using t(5) prune_get [OF reminder_declared [OF assms(3)]] by (simp add: sch)
  ultimately show ?thesis
    using t(2,6-10) S posted by (auto simp: dict_simps split: option.split)
qed

section \<open>Runs\<close>

inductive session_run :: "machine \<Rightarrow> session \<Rightarrow> bool" where
  created: "good_machine d \<Longrightarrow> new_session d at = Ok s \<Longrightarrow> session_run d s"
| stepped: "session_run d s \<Longrightarrow> run_step d mv (norm_time at) cause s = Ok s' \<Longrightarrow> session_run d s'"
| reminded: "session_run d s \<Longrightarrow> r \<in> set (df_reminders d) \<Longrightarrow> reminder_step d r listed now s = Ok (s', posted) \<Longrightarrow>
    session_run d s'"
| closed: "session_run d s \<Longrightarrow> session_run d (close_session s)"
| reopened: "session_run d s \<Longrightarrow> reopen_session d at s = Ok s' \<Longrightarrow> session_run d s'"
| reloaded: "session_run d s \<Longrightarrow> good_machine d' \<Longrightarrow> timer_step d' None now s = Ok s' \<Longrightarrow> session_run d' s'"

lemma run_step_Ok:
  assumes "kept s" and "good_machine d" and "norm_time at = at" and "run_step d mv at cause s = Ok s'"
  shows "kept s' \<and> due_exact d s'"
proof (cases mv)
  case None
  then show ?thesis using plain_step_ok [OF assms(1,2), of at cause] assms(4) by auto
next
  case (Some m)
  then have "check_move m" using assms(4) by (auto simp: run_step_def split: if_splits)
  from moved_step_ok [OF assms(1,2) this assms(3), of cause] assms(4) Some show ?thesis by auto
qed

lemma run_invariant: "session_run d s \<Longrightarrow> good_machine d \<and> kept s \<and> due_exact d s"
proof (induction rule: session_run.induct)
  case (created d at s)
  let ?s = "\<lparr>se_inst = unset_instance, se_created = norm_time at, se_open = True\<rparr>"
  have "s = ?s\<lparr>se_inst := unset_instance\<lparr>in_due := next_due d (current_session d ?s)\<rparr>\<rparr>"
    using created by (simp add: new_session_def apply_schedule_def Let_def unset_instance_def)
  then show ?case
    using created(1)
    by (simp add: kept_def stored_records_def unset_instance_def due_exact_def current_session_def read_instance_def
        instance_is_zero_def)
next
  case (stepped d s mv at cause s')
  then show ?case using run_step_Ok [of s d "norm_time at" mv cause s'] by simp
next
  case (reminded d s r listed now s' posted)
  then show ?case using reminder_step_ok by blast
next
  case (closed d s)
  then show ?case by (simp add: kept_def stored_records_def due_exact_def current_session_def close_session_def)
next
  case (reopened d s at s')
  then show ?case using reopen_ok [of s d at] by auto
next
  case (reloaded d s d' now s')
  then show ?case using run_step_Ok [of s d' "norm_time now" None 0 s'] by (simp add: timer_step_def)
qed

text \<open>
  C22: The stored due time is always the derived one. After any sequence of posts, timer fires,
  reminder posts, closes, reopens and configuration reloads (each followed by the leader's
  recompute), the \<open>NextDueAt\<close> a store lists sessions by equals what the engine derives from the
  current definition and the stored instance, so the leader never misses a due session.
\<close>
theorem due_hint_exact:
  assumes "session_run d s"
  shows "in_due (se_inst s) = next_due d (read_instance d (se_inst s) (se_created s))"
  using run_invariant [OF assms] by (simp add: due_exact_def current_session_def)

text \<open>
  C25: No schedule is ever refused. On any session a run reaches, under its own or a newly loaded
  definition within the loader's limits, a recompute, a reopen and every move between valid state
  names are accepted by \<open>ApplySchedule\<close>: the restart anchors and reminder records the engine keeps
  never exceed the store's caps, whatever the definitions before were.
\<close>
theorem schedules_accepted:
  assumes "session_run d s" and "good_machine d'"
  shows "(\<exists>s'. timer_step d' None now s = Ok s') \<and> (\<exists>s'. reopen_session d' at s = Ok s') \<and>
    (\<forall>mv. check_move mv \<longrightarrow> (\<exists>s'. run_step d' (Some mv) (norm_time at) cause s = Ok s'))"
proof -
  have k: "kept s" using run_invariant [OF assms(1)] by simp
  from plain_step_ok [OF k assms(2)] reopen_ok [OF k assms(2)] moved_step_ok [OF k assms(2) _ norm_norm]
  show ?thesis by (fastforce simp: timer_step_def)
qed

text \<open>
  C23: A timer fires once per generation and never early. When a leader's timer step moves a
  session, the session was open, in the listed state and generation, and the timer that comes due
  first has the listed name and was due; the session enters the timer's target with the next
  generation; and the same listed step, tried again later by this or another leader, moves nothing.
\<close>
theorem timer_fires_once:
  assumes "session_run d s" and "timer_step d (Some (t, st, gen)) now s = Ok s'"
    and "in_generation (se_inst s') \<noteq> in_generation (se_inst s)"
  shows "se_open s \<and> in_state (cu_inst (current_session d s)) = st \<and> in_generation (se_inst s) = gen \<and>
    (\<exists>t' due. next_timer d (current_session d s) = Some (t', due) \<and> tm_name t' = tm_name t \<and> due \<le> now) \<and>
    in_state (se_inst s') = tm_to t \<and> in_generation (se_inst s') = wrap64 (gen + 1) \<and>
    (\<forall>later s''. timer_step d (Some (t, st, gen)) later s' = Ok s'' \<longrightarrow> in_generation (se_inst s'') = in_generation (se_inst s'))"
proof -
  have k: "good_machine d" "kept s" using run_invariant [OF assms(1)] by simp_all
  let ?mv = "timer_decider d t st gen now s"
  have run: "run_step d ?mv (norm_time now) 0 s = Ok s'" using assms(2) by (simp add: timer_step_def)
  obtain mv where mv: "?mv = Some mv"
    using plain_step_ok [OF k(2,1), of "norm_time now" 0] run assms(3) by (cases ?mv) auto
  then have "check_move mv" using run by (auto simp: run_step_def split: if_splits)
  from moved_step_ok [OF k(2,1) this norm_norm [of now], of 0] run mv have
    s': "kept s'" "in_state (se_inst s') = mv_to mv" "in_generation (se_inst s') = wrap64 (in_generation (se_inst s) + 1)"
    by auto
  have d: "se_open s" "in_state (cu_inst (current_session d s)) = st" "in_generation (se_inst s) = gen" "mv_to mv = tm_to t"
    "\<exists>t' due. next_timer d (current_session d s) = Some (t', due) \<and> tm_name t' = tm_name t \<and> due \<le> now"
    using mv by (auto simp: timer_decider_def Let_def current_fields not_less split: option.splits if_splits)
  have "timer_decider d t st gen later s' = None" for later
    using s'(3) d(3) wrap64_Suc [of gen] by (simp add: timer_decider_def Let_def current_fields)
  then have "in_generation (se_inst s'') = in_generation (se_inst s')"
    if "timer_step d (Some (t, st, gen)) later s' = Ok s''" for later s''
    using that plain_step_ok [OF s'(1) k(1), of "norm_time later" 0] by (auto simp: timer_step_def)
  with d s' show ?thesis by auto
qed

section \<open>Reminders post once per slot\<close>



section \<open>A resume leaves nothing overdue\<close>

definition distinct_names :: "machine \<Rightarrow> bool" where
  "distinct_names d \<longleftrightarrow> distinct (map rm_name (df_reminders d)) \<and>
     (\<forall>st\<in>set (df_states d). distinct (map tm_name (st_timers st)))"

definition ticks :: "period \<Rightarrow> bool" where
  "ticks p \<longleftrightarrow> 0 < pd_months p \<or> pd_months p = 0 \<and> microsecond \<le> pd_fixed p"

lemma parsed_ticks: "parse_period text = Some p \<Longrightarrow> ticks p"
  by (auto simp: parse_period_def Let_def zero_period_def max_period_count_def wrap64_def duration_units ticks_def
      split: option.splits if_splits)

lemma add_to_later: "ticks p \<Longrightarrow> t + microsecond \<le> add_to p t"
proof (cases "pd_months p = 0")
  case False
  assume "ticks p"
  then have n: "0 < pd_months p" using False by (simp add: ticks_def)
  let ?d = "t div day" and ?n = "pd_months p"
  have "first_of (month_of ?d) + 28 \<le> first_of (month_of ?d + ?n)"
    using first_of_step [of "month_of ?d"] first_of_mono [of "month_of ?d + 1" "month_of ?d + ?n"] n by simp
  then have "(?d + 28) * day \<le> (first_of (month_of ?d + ?n) + (?d - first_of (month_of ?d))) * day"
    by (intro mult_right_mono) (simp_all add: duration_units)
  moreover have "t = ?d * day + t mod day" by simp
  ultimately show ?thesis
    using False by (simp add: add_to_def add_months_def Let_def distrib_right) (simp add: duration_units)
qed (auto simp: ticks_def add_to_def)

lemma fold_get:
  assumes "distinct (map name xs)" and "\<And>x m n. n \<noteq> name x \<Longrightarrow> dict_get (f x m) n = dict_get m n" and "x \<in> set xs"
    and "\<And>m. dict_get m (name x) = dict_get m0 (name x) \<Longrightarrow> dict_get (f x m) (name x) = v"
  shows "dict_get (fold f xs m0) (name x) = v"
proof -
  have out: "n \<notin> name ` set ys \<Longrightarrow> dict_get (fold f ys m) n = dict_get m n" for n ys m
    using assms(2) by (induction ys arbitrary: m) auto
  obtain ys zs where xs: "xs = ys @ x # zs" using assms(3) by (meson split_list)
  then have "name x \<notin> name ` set ys" "name x \<notin> name ` set zs" using assms(1) by auto
  then show ?thesis using out assms(4) [of "fold f ys m0"] by (simp add: xs)
qed

lemma resume_restarts_get:
  assumes "distinct (map tm_name (st_timers st))" and "t \<in> set (st_timers st)"
  shows "dict_get (resume_restarts st cur at) (tm_name t) =
    (if timer_due t cur \<le> at then Some at else dict_get (in_restarts (cu_inst cur)) (tm_name t))"
  unfolding resume_restarts_def
  by (rule fold_get [OF assms(1) _ assms(2)]) (auto simp: Let_def dict_simps split: option.split)

lemma resume_reminders_get:
  assumes "distinct (map rm_name (df_reminders d))" and "r \<in> set (reminders_in d (in_state (cu_inst cur)))"
    and "record_of r cur = Some rec"
  shows "dict_get (resume_reminders d cur at) (rm_name r) =
    (case next_slot r cur of
       None \<Rightarrow> dict_get (records cur) (rm_name r)
     | Some slot \<Rightarrow> if slot \<le> at then Some \<lparr>rr_since = at, rr_last = 0, rr_count = rr_count rec\<rparr>
         else dict_get (records cur) (rm_name r))"
proof -
  have "distinct (map rm_name (reminders_in d (in_state (cu_inst cur))))"
    using assms(1) by (simp add: reminders_in_def distinct_map_filter)
  moreover have "reminder_of d (rm_name r) \<noteq> None" using assms(2) by (auto simp: reminders_in_def reminder_declared)
  ultimately show ?thesis
    unfolding resume_reminders_def
    by (intro fold_get) (auto simp: assms prune_get dict_simps split: option.split)
qed

text \<open>
  A resume leaves nothing overdue and stretches no deadline. When a session in a declared,
  not final state is reopened at \<open>at\<close>, every timer of the state that had come due counts again from
  \<open>at\<close> and every other timer keeps its deadline; a reminder whose slot had come gets its next slot
  \<open>first\<close> after \<open>at\<close>, every other one keeps its slot; so afterwards all of them lie after \<open>at\<close>.
\<close>
theorem resume_not_overdue:
  assumes "session_run d s" and "distinct_names d" and "reopen_session d at s = Ok s'"
    and "live d (current_session d s) = Some st"
    and "\<forall>t\<in>set (st_timers st). ticks (tm_period t)" and "\<forall>r\<in>set (df_reminders d). microsecond \<le> rm_first r"
  shows "(\<forall>t\<in>set (st_timers st). norm_time at < timer_due t (current_session d s') \<and>
      timer_due t (current_session d s') = (if timer_due t (current_session d s) \<le> norm_time at
        then norm_time (add_to (tm_period t) (norm_time at)) else timer_due t (current_session d s))) \<and>
    (\<forall>r\<in>set (reminders_in d (in_state (cu_inst (current_session d s)))). \<forall>slot.
      next_slot r (current_session d s) = Some slot \<longrightarrow>
      (\<exists>slot'. next_slot r (current_session d s') = Some slot' \<and> norm_time at < slot' \<and>
        slot' = (if slot \<le> norm_time at then norm_time (norm_time at + rm_first r) else slot)))"
proof -
  let ?c = "current_session d s" and ?c' = "current_session d s'" and ?at = "norm_time at"
  have k: "good_machine d" "kept s" using run_invariant [OF assms(1)] by simp_all
  from reopen_ok [OF k(2,1), of at] assms(3,4) have
    s': "in_restarts (se_inst s') = resume_restarts st ?c ?at" "stored_records s' = resume_reminders d ?c ?at"
    and same: "in_state (se_inst s') = in_state (se_inst s)" "in_generation (se_inst s') = in_generation (se_inst s)"
      "in_entered (se_inst s') = in_entered (se_inst s)" "se_created s' = se_created s" by auto
  note cur = current_same [OF same, of d]
  have later: "?at < norm_time (?at + p + microsecond)" if "0 \<le> p" for p
    using that norm_near [of "?at + p + microsecond"] by simp
  have timer: "?at < timer_due t ?c' \<and> timer_due t ?c' = (if timer_due t ?c \<le> ?at
        then norm_time (add_to (tm_period t) ?at) else timer_due t ?c)" if "t \<in> set (st_timers st)" for t
  proof -
    define anchor where "anchor = (if tm_since t = since_session then cu_created ?c else in_entered (cu_inst ?c))"
    have anchor': "(if tm_since t = since_session then cu_created ?c' else in_entered (cu_inst ?c')) = anchor"
      using cur same(4) by (simp add: anchor_def current_fields)
    have norm: "norm_time anchor = anchor" using k(2) current_entered [OF k(2), of d] by (simp add: anchor_def current_fields kept_def)
    have "distinct (map tm_name (st_timers st))" using assms(2) live_in [OF assms(4)] by (simp add: distinct_names_def)
    from resume_restarts_get [OF this that, of ?c ?at]
    have get: "dict_get (in_restarts (cu_inst ?c')) (tm_name t) =
        (if timer_due t ?c \<le> ?at then Some ?at else dict_get (in_restarts (cu_inst ?c)) (tm_name t))"
      by (simp add: current_fields s'(1))
    have tick: "a + microsecond \<le> add_to (tm_period t) a" for a using assms(5) that add_to_later by blast
    show ?thesis
    proof (cases "timer_due t ?c \<le> ?at")
      case True
      have "anchor \<le> timer_due t ?c"
      proof -
        have "anchor \<le> norm_time (add_to (tm_period t) a)" if "anchor \<le> a" for a
          using norm_below [OF norm, of "add_to (tm_period t) a"] tick [of a] that by (simp add: microsecond_def)
        then show ?thesis
          unfolding timer_due_def Let_def anchor_def [symmetric] by (auto split: option.split)
      qed
      then have le: "anchor \<le> ?at" using True by simp
      have "dict_get (in_restarts (cu_inst ?c')) (tm_name t) = Some ?at" using True get by simp
      then have "timer_due t ?c' = norm_time (add_to (tm_period t) ?at)"
        using le by (simp add: timer_due_def Let_def anchor' antisym)
      moreover have "?at < norm_time (add_to (tm_period t) ?at)"
        using tick [of ?at] later [of "add_to (tm_period t) ?at - ?at - microsecond"] by simp
      ultimately show ?thesis using True by simp
    next
      case False
      then have "timer_due t ?c' = timer_due t ?c"
        using get unfolding timer_due_def Let_def anchor' anchor_def [symmetric] by simp
      with False show ?thesis by simp
    qed
  qed
  have slots: "\<exists>slot'. next_slot r ?c' = Some slot' \<and> ?at < slot' \<and>
      slot' = (if slot \<le> ?at then norm_time (?at + rm_first r) else slot)"
    if r: "r \<in> set (reminders_in d (in_state (cu_inst ?c)))" and slot: "next_slot r ?c = Some slot" for r slot
  proof -
    obtain rec where rec: "record_of r ?c = Some rec" using slot by (auto simp: next_slot_def split: option.splits if_splits)
    have distinct: "distinct (map rm_name (df_reminders d))" using assms(2) by (simp add: distinct_names_def)
    from resume_reminders_get [OF distinct r rec, of ?at] slot
    have get: "dict_get (records ?c') (rm_name r) = (if slot \<le> ?at then Some \<lparr>rr_since = ?at, rr_last = 0, rr_count = rr_count rec\<rparr>
        else dict_get (records ?c) (rm_name r))"
      by (simp add: current_fields s'(2))
    have a: "active r (in_state (cu_inst ?c))" using r by (simp add: reminders_in_def)
    show ?thesis
    proof (cases "slot \<le> ?at")
      case True
      then have "record_of r ?c' = Some \<lparr>rr_since = ?at, rr_last = 0, rr_count = rr_count rec\<rparr>"
        using get a cur(1) by (simp add: record_of_def)
      then have "next_slot r ?c' = Some (norm_time (?at + rm_first r))"
        using slot rec cur(3) by (auto simp: next_slot_def split: if_splits)
      moreover have "?at < norm_time (?at + rm_first r)"
        using later [of "rm_first r - microsecond"] assms(6) r by (auto simp: reminders_in_def)
      ultimately show ?thesis using True by simp
    next
      case False
      then have "record_of r ?c' = record_of r ?c" using get unfolding record_of_def cur(1,2) by (simp split: option.split)
      then have "next_slot r ?c' = next_slot r ?c" using cur(3) by (simp add: next_slot_def)
      then show ?thesis using False slot by simp
    qed
  qed
  from timer slots show ?thesis by blast
qed

section \<open>Deadlines that a move carries over\<close>

lemma scoped_get:
  assumes "distinct (map tm_name ts)" and "u \<in> set ts"
  shows "dict_get (fold (\<lambda>t m. dict_set (tm_name t) (tm_since t = since_session) m) ts []) (tm_name u)
    = Some (tm_since u = since_session)"
  by (rule fold_get [OF assms(1) _ assms(2)]) (simp_all add: dict_simps)

lemma carried_restart:
  assumes "distinct_names d" and "state_of d (in_state (cu_inst cur)) = Some left" and "state_of d to = Some target"
    and "u \<in> set (st_timers left)" and "tm_since u = since_session"
    and "t \<in> set (st_timers target)" and "tm_since t = since_session" and "tm_name t = tm_name u"
  shows "dict_get (case carried_restarts d cur to of None \<Rightarrow> [] | Some rs \<Rightarrow> rs) (tm_name t)
    = dict_get (in_restarts (cu_inst cur)) (tm_name t)"
proof -
  have dl: "distinct (map tm_name (st_timers left))" and dt: "distinct (map tm_name (st_timers target))"
    using assms(1-3) state_of_in by (auto simp: distinct_names_def)
  let ?old = "in_restarts (cu_inst cur)"
  define scoped where "scoped = fold (\<lambda>t m. dict_set (tm_name t) (tm_since t = since_session) m) (st_timers left) []"
  let ?f = "\<lambda>t out. case dict_get ?old (tm_name t) of None \<Rightarrow> out
      | Some r \<Rightarrow> if tm_since t = since_session \<and> dict_get scoped (tm_name t) = Some True
          then dict_set (tm_name t) r out else out"
  have sc: "dict_get scoped (tm_name t) = Some True"
    using scoped_get [OF dl assms(4)] assms(5,8) by (simp add: scoped_def)
  have "dict_get (fold ?f (st_timers target) []) (tm_name t) = dict_get ?old (tm_name t)"
    by (rule fold_get [OF dt _ assms(6)]) (auto simp: dict_simps assms(7) sc split: option.split)
  moreover have "(case carried_restarts d cur to of None \<Rightarrow> [] | Some rs \<Rightarrow> rs) = fold ?f (st_timers target) []" if "?old \<noteq> []"
    unfolding carried_restarts_def assms(2,3) Let_def scoped_def using that by simp
  moreover have "(case carried_restarts d cur to of None \<Rightarrow> [] | Some rs \<Rightarrow> rs) = []" if "?old = []"
    unfolding carried_restarts_def assms(2,3) using that by simp
  ultimately show ?thesis by (cases "?old = []") simp_all
qed

lemma carried_not_scoped:
  assumes "distinct_names d" and "state_of d to = Some target" and "t \<in> set (st_timers target)" and "tm_since t \<noteq> since_session"
  shows "dict_get (case carried_restarts d cur to of None \<Rightarrow> [] | Some rs \<Rightarrow> rs) (tm_name t) = None"
proof -
  have dt: "distinct (map tm_name (st_timers target))" using assms(1,2) state_of_in by (auto simp: distinct_names_def)
  have f: "dict_get (fold (\<lambda>t out. case dict_get old (tm_name t) of None \<Rightarrow> out
      | Some r \<Rightarrow> if tm_since t = since_session \<and> dict_get scoped (tm_name t) = Some True
          then dict_set (tm_name t) r out else out) (st_timers target) []) (tm_name t) = None" for old :: "instant dict" and scoped
    by (rule fold_get [OF dt _ assms(3)]) (auto simp: dict_simps assms(4) split: option.split)
  show ?thesis
    using f by (auto simp: carried_restarts_def Let_def assms(2) split: option.split)
qed

lemma carried_record:
  assumes "distinct_names d" and "r \<in> set (df_reminders d)" and "active r to" and "record_of r cur = Some rec"
  shows "dict_get (carried_reminders d cur to) (rm_name r) = Some rec"
proof -
  have "distinct (map rm_name (df_reminders d))" using assms(1) by (simp add: distinct_names_def)
  then show ?thesis
    unfolding carried_reminders_def
    by (rule fold_get [OF _ _ assms(2)]) (auto simp: assms(3,4) dict_simps split: option.split)
qed

text \<open>
  A move keeps the deadlines that outlive the state. When a session moves to a declared state,
  a timer that counts from the session's creation, declared so in both states, keeps its due time,
  restarts included; a reminder active in both states keeps its span, so its next slot; and a timer
  that counts from the state starts again at the move.
\<close>
theorem move_keeps_deadlines:
  assumes "session_run d s" and "distinct_names d" and "run_step d (Some mv) (norm_time at) cause s = Ok s'"
    and "state_of d (in_state (cu_inst (current_session d s))) = Some left" and "state_of d (mv_to mv) = Some target"
  shows "(\<forall>t\<in>set (st_timers target). \<forall>u\<in>set (st_timers left). tm_name t = tm_name u \<longrightarrow>
      tm_since t = since_session \<longrightarrow> tm_since u = since_session \<longrightarrow>
      timer_due t (current_session d s') = timer_due t (current_session d s)) \<and>
    (\<forall>r\<in>set (df_reminders d). active r (in_state (cu_inst (current_session d s))) \<longrightarrow> active r (mv_to mv) \<longrightarrow>
      next_slot r (current_session d s') = next_slot r (current_session d s)) \<and>
    (\<forall>t\<in>set (st_timers target). tm_since t \<noteq> since_session \<longrightarrow>
      timer_due t (current_session d s') = norm_time (add_to (tm_period t) (norm_time at)))"
proof -
  let ?c = "current_session d s" and ?c' = "current_session d s'"
  have k: "good_machine d" "kept s" using run_invariant [OF assms(1)] by simp_all
  have "check_move mv" using assms(3) by (auto simp: run_step_def split: if_splits)
  from moved_step_ok [OF k(2,1) this norm_norm [of at], of cause] assms(3) have
    s': "in_state (se_inst s') = mv_to mv" "in_generation (se_inst s') = wrap64 (in_generation (se_inst s) + 1)"
      "in_entered (se_inst s') = norm_time at" "se_created s' = se_created s"
      "in_restarts (se_inst s') = (case carried_restarts d ?c (mv_to mv) of None \<Rightarrow> [] | Some rs \<Rightarrow> rs)"
      "stored_records s' = carried_reminders d ?c (mv_to mv)" by auto
  have "mv_to mv \<noteq> []" using \<open>check_move mv\<close> by (auto simp: check_move_def valid_state_name_def)
  then have c': "cu_inst ?c' = se_inst s'" "\<not> cu_stranded ?c'"
    using s'(1) assms(5) by (simp_all add: current_session_def read_instance_def instance_is_zero_def)
  have c: "\<not> cu_stranded ?c" using assms(4) by (auto simp: current_session_def read_instance_def)
  have 1: "timer_due t ?c' = timer_due t ?c"
    if "t \<in> set (st_timers target)" "u \<in> set (st_timers left)" "tm_name t = tm_name u"
      "tm_since t = since_session" "tm_since u = since_session" for t u
    using carried_restart [OF assms(2,4,5) that(2,5,1,4,3)] that(4) s'(4,5)
    by (simp add: timer_due_def current_fields)
  have 2: "next_slot r ?c' = next_slot r ?c"
    if r: "r \<in> set (df_reminders d)" and a: "active r (in_state (cu_inst ?c))" and b: "active r (mv_to mv)" for r
  proof -
    obtain rec where rec: "record_of r ?c = Some rec" using active_record [OF a] by blast
    from carried_record [OF assms(2) r b this] have "record_of r ?c' = Some rec"
      using b s'(1,6) c'(1) by (simp add: record_of_def current_fields)
    then show ?thesis using rec c c'(2) by (simp add: next_slot_def)
  qed
  have 3: "timer_due t ?c' = norm_time (add_to (tm_period t) (norm_time at))"
    if "t \<in> set (st_timers target)" "tm_since t \<noteq> since_session" for t
  proof -
    have "dict_get (in_restarts (se_inst s')) (tm_name t) = None"
      unfolding s'(5) using carried_not_scoped [OF assms(2,5) that] by simp
    then show ?thesis using that(2) s'(3) c'(1) by (simp add: timer_due_def)
  qed
  from 1 2 3 show ?thesis by blast
qed

section \<open>A small definition\<close>

definition esc :: timer where
  "esc = \<lparr>tm_name = ''esc'', tm_to = ''late'', tm_period = \<lparr>pd_fixed = hour, pd_months = 0, pd_text = ''1h''\<rparr>, tm_since = ''state''\<rparr>"

definition whole :: timer where
  "whole = \<lparr>tm_name = ''whole'', tm_to = ''done'', tm_period = \<lparr>pd_fixed = 0, pd_months = 1, pd_text = ''1mo''\<rparr>, tm_since = since_session\<rparr>"

definition ticket :: machine where
  "ticket = new_definition ''open''
     [new_state ''open'' False [whole, esc], new_state ''late'' False [whole], new_state ''done'' True []]
     [daily\<lparr>rm_in := [''open'', ''late'']\<rparr>]"


definition fresh_ticket :: session where
  "fresh_ticket = (case new_session ticket (738000 * day) of Ok s \<Rightarrow> s | _ \<Rightarrow> \<lparr>se_inst = unset_instance, se_created = 0, se_open = False\<rparr>)"

lemma ticket_good: "good_machine ticket" "distinct_names ticket"
  by code_simp+

lemma fresh_ticket_run: "session_run ticket fresh_ticket"
proof -
  have "case new_session ticket (738000 * day) of Ok s \<Rightarrow> True | _ \<Rightarrow> False" by code_simp
  then have "new_session ticket (738000 * day) = Ok fresh_ticket" by (auto simp: fresh_ticket_def split: outcome.splits)
  then show ?thesis by (rule session_run.created [OF ticket_good(1)])
qed

theorem due_hint_exact_witness:
  "in_due (se_inst fresh_ticket) = next_due ticket (read_instance ticket (se_inst fresh_ticket) (se_created fresh_ticket))"
  by (rule due_hint_exact [OF fresh_ticket_run])

theorem schedules_accepted_witness:
  "\<exists>s'. reopen_session ticket (738001 * day) fresh_ticket = Ok s'"
  using schedules_accepted [OF fresh_ticket_run ticket_good(1)] by blast

theorem timer_fires_once_witness:
  "\<exists>s'. timer_step ticket (Some (esc, ''open'', 0)) (738001 * day) fresh_ticket = Ok s' \<and>
    in_state (se_inst s') = ''late'' \<and> in_generation (se_inst s') = wrap64 1"
proof -
  have "case timer_step ticket (Some (esc, ''open'', 0)) (738001 * day) fresh_ticket of
      Ok s' \<Rightarrow> in_generation (se_inst s') \<noteq> in_generation (se_inst fresh_ticket) | _ \<Rightarrow> False" by code_simp
  then obtain s' where s': "timer_step ticket (Some (esc, ''open'', 0)) (738001 * day) fresh_ticket = Ok s'"
    "in_generation (se_inst s') \<noteq> in_generation (se_inst fresh_ticket)" by (auto split: outcome.splits)
  from timer_fires_once [OF fresh_ticket_run s'] s'(1) show ?thesis by (auto simp: esc_def)
qed


theorem resume_not_overdue_witness:
  "\<exists>s'. reopen_session ticket (738001 * day) fresh_ticket = Ok s' \<and>
    738001 * day < timer_due esc (current_session ticket s') \<and>
    timer_due whole (current_session ticket s') = timer_due whole (current_session ticket fresh_ticket)"
proof -
  define st where "st = new_state ''open'' False [whole, esc]"
  have l: "live ticket (current_session ticket fresh_ticket) = Some st" unfolding st_def by code_simp
  obtain s' where s': "reopen_session ticket (738001 * day) fresh_ticket = Ok s'"
    using reopen_ok [of fresh_ticket ticket "738001 * day"] run_invariant [OF fresh_ticket_run] by auto
  have t: "set (st_timers st) = {whole, esc}" by (auto simp: st_def new_state_def)
  have p: "\<forall>t\<in>set (st_timers st). ticks (tm_period t)" unfolding t by (simp add: ticks_def whole_def esc_def duration_units)
  have r: "\<forall>r\<in>set (df_reminders ticket). microsecond \<le> rm_first r"
    by (simp add: ticket_def new_definition_def daily_def duration_units)
  have n: "norm_time (738001 * day) = 738001 * day" by (simp add: norm_time_def duration_units)
  have w: "\<not> timer_due whole (current_session ticket fresh_ticket) \<le> 738001 * day" by code_simp
  from conjunct1 [OF resume_not_overdue [OF fresh_ticket_run ticket_good(2) s' l p r]] w
  have "738001 * day < timer_due esc (current_session ticket s')"
    "timer_due whole (current_session ticket s') = timer_due whole (current_session ticket fresh_ticket)"
    unfolding t n by auto
  with s' show ?thesis by blast
qed

theorem move_keeps_deadlines_witness:
  "\<exists>s'. run_step ticket (Some \<lparr>mv_from = ''open'', mv_to = ''late''\<rparr>) (norm_time (738001 * day)) 5 fresh_ticket = Ok s' \<and>
    timer_due whole (current_session ticket s') = timer_due whole (current_session ticket fresh_ticket)"
proof -
  let ?mv = "\<lparr>mv_from = ''open'', mv_to = ''late''\<rparr>"
  have "check_move ?mv" by code_simp
  then obtain s' where s': "run_step ticket (Some ?mv) (norm_time (738001 * day)) 5 fresh_ticket = Ok s'"
    using moved_step_ok [OF _ _ _ norm_norm, of fresh_ticket ticket ?mv "738001 * day" 5] run_invariant [OF fresh_ticket_run] by blast
  define left target where "left = new_state ''open'' False [whole, esc]" and "target = new_state ''late'' False [whole]"
  have l: "state_of ticket (in_state (cu_inst (current_session ticket fresh_ticket))) = Some left"
    unfolding left_def by code_simp
  have t: "state_of ticket (mv_to ?mv) = Some target" unfolding target_def by code_simp
  have "whole \<in> set (st_timers target)" "whole \<in> set (st_timers left)" "tm_since whole = since_session"
    by (simp_all add: left_def target_def new_state_def whole_def)
  with move_keeps_deadlines [OF fresh_ticket_run ticket_good(2) s' l t] s' show ?thesis by blast
qed

end
