(* ===== verification/Lease.thy ===== *)
theory Lease
  imports Store_Rules Go_Time "HOL-Library.Word"
begin

text \<open>
  Advisory leases, from \<^verbatim>\<open>internal/lease/lease.go\<close>: the lease and its holder, the errors, the
  input checks every backend shares, the fencing tokens and the precision of instants. A token is a
  \<open>uint64\<close>, kept as a 64-bit word.
\<close>

type_synonym u64 = "64 word"

section \<open>Leases\<close>

record holder =
  ho_identity :: string
  ho_user :: string
  ho_tool :: string
  ho_label :: string

record lease =
  le_id :: string
  le_holder :: holder
  le_hash :: string
  le_token :: u64
  le_since :: instant
  le_expires :: instant
  le_status :: string

text \<open>The wrapped messages of \<open>ErrInvalid\<close>, one constructor each.\<close>

datatype invalid_input =
    EmptyEntityId
  | EmptyIdentity
  | BadLabel
  | BadHash
  | StatusNotUtf8
  | StatusTooLong
  | StatusControl
  | UntilNotAfterNow
  | HashInUse
  | EmptyAddress
  | BadTTL
  | BadLeaseId

datatype backend_failure = LockFailed | ReadFailed | EncodeFailed | WriteFailed

datatype lease_error =
    ErrLost
  | ErrLimit
  | ErrFull
  | ErrInvalid invalid_input
  | Held lease
  | Backend backend_failure

definition MaxPerIdentity :: nat where "MaxPerIdentity = 32"
definition MaxPerStore :: nat where "MaxPerStore = 2048"
definition MaxStatusRunes :: nat where "MaxStatusRunes = 140"
definition hashLen :: nat where "hashLen = 64"

definition lease_live :: "instant \<Rightarrow> lease \<Rightarrow> bool" where
  "lease_live now l \<longleftrightarrow> now < le_expires l"

text \<open>\<open>NextToken\<close>: \<open>UnixMicro\<close> is an \<open>int64\<close>, the sum a \<open>uint64\<close>, and both wrap around.\<close>

definition next_token :: "u64 \<Rightarrow> instant \<Rightarrow> u64" where
  "next_token last_token now =
     (let us = wrap64 (unix_micro now);
          lowest = (if us > 0 then word_of_int us else 0)
      in max (last_token + 1) lowest)"

section \<open>Input checks\<close>

text \<open>The runes of a string: a byte that starts no well-formed rune reads as U+FFFD.\<close>

definition rune_at :: "string \<Rightarrow> int" where
  "rune_at s =
     (let w = rune_width s; b = (\<lambda>k. int (code (s ! k))) in
      if w = 1 then b 0
      else if w = 2 then (b 0 mod 32) * 64 + b 1 mod 64
      else if w = 3 then ((b 0 mod 16) * 64 + b 1 mod 64) * 64 + b 2 mod 64
      else if w = 4 then (((b 0 mod 8) * 64 + b 1 mod 64) * 64 + b 2 mod 64) * 64 + b 3 mod 64
      else 65533)"

function runes :: "string \<Rightarrow> int list" where
  "runes s = (if s = [] then [] else rune_at s # runes (drop (max 1 (rune_width s)) s))"
  by pat_completeness auto
termination by (relation "measure length") (auto intro!: diff_less)

declare runes.simps [simp del]

definition isControl :: "int \<Rightarrow> bool" where
  "isControl r \<longleftrightarrow> r < 32 \<or> (127 \<le> r \<and> r < 160)"

definition isBidiControl :: "int \<Rightarrow> bool" where
  "isBidiControl r \<longleftrightarrow> (8234 \<le> r \<and> r \<le> 8238) \<or> (8294 \<le> r \<and> r \<le> 8297) \<or> r = 8206 \<or> r = 8207"

definition check_status :: "string \<Rightarrow> invalid_input option" where
  "check_status status =
     (if \<not> utf8_valid status then Some StatusNotUtf8
      else if length (runes status) > MaxStatusRunes then Some StatusTooLong
      else if list_ex (\<lambda>r. isControl r \<or> isBidiControl r) (runes status) then Some StatusControl
      else None)"

definition check_label :: "string \<Rightarrow> invalid_input option" where
  "check_label label =
     (if length label \<le> 32 \<and> list_all (\<lambda>c. is_letter c \<or> is_digit c \<or> c = CHR ''_'' \<or> c = CHR ''.'' \<or> c = CHR ''-'') label
      then None else Some BadLabel)"

definition is_hex :: "char \<Rightarrow> bool" where
  "is_hex c \<longleftrightarrow> is_digit c \<or> (97 \<le> code c \<and> code c \<le> 102)"

definition check_hash :: "string \<Rightarrow> invalid_input option" where
  "check_hash h =
     (if length h \<noteq> hashLen then Some BadHash
      else if \<not> list_all is_hex h then Some BadHash
      else None)"

definition check_until :: "instant \<Rightarrow> instant \<Rightarrow> invalid_input option" where
  "check_until now until = (if \<not> norm_time now < norm_time until then Some UntilNotAfterNow else None)"

definition check_claim ::
  "string \<Rightarrow> holder \<Rightarrow> string \<Rightarrow> instant \<Rightarrow> instant \<Rightarrow> string \<Rightarrow> invalid_input option" where
  "check_claim i h leaseHash now until status =
     (if i = [] then Some EmptyEntityId
      else if ho_identity h = [] then Some EmptyIdentity
      else first_error [check_label (ho_label h), check_hash leaseHash, check_status status, check_until now until])"

definition check_renew :: "string \<Rightarrow> instant \<Rightarrow> instant \<Rightarrow> string option \<Rightarrow> invalid_input option" where
  "check_renew leaseHash now until status =
     first_error
       [check_hash leaseHash,
        case status of None \<Rightarrow> None | Some t \<Rightarrow> check_status t,
        check_until now until]"

section \<open>What the checks say\<close>

lemma first_error_Cons: "first_error (e # es) = (case e of None \<Rightarrow> first_error es | Some x \<Rightarrow> Some x)"
  by (cases e) auto

lemma check_claim_None:
  "check_claim i h leaseHash now until status = None \<longleftrightarrow>
     i \<noteq> [] \<and> ho_identity h \<noteq> [] \<and> check_label (ho_label h) = None \<and> check_hash leaseHash = None \<and>
     check_status status = None \<and> norm_time now < norm_time until"
  by (auto simp: check_claim_def first_error_None check_until_def)

lemma check_renew_None:
  "check_renew leaseHash now until status = None \<longleftrightarrow>
     check_hash leaseHash = None \<and> (\<forall>t. status = Some t \<longrightarrow> check_status t = None) \<and>
     norm_time now < norm_time until"
  by (auto simp: check_renew_def first_error_None check_until_def split: option.splits)

text \<open>A run of ASCII bytes is valid UTF-8, so labels and hashes are.\<close>

lemma utf8_ascii: "list_all (\<lambda>c. code c < 128) s \<Longrightarrow> utf8_valid s"
proof (induction s)
  case Nil
  then show ?case by (subst utf8_valid.simps) simp
next
  case (Cons c s)
  then have "rune_width (c # s) = 1" by (simp add: rune_width_def)
  with Cons show ?case by (subst utf8_valid.simps) simp
qed

lemma label_utf8: "check_label l = None \<Longrightarrow> utf8_valid l"
  by (rule utf8_ascii) (auto simp: check_label_def list_all_iff str_defs split: if_splits)

lemma hash_utf8: "check_hash h = None \<Longrightarrow> utf8_valid h"
  by (rule utf8_ascii) (auto simp: check_hash_def list_all_iff is_hex_def str_defs split: if_splits)

lemma status_utf8: "check_status t = None \<Longrightarrow> utf8_valid t"
  by (auto simp: check_status_def split: if_splits)

section \<open>Tokens\<close>

lemma next_token_ge:
  assumes "unat t < 2 ^ 64 - 1"
  shows "t < next_token t now"
proof -
  have "t < t + 1" using assms by (intro word_less_nat_alt [THEN iffD2]) (simp add: unat_word_ariths)
  then show ?thesis by (auto simp: next_token_def Let_def less_max_iff_disj)
qed

lemma next_token_floor:
  assumes "0 < unix_micro now" "unix_micro now < 2 ^ 63"
  shows "unix_micro now \<le> uint (next_token t now)"
proof -
  let ?u = "unix_micro now"
  have w: "wrap64 ?u = ?u" using assms by (intro wrap64_id) auto
  have "uint (word_of_int ?u :: u64) = ?u" using assms by (simp add: take_bit_int_eq_self uint_word_of_int_eq)
  moreover have "(word_of_int ?u :: u64) \<le> next_token t now" using assms by (simp add: next_token_def w)
  ultimately show ?thesis by (metis word_le_def)
qed

lemma next_token_le:
  assumes "unat t < 2 ^ 64 - 1" "unix_micro now < 2 ^ 62" "- (2 ^ 63) \<le> unix_micro now"
  shows "unat (next_token t now) \<le> max (unat t + 1) (2 ^ 62)"
proof -
  have "unat (t + 1) = unat t + 1" using assms(1) by (simp add: unat_word_ariths)
  moreover have "0 < unix_micro now \<longrightarrow> unat (word_of_int (unix_micro now) :: u64) \<le> 2 ^ 62"
    using assms(2) by (simp add: unat_eq_nat_uint uint_word_of_int_eq take_bit_int_eq_self nat_le_iff)
  moreover have "wrap64 (unix_micro now) = unix_micro now" using assms by (intro wrap64_id) auto
  ultimately show ?thesis using assms(2) by (auto simp: next_token_def Let_def max_def)
qed

end
