(* ===== verification/Lease_KV.thy ===== *)
theory Lease_KV
  imports Lease "HOL-Library.Product_Lexorder"
begin

text \<open>
  The lease store of the single-process tiers, \<^verbatim>\<open>internal/lease/kvlease/kv.go\<close>: every lease in one
  JSON document of a key-value store, and the document's version, as decimal text, under a second
  key. Every method reads the document under a lock, changes it and writes it back, so a method is
  one step on the two values.

  The key-value store is modelled by its two values and by the failures it will answer the next
  methods with, one record per method call; a failed \<open>Put\<close> leaves the value it would have
  replaced. Encoding a document and decoding it again keeps it, apart from what
  \<open>encoding/json\<close> does to text that is not valid UTF-8 (each bad byte becomes U+FFFD, so two keys
  of the map may become one) and to times outside the years 0 to 9999 (an error). The unexported
  field \<open>versionKey\<close> is not written.
\<close>

section \<open>The document\<close>

record stored_lease =
  sl_identity :: string
  sl_user :: string
  sl_tool :: string
  sl_label :: string
  sl_hash :: string
  sl_token :: u64
  sl_since :: instant
  sl_expires :: instant
  sl_status :: string

record document =
  dc_token :: u64
  dc_version :: u64
  dc_leases :: "stored_lease dict"
  dc_version_key :: u64

definition to_lease :: "string \<Rightarrow> stored_lease \<Rightarrow> lease" where
  "to_lease i s =
     \<lparr>le_id = i,
      le_holder = \<lparr>ho_identity = sl_identity s, ho_user = sl_user s, ho_tool = sl_tool s, ho_label = sl_label s\<rparr>,
      le_hash = sl_hash s, le_token = sl_token s, le_since = sl_since s, le_expires = sl_expires s,
      le_status = sl_status s\<rparr>"

definition stored_live :: "instant \<Rightarrow> stored_lease \<Rightarrow> bool" where
  "stored_live now s \<longleftrightarrow> now < sl_expires s"

definition empty_document :: document where
  "empty_document = \<lparr>dc_token = 0, dc_version = 0, dc_leases = [], dc_version_key = 0\<rparr>"

datatype change = Unchanged | Quiet | Visible

section \<open>JSON\<close>

function json_text :: "string \<Rightarrow> string" where
  "json_text s =
     (if s = [] then []
      else if rune_width s = 0 then map char_of [239, 191, 189 :: nat] @ json_text (drop 1 s)
      else take (rune_width s) s @ json_text (drop (rune_width s) s))"
  by pat_completeness auto
termination by (relation "measure length") auto

declare json_text.simps [simp del]

definition json_stored :: "stored_lease \<Rightarrow> stored_lease" where
  "json_stored s =
     s\<lparr>sl_identity := json_text (sl_identity s), sl_user := json_text (sl_user s),
       sl_tool := json_text (sl_tool s), sl_label := json_text (sl_label s),
       sl_hash := json_text (sl_hash s), sl_status := json_text (sl_status s)\<rparr>"

definition json_time_ok :: "instant \<Rightarrow> bool" where
  "json_time_ok t \<longleftrightarrow> 0 \<le> year_of (t div day) \<and> year_of (t div day) \<le> 9999"

definition json_stored_ok :: "stored_lease \<Rightarrow> bool" where
  "json_stored_ok s \<longleftrightarrow> json_time_ok (sl_since s) \<and> json_time_ok (sl_expires s)"

text \<open>A map is written by the order of its keys; on reading, the last of two equal keys stays.\<close>

definition json_leases :: "stored_lease dict \<Rightarrow> stored_lease dict" where
  "json_leases m = fold (\<lambda>(i, s). dict_set (json_text i) (json_stored s)) (sort_key fst m) []"

text \<open>What a document reads as after it was written: \<open>json.Marshal\<close> then \<open>json.Unmarshal\<close>.\<close>

definition json_document :: "document \<Rightarrow> document option" where
  "json_document d =
     (if list_all (\<lambda>(i, s). json_stored_ok s) (dc_leases d)
      then Some (d\<lparr>dc_leases := json_leases (dc_leases d), dc_version_key := 0\<rparr>)
      else None)"

section \<open>The key-value store\<close>

text \<open>The value under \<open>StateKey\<close>: none, bytes that do not decode, or a document.\<close>

datatype slot = NoDocument | DamagedDocument | Document document

text \<open>
  What fails while one method runs: taking the lock, reading the version key, reading the document,
  and the two writes (of the document and of the version) of the reset in \<open>load\<close> and of the
  method itself.
\<close>

record faults =
  ft_lock :: bool
  ft_version :: bool
  ft_document :: bool
  ft_reset :: "bool \<times> bool"
  ft_write :: "bool \<times> bool"

record kv =
  kv_document :: slot
  kv_version :: "string option"
  kv_faults :: "faults list"

definition no_faults :: faults where
  "no_faults = \<lparr>ft_lock = False, ft_version = False, ft_document = False,
     ft_reset = (False, False), ft_write = (False, False)\<rparr>"

definition next_faults :: "kv \<Rightarrow> faults" where
  "next_faults s = (case kv_faults s of [] \<Rightarrow> no_faults | f # fs \<Rightarrow> f)"

definition used_faults :: "kv \<Rightarrow> kv" where
  "used_faults s = s\<lparr>kv_faults := drop 1 (kv_faults s)\<rparr>"

text \<open>\<open>strconv.ParseUint(s, 10, 64)\<close>.\<close>

definition parse_uint :: "string \<Rightarrow> u64 option" where
  "parse_uint s =
     (if s \<noteq> [] \<and> list_all is_digit s \<and> read_nat s < 2 ^ 64 then Some (of_nat (read_nat s)) else None)"

definition version_text :: "u64 \<Rightarrow> string" where
  "version_text v = show_nat (unat v)"

text \<open>\<open>readVersionKey\<close> on a value that could be read.\<close>

definition version_value :: "string option \<Rightarrow> u64" where
  "version_value t =
     (case t of None \<Rightarrow> 0 | Some data \<Rightarrow> (case parse_uint (trim_space data) of None \<Rightarrow> 0 | Some v \<Rightarrow> v))"

definition read_version_key :: "faults \<Rightarrow> kv \<Rightarrow> lease_error + u64" where
  "read_version_key f s =
     (if ft_version f then Inl (Backend ReadFailed) else Inr (version_value (kv_version s)))"

definition parse_document :: "faults \<Rightarrow> kv \<Rightarrow> lease_error + (document \<times> bool)" where
  "parse_document f s =
     (if ft_document f then Inl (Backend ReadFailed)
      else case kv_document s of
        NoDocument \<Rightarrow> Inr (empty_document, False)
      | DamagedDocument \<Rightarrow> Inr (empty_document, True)
      | Document d \<Rightarrow> Inr (d, False))"

definition flush :: "bool \<times> bool \<Rightarrow> document \<Rightarrow> change \<Rightarrow> kv \<Rightarrow> kv \<times> (lease_error + document)" where
  "flush f d c s =
     (let d1 = (if c = Visible
                then d\<lparr>dc_version := max (max (dc_version d) (dc_token d)) (dc_version_key d) + 1\<rparr> else d)
      in case json_document d1 of
        None \<Rightarrow> (s, Inl (Backend EncodeFailed))
      | Some written \<Rightarrow>
          if fst f then (s, Inl (Backend WriteFailed))
          else let s1 = s\<lparr>kv_document := Document written\<rparr> in
            if c \<noteq> Visible then (s1, Inr d1)
            else if snd f then (s1, Inr d1)
            else (s1\<lparr>kv_version := Some (version_text (dc_version d1))\<rparr>,
                  Inr (d1\<lparr>dc_version_key := dc_version d1\<rparr>)))"

definition load :: "faults \<Rightarrow> kv \<Rightarrow> kv \<times> (lease_error + document)" where
  "load f s =
     (let vk = (case read_version_key f s of Inl e \<Rightarrow> 0 | Inr v \<Rightarrow> v)
      in case parse_document f s of
        Inl e \<Rightarrow> (s, Inl e)
      | Inr (d, damaged) \<Rightarrow>
          let d1 = d\<lparr>dc_version_key := vk, dc_token := max (dc_token d) vk\<rparr> in
          if damaged then flush (ft_reset f) d1 Visible s
          else (s, Inr d1))"

text \<open>\<open>read\<close> and \<open>write\<close>: one method under the lock. \<open>write\<close> keeps what a refused method changed.\<close>

definition read_with :: "(document \<Rightarrow> 'a) \<Rightarrow> kv \<Rightarrow> kv \<times> (lease_error + 'a)" where
  "read_with fn s =
     (let f = next_faults s; s0 = used_faults s in
      if ft_lock f then (s0, Inl (Backend LockFailed))
      else case load f s0 of
        (s1, Inl e) \<Rightarrow> (s1, Inl e)
      | (s1, Inr d) \<Rightarrow> (s1, Inr (fn d)))"

definition write_with ::
  "(document \<Rightarrow> document \<times> change \<times> (lease_error + 'a)) \<Rightarrow> kv \<Rightarrow> kv \<times> (lease_error + 'a)" where
  "write_with fn s =
     (let f = next_faults s; s0 = used_faults s in
      if ft_lock f then (s0, Inl (Backend LockFailed))
      else case load f s0 of
        (s1, Inl e) \<Rightarrow> (s1, Inl e)
      | (s1, Inr d) \<Rightarrow>
          (case fn d of (d', c, r) \<Rightarrow>
            if c = Unchanged then (s1, r)
            else case flush (ft_write f) d' c s1 of
              (s2, Inl e) \<Rightarrow> (s2, Inl e)
            | (s2, Inr d2) \<Rightarrow> (s2, r)))"

section \<open>Steps on the document\<close>

definition prune :: "instant \<Rightarrow> document \<Rightarrow> document \<times> change" where
  "prune now d =
     (let kept = filter (\<lambda>(i, l). stored_live now l) (dc_leases d)
      in (d\<lparr>dc_leases := kept\<rparr>, if length kept \<noteq> length (dc_leases d) then Quiet else Unchanged))"

definition by_hash :: "string \<Rightarrow> document \<Rightarrow> string option" where
  "by_hash h d = map_option fst (find (\<lambda>(i, l). sl_hash l = h) (dc_leases d))"

definition live_for :: "string \<Rightarrow> string \<Rightarrow> instant \<Rightarrow> document \<Rightarrow> (string \<times> stored_lease) option" where
  "live_for h identity now d =
     (case by_hash h d of
        None \<Rightarrow> None
      | Some i \<Rightarrow>
          (case dict_get (dc_leases d) i of
             None \<Rightarrow> None
           | Some l \<Rightarrow> if sl_identity l \<noteq> identity \<or> \<not> stored_live now l then None else Some (i, l)))"

definition claim_document ::
  "string \<Rightarrow> holder \<Rightarrow> string \<Rightarrow> instant \<Rightarrow> instant \<Rightarrow> string \<Rightarrow> document \<Rightarrow>
   document \<times> change \<times> (lease_error + lease)" where
  "claim_document i h leaseHash now until status d =
     (case prune now d of (d1, pruned) \<Rightarrow>
       case dict_get (dc_leases d1) i of
         Some cur \<Rightarrow> (d1, pruned, Inl (Held ((to_lease i cur)\<lparr>le_hash := []\<rparr>)))
       | None \<Rightarrow>
           if by_hash leaseHash d1 \<noteq> None then (d1, pruned, Inl (ErrInvalid HashInUse))
           else if length (dc_leases d1) \<ge> MaxPerStore then (d1, pruned, Inl ErrFull)
           else if length (filter (\<lambda>(j, l). sl_identity l = ho_identity h) (dc_leases d1)) \<ge> MaxPerIdentity
           then (d1, pruned, Inl ErrLimit)
           else
             let tok = next_token (dc_token d1) now;
                 sl = \<lparr>sl_identity = ho_identity h, sl_user = ho_user h, sl_tool = ho_tool h,
                       sl_label = ho_label h, sl_hash = leaseHash, sl_token = tok, sl_since = now,
                       sl_expires = until, sl_status = status\<rparr>
             in (d1\<lparr>dc_token := tok, dc_leases := dict_set i sl (dc_leases d1)\<rparr>, Visible, Inr (to_lease i sl)))"

definition renew_document ::
  "string \<Rightarrow> string \<Rightarrow> instant \<Rightarrow> instant \<Rightarrow> string option \<Rightarrow> document \<Rightarrow>
   document \<times> change \<times> (lease_error + lease)" where
  "renew_document leaseHash identity now until status d =
     (case prune now d of (d1, pruned) \<Rightarrow>
       case live_for leaseHash identity now d1 of
         None \<Rightarrow> (d1, pruned, Inl ErrLost)
       | Some (i, l) \<Rightarrow>
           let seen = (until < sl_expires l \<or> (status \<noteq> None \<and> status \<noteq> Some (sl_status l)));
               l' = l\<lparr>sl_expires := until, sl_status := (case status of None \<Rightarrow> sl_status l | Some t \<Rightarrow> t)\<rparr>
           in (d1\<lparr>dc_leases := dict_set i l' (dc_leases d1)\<rparr>, if \<not> seen then Quiet else Visible, Inr (to_lease i l')))"

definition release_document ::
  "string \<Rightarrow> string \<Rightarrow> instant \<Rightarrow> document \<Rightarrow> document \<times> change \<times> (lease_error + unit)" where
  "release_document leaseHash identity now d =
     (case prune now d of (d1, pruned) \<Rightarrow>
       case live_for leaseHash identity now d1 of
         None \<Rightarrow> (d1, pruned, Inr ())
       | Some (i, l) \<Rightarrow> (d1\<lparr>dc_leases := dict_del i (dc_leases d1)\<rparr>, Visible, Inr ()))"

definition rekey_document ::
  "string \<Rightarrow> string \<Rightarrow> instant \<Rightarrow> document \<Rightarrow> document \<times> change \<times> (lease_error + unit)" where
  "rekey_document from_id to_id now d =
     (case dict_get (dc_leases d) from_id of
        None \<Rightarrow> (d, Unchanged, Inr ())
      | Some l \<Rightarrow>
          let d1 = d\<lparr>dc_leases := dict_del from_id (dc_leases d)\<rparr> in
          if \<not> stored_live now l then (d1, Quiet, Inr ())
          else if (case dict_get (dc_leases d1) to_id of None \<Rightarrow> False | Some cur \<Rightarrow> stored_live now cur)
          then (d1, Visible, Inr ())
          else
            let tok = next_token (dc_token d1) now
            in (d1\<lparr>dc_token := tok, dc_leases := dict_set to_id (l\<lparr>sl_token := tok\<rparr>) (dc_leases d1)\<rparr>,
                Visible, Inr ()))"

definition drop_document :: "string \<Rightarrow> instant \<Rightarrow> document \<Rightarrow> document \<times> change \<times> (lease_error + unit)" where
  "drop_document i now d =
     (case dict_get (dc_leases d) i of
        None \<Rightarrow> (d, Unchanged, Inr ())
      | Some l \<Rightarrow>
          (d\<lparr>dc_leases := dict_del i (dc_leases d)\<rparr>, if \<not> stored_live now l then Quiet else Visible, Inr ()))"

section \<open>The methods\<close>

definition kv_claim ::
  "string \<Rightarrow> holder \<Rightarrow> string \<Rightarrow> instant \<Rightarrow> instant \<Rightarrow> string \<Rightarrow> kv \<Rightarrow> kv \<times> (lease_error + lease)" where
  "kv_claim i h leaseHash now until status s =
     (case check_claim i h leaseHash now until status of
        Some e \<Rightarrow> (s, Inl (ErrInvalid e))
      | None \<Rightarrow> write_with (claim_document i h leaseHash (norm_time now) (norm_time until) status) s)"

definition kv_renew ::
  "string \<Rightarrow> string \<Rightarrow> instant \<Rightarrow> instant \<Rightarrow> string option \<Rightarrow> kv \<Rightarrow> kv \<times> (lease_error + lease)" where
  "kv_renew leaseHash identity now until status s =
     (case check_renew leaseHash now until status of
        Some e \<Rightarrow> (s, Inl (ErrInvalid e))
      | None \<Rightarrow> write_with (renew_document leaseHash identity (norm_time now) (norm_time until) status) s)"

definition kv_lookup :: "string \<Rightarrow> string \<Rightarrow> instant \<Rightarrow> kv \<Rightarrow> kv \<times> (lease_error + lease)" where
  "kv_lookup leaseHash identity now s =
     (case check_hash leaseHash of
        Some e \<Rightarrow> (s, Inl (ErrInvalid e))
      | None \<Rightarrow>
          (case read_with (live_for leaseHash identity (norm_time now)) s of
             (s1, Inl e) \<Rightarrow> (s1, Inl e)
           | (s1, Inr None) \<Rightarrow> (s1, Inl ErrLost)
           | (s1, Inr (Some (i, l))) \<Rightarrow> (s1, Inr (to_lease i l))))"

definition kv_release :: "string \<Rightarrow> string \<Rightarrow> instant \<Rightarrow> kv \<Rightarrow> kv \<times> (lease_error + unit)" where
  "kv_release leaseHash identity now s =
     (case check_hash leaseHash of
        Some e \<Rightarrow> (s, Inl (ErrInvalid e))
      | None \<Rightarrow> write_with (release_document leaseHash identity (norm_time now)) s)"

definition kv_get :: "string list \<Rightarrow> instant \<Rightarrow> kv \<Rightarrow> kv \<times> (lease_error + lease dict)" where
  "kv_get ids now s =
     (if ids = [] then (s, Inr [])
      else read_with (\<lambda>d. fold (\<lambda>i out.
        case dict_get (dc_leases d) i of
          None \<Rightarrow> out
        | Some l \<Rightarrow> if stored_live (norm_time now) l then dict_set i ((to_lease i l)\<lparr>le_hash := []\<rparr>) out else out)
        ids []) s)"

definition kv_list_by_holder :: "string \<Rightarrow> instant \<Rightarrow> kv \<Rightarrow> kv \<times> (lease_error + lease list)" where
  "kv_list_by_holder identity now s =
     (case read_with (\<lambda>d. map (\<lambda>(i, l). to_lease i l)
          (filter (\<lambda>(i, l). sl_identity l = identity \<and> stored_live (norm_time now) l) (dc_leases d))) s of
        (s1, Inl e) \<Rightarrow> (s1, Inl e)
      | (s1, Inr out) \<Rightarrow> (s1, Inr (sort_key (\<lambda>l. (le_since l, le_id l)) out)))"

definition earlier_expiry :: "instant \<Rightarrow> stored_lease \<Rightarrow> instant option \<Rightarrow> instant option" where
  "earlier_expiry now l best =
     (if stored_live now l \<and> (case best of None \<Rightarrow> True | Some t \<Rightarrow> sl_expires l < t)
      then Some (sl_expires l) else best)"

definition kv_next_expiry :: "instant \<Rightarrow> kv \<Rightarrow> kv \<times> (lease_error + instant option)" where
  "kv_next_expiry now s =
     read_with (\<lambda>d. fold (\<lambda>(i, l). earlier_expiry (norm_time now) l) (dc_leases d) None) s"

definition kv_rekey :: "string \<Rightarrow> string \<Rightarrow> instant \<Rightarrow> kv \<Rightarrow> kv \<times> (lease_error + unit)" where
  "kv_rekey from_id to_id now s =
     (if from_id = [] \<or> to_id = [] then (s, Inl (ErrInvalid EmptyEntityId))
      else if from_id = to_id then (s, Inr ())
      else write_with (rekey_document from_id to_id (norm_time now)) s)"

definition kv_drop :: "string \<Rightarrow> instant \<Rightarrow> kv \<Rightarrow> kv \<times> (lease_error + unit)" where
  "kv_drop i now s = write_with (drop_document i (norm_time now)) s"

text \<open>\<open>Version\<close>; \<open>lockVersion\<close> is set on windows, where the read takes the lock.\<close>

definition kv_read_version :: "bool \<Rightarrow> kv \<Rightarrow> kv \<times> (lease_error + u64)" where
  "kv_read_version lockVersion s =
     (let f = next_faults s; s0 = used_faults s in
      if lockVersion \<and> ft_lock f then (s0, Inl (Backend LockFailed))
      else (s0, read_version_key f s0))"

end
