(* ===== verification/Lease_Spec.thy ===== *)
theory Lease_Spec
  imports Lease_KV
begin

text \<open>
  What one method of the lease store does to the leases, as a finite map from entity ids. The
  invariant says that ids and hashes are unique, that every text survives the JSON encoding, that
  times have the stored precision and that both caps hold; every method keeps it whatever fails.
\<close>

section \<open>Encoding keeps a clean document\<close>

lemma json_text_valid: "utf8_valid s \<Longrightarrow> json_text s = s"
proof (induction s rule: json_text.induct)
  case (1 s)
  show ?case
  proof (cases "s = []")
    case True
    then show ?thesis by (simp add: json_text.simps)
  next
    case False
    with 1(3) have w: "rune_width s \<noteq> 0" "utf8_valid (drop (rune_width s) s)"
      by (metis utf8_valid.simps)+
    with False 1(2) have "json_text (drop (rune_width s) s) = drop (rune_width s) s" by blast
    with False w show ?thesis by (subst json_text.simps) simp
  qed
qed

definition lease_text_ok :: "string \<Rightarrow> stored_lease \<Rightarrow> bool" where
  "lease_text_ok i l \<longleftrightarrow> utf8_valid i \<and> utf8_valid (sl_identity l) \<and> utf8_valid (sl_user l) \<and>
     utf8_valid (sl_tool l) \<and> utf8_valid (sl_label l) \<and> utf8_valid (sl_hash l) \<and> utf8_valid (sl_status l)"

lemma json_stored_id: "lease_text_ok i l \<Longrightarrow> json_text i = i \<and> json_stored l = l"
  by (simp add: lease_text_ok_def json_stored_def json_text_valid)

lemma update_new: "k \<notin> fst ` set m \<Longrightarrow> AList.update k v m = m @ [(k, v)]"
  by (induction m) auto

lemma fold_set_new:
  assumes "dict_ok (acc @ m)" "\<forall>(i, l) \<in> set m. json_text i = i \<and> json_stored l = l"
  shows "fold (\<lambda>(i, s). dict_set (json_text i) (json_stored s)) m acc = acc @ m"
  using assms
proof (induction m arbitrary: acc)
  case (Cons x m)
  obtain i l where x: "x = (i, l)" by (cases x) blast
  have "dict_set i l acc = acc @ [x]"
    using Cons.prems(1) by (simp add: x update_new dict_ok_def)
  then show ?case using Cons.IH [of "acc @ [x]"] Cons.prems by (simp add: x)
qed simp

lemma json_leases_sort:
  assumes "dict_ok m" "\<forall>(i, l) \<in> set m. lease_text_ok i l"
  shows "json_leases m = sort_key fst m"
proof -
  have "distinct (map fst (sort_key fst m))"
    using assms(1) by (simp add: dict_ok_def distinct_map)
  moreover have "\<forall>(i, l) \<in> set (sort_key fst m). json_text i = i \<and> json_stored l = l"
    using assms(2) json_stored_id by auto
  ultimately show ?thesis
    using fold_set_new [of "[]" "sort_key fst m"] by (simp add: json_leases_def dict_ok_def)
qed

section \<open>The invariant\<close>

definition held_by :: "string \<Rightarrow> (string \<rightharpoonup> stored_lease) \<Rightarrow> string set" where
  "held_by x m = {i. \<exists>l. m i = Some l \<and> sl_identity l = x}"

definition map_ok :: "(string \<rightharpoonup> stored_lease) \<Rightarrow> bool" where
  "map_ok m \<longleftrightarrow>
     finite (dom m) \<and>
     (\<forall>i l. m i = Some l \<longrightarrow> lease_text_ok i l \<and> norm_time (sl_since l) = sl_since l \<and>
        norm_time (sl_expires l) = sl_expires l) \<and>
     (\<forall>i j l k. m i = Some l \<longrightarrow> m j = Some k \<longrightarrow> sl_hash l = sl_hash k \<longrightarrow> i = j) \<and>
     card (dom m) \<le> MaxPerStore \<and> (\<forall>x. card (held_by x m) \<le> MaxPerIdentity)"

definition leases_ok :: "stored_lease dict \<Rightarrow> bool" where
  "leases_ok ls \<longleftrightarrow> dict_ok ls \<and> map_ok (map_of ls)"

definition kv_map :: "kv \<Rightarrow> string \<rightharpoonup> stored_lease" where
  "kv_map s = (case kv_document s of Document d \<Rightarrow> map_of (dc_leases d) | _ \<Rightarrow> Map.empty)"

definition kv_ok :: "kv \<Rightarrow> bool" where
  "kv_ok s \<longleftrightarrow> (case kv_document s of Document d \<Rightarrow> leases_ok (dc_leases d) | _ \<Rightarrow> True)"

lemma held_by_dom: "held_by x m \<subseteq> dom m"
  by (auto simp: held_by_def)

lemma map_ok_empty [simp]: "map_ok Map.empty"
  by (simp add: map_ok_def held_by_def)

lemma leases_ok_Nil [simp]: "leases_ok []"
  by (simp add: leases_ok_def)

lemma map_ok_sub:
  assumes "map_ok m" "n \<subseteq>\<^sub>m m"
  shows "map_ok n"
proof -
  have d: "dom n \<subseteq> dom m" using assms(2) by (rule map_le_implies_dom_le)
  have fin: "finite (dom m)" using assms(1) by (simp add: map_ok_def)
  have sub: "n i = Some l \<Longrightarrow> m i = Some l" for i l using assms(2) by (metis domI map_le_def)
  have h: "held_by x n \<subseteq> held_by x m" for x using sub by (auto simp: held_by_def)
  have "card (held_by x n) \<le> MaxPerIdentity" for x
    using card_mono [OF finite_subset [OF held_by_dom fin] h] assms(1) order_trans
    unfolding map_ok_def by blast
  moreover have "card (dom n) \<le> MaxPerStore"
    using card_mono [OF fin d] assms(1) by (simp add: map_ok_def)
  ultimately show ?thesis
    using assms(1) finite_subset [OF d fin] sub unfolding map_ok_def by blast
qed

lemma held_by_insert: "held_by x (m(i \<mapsto> l)) \<subseteq> (if sl_identity l = x then insert i (held_by x m) else held_by x m)"
  by (auto simp: held_by_def)

lemma map_ok_insert:
  assumes "map_ok m" "lease_text_ok i l" "norm_time (sl_since l) = sl_since l" "norm_time (sl_expires l) = sl_expires l"
    and fresh: "\<And>j k. j \<noteq> i \<Longrightarrow> m j = Some k \<Longrightarrow> sl_hash k \<noteq> sl_hash l"
    and room: "card (dom m) < MaxPerStore" "card (held_by (sl_identity l) m) < MaxPerIdentity"
  shows "map_ok (m(i \<mapsto> l))"
proof -
  have fin: "finite (dom m)" using assms(1) by (simp add: map_ok_def)
  have finh: "finite (held_by x m)" for x using finite_subset [OF held_by_dom fin] .
  have "card (dom (m(i \<mapsto> l))) \<le> MaxPerStore"
    using card_insert_le_m1 [of MaxPerStore "dom m" i] room(1) fin
    by (simp add: card_insert_if)
  moreover have "card (held_by x (m(i \<mapsto> l))) \<le> MaxPerIdentity" for x
  proof (cases "sl_identity l = x")
    case True
    have "card (held_by x (m(i \<mapsto> l))) \<le> card (insert i (held_by x m))"
      using held_by_insert [of x m i l] finh True by (intro card_mono) auto
    also have "\<dots> \<le> MaxPerIdentity" using room(2) finh True by (simp add: card_insert_if)
    finally show ?thesis .
  next
    case False
    then have "card (held_by x (m(i \<mapsto> l))) \<le> card (held_by x m)"
      using held_by_insert [of x m i l] finh by (intro card_mono) auto
    then show ?thesis using assms(1) order_trans unfolding map_ok_def by blast
  qed
  moreover have "m a = Some k \<Longrightarrow> m b = Some k' \<Longrightarrow> sl_hash k = sl_hash k' \<Longrightarrow> a = b" for a b k k'
    using assms(1) unfolding map_ok_def by blast
  then have "a = b" if "(m(i \<mapsto> l)) a = Some k" "(m(i \<mapsto> l)) b = Some k'" "sl_hash k = sl_hash k'" for a b k k'
    using that fresh [of a k] fresh [of b k'] by (auto split: if_splits)
  moreover have "lease_text_ok j k \<and> norm_time (sl_since k) = sl_since k \<and> norm_time (sl_expires k) = sl_expires k"
    if "(m(i \<mapsto> l)) j = Some k" for j k
    using that assms(1-4) unfolding map_ok_def by (auto split: if_splits)
  ultimately show ?thesis using fin unfolding map_ok_def by (simp del: fun_upd_apply)
qed

text \<open>A lease that replaces one of the same holder: nothing else changes.\<close>

lemma map_ok_replace:
  assumes m: "map_ok m" and k: "m j = Some k"
    and l: "lease_text_ok i l" "norm_time (sl_since l) = sl_since l" "norm_time (sl_expires l) = sl_expires l"
    and same: "sl_hash l = sl_hash k" "sl_identity l = sl_identity k"
  shows "map_ok ((m(j := None))(i \<mapsto> l))"
proof -
  let ?n = "m(j := None, i := None)"
  have le: "?n \<subseteq>\<^sub>m m" by (auto simp: map_le_def)
  have fin: "finite (dom m)" using m by (simp add: map_ok_def)
  have lt: "A \<subset> B \<Longrightarrow> finite B \<Longrightarrow> card A < card B" for A B :: "string set" by (rule psubset_card_mono)
  have "card (dom ?n) < card (dom m)" using k by (intro lt) (auto simp: fin)
  moreover have "card (held_by (sl_identity l) ?n) < card (held_by (sl_identity l) m)"
    using k same by (intro lt finite_subset [OF held_by_dom fin]) (auto simp: held_by_def)
  moreover have "card (dom m) \<le> MaxPerStore" "card (held_by (sl_identity l) m) \<le> MaxPerIdentity"
    using m by (simp_all add: map_ok_def)
  moreover have "sl_hash k' \<noteq> sl_hash l" if "?n a = Some k'" for a k'
    using that m k same unfolding map_ok_def by (auto split: if_splits)
  ultimately have "map_ok (?n(i \<mapsto> l))"
    using map_ok_sub [OF m le] l by (intro map_ok_insert) (auto simp del: fun_upd_apply)
  then show ?thesis by (simp add: fun_upd_twist)
qed

section \<open>Load, flush, read and write\<close>

lemma map_of_sort: "dict_ok m \<Longrightarrow> map_of (sort_key fst m) = map_of m"
  by (rule map_of_inject_set [THEN iffD2]) (auto simp: dict_ok_def distinct_map)

lemma leases_ok_json:
  assumes "leases_ok m"
  shows "leases_ok (json_leases m)" and "map_of (json_leases m) = map_of m"
proof -
  have d: "dict_ok m" and t: "\<forall>(i, l) \<in> set m. lease_text_ok i l"
    using assms by (auto simp: leases_ok_def map_ok_def dict_ok_def)
  have j: "json_leases m = sort_key fst m" using json_leases_sort [OF d t] .
  show "map_of (json_leases m) = map_of m" using map_of_sort [OF d] by (simp add: j)
  then show "leases_ok (json_leases m)"
    using assms d by (simp add: j leases_ok_def dict_ok_def distinct_map)
qed

lemma flush_cases:
  assumes "leases_ok (dc_leases d)" "flush f d c s = (s', r)"
  shows "(\<exists>e. r = Inl (Backend e) \<and> s' = s) \<or>
    (\<exists>d2. r = Inr d2 \<and> dc_leases d2 = dc_leases d \<and> dc_token d2 = dc_token d \<and> kv_ok s' \<and>
       kv_map s' = map_of (dc_leases d) \<and> kv_faults s' = kv_faults s)"
  using assms leases_ok_json [OF assms(1)]
  by (auto simp: flush_def json_document_def Let_def kv_ok_def kv_map_def split: if_splits)

lemma load_cases:
  assumes "kv_ok s" "load f s = (s', r)"
  shows "kv_ok s' \<and> kv_map s' = kv_map s \<and> kv_faults s' = kv_faults s \<and>
    ((\<exists>e. r = Inl (Backend e)) \<or> (\<exists>d. r = Inr d \<and> leases_ok (dc_leases d) \<and> map_of (dc_leases d) = kv_map s))"
proof (cases "ft_document f \<or> kv_document s \<noteq> DamagedDocument")
  case True
  then show ?thesis
    using assms by (auto simp: load_def parse_document_def Let_def kv_ok_def kv_map_def empty_document_def
        split: slot.splits if_splits)
next
  case False
  let ?d = "empty_document\<lparr>dc_version_key := (case read_version_key f s of Inl e \<Rightarrow> 0 | Inr v \<Rightarrow> v),
    dc_token := max 0 (case read_version_key f s of Inl e \<Rightarrow> 0 | Inr v \<Rightarrow> v)\<rparr>"
  have l: "dc_leases ?d = []" by (simp add: empty_document_def)
  have fl: "flush (ft_reset f) ?d Visible s = (s', r)"
    using False assms(2) by (simp add: load_def parse_document_def Let_def empty_document_def)
  have "kv_map s = Map.empty" using False by (simp add: kv_map_def)
  then show ?thesis
    using flush_cases [OF _ fl] assms(1) unfolding l by auto
qed

lemma read_cases:
  assumes "kv_ok s" "read_with fn s = (s', r)"
  shows "kv_ok s' \<and> kv_map s' = kv_map s \<and>
    ((\<exists>e. r = Inl (Backend e)) \<or>
     (\<exists>d. leases_ok (dc_leases d) \<and> map_of (dc_leases d) = kv_map s \<and> r = Inr (fn d)))"
proof -
  let ?u = "used_faults s"
  have u: "kv_ok ?u" "kv_map ?u = kv_map s" using assms(1) by (simp_all add: kv_ok_def kv_map_def used_faults_def)
  obtain s1 r1 where l: "load (next_faults s) ?u = (s1, r1)" by fastforce
  show ?thesis
    using assms(2) load_cases [OF u(1) l] u by (auto simp: read_with_def Let_def l split: if_splits)
qed

text \<open>
  A writing method either fails in the backend and leaves the leases alone, or does to them what its
  step does to the document.
\<close>

lemma write_cases:
  assumes "kv_ok s" "write_with fn s = (s', r)"
    and step: "\<And>d d' c q. leases_ok (dc_leases d) \<Longrightarrow> map_of (dc_leases d) = kv_map s \<Longrightarrow> fn d = (d', c, q) \<Longrightarrow>
      leases_ok (dc_leases d') \<and> (c = Unchanged \<longrightarrow> map_of (dc_leases d') = kv_map s)"
  shows "kv_ok s' \<and>
    ((\<exists>e. r = Inl (Backend e)) \<and> kv_map s' = kv_map s \<or>
     (\<exists>d d' c. leases_ok (dc_leases d) \<and> map_of (dc_leases d) = kv_map s \<and> fn d = (d', c, r) \<and>
        kv_map s' = map_of (dc_leases d')))"
proof -
  let ?u = "used_faults s"
  have u: "kv_ok ?u" "kv_map ?u = kv_map s" using assms(1) by (simp_all add: kv_ok_def kv_map_def used_faults_def)
  obtain s1 r1 where l: "load (next_faults s) ?u = (s1, r1)" by fastforce
  note lc = load_cases [OF u(1) l]
  show ?thesis
  proof (cases "ft_lock (next_faults s) \<or> (\<exists>e. r1 = Inl e)")
    case True
    then show ?thesis using assms(2) lc u by (auto simp: write_with_def Let_def l split: if_splits)
  next
    case False
    then obtain d where d: "r1 = Inr d" "leases_ok (dc_leases d)" "map_of (dc_leases d) = kv_map s"
      using lc u by auto
    obtain d' c q where fn: "fn d = (d', c, q)" by (cases "fn d") auto
    note st = step [OF d(2,3) fn]
    obtain s2 r2 where fl: "flush (ft_write (next_faults s)) d' c s1 = (s2, r2)" by fastforce
    have fc: "(\<exists>e. r2 = Inl (Backend e) \<and> s2 = s1) \<or>
        (\<exists>d2. r2 = Inr d2 \<and> kv_ok s2 \<and> kv_map s2 = map_of (dc_leases d'))"
      using flush_cases [OF conjunct1 [OF st] fl] by auto
    have w: "(c = Unchanged \<longrightarrow> s' = s1 \<and> r = q) \<and>
        (c \<noteq> Unchanged \<longrightarrow> (s', r) = (case r2 of Inl e \<Rightarrow> (s2, Inl e) | Inr x \<Rightarrow> (s2, q)))"
      using assms(2) False fl by (auto simp: write_with_def Let_def l d(1) fn split: if_splits sum.splits)
    show ?thesis
    proof (cases "c = Unchanged")
      case True
      then show ?thesis using w st d fn lc u by auto
    next
      case c: False
      from fc show ?thesis
      proof
        assume "\<exists>e. r2 = Inl (Backend e) \<and> s2 = s1"
        then show ?thesis using w c lc u by auto
      next
        assume "\<exists>d2. r2 = Inr d2 \<and> kv_ok s2 \<and> kv_map s2 = map_of (dc_leases d')"
        then show ?thesis using w c d fn by auto
      qed
    qed
  qed
qed

section \<open>The abstract store\<close>

text \<open>
  The contract of \<open>lease.Store\<close> on a finite map: what each method answers and what it leaves. The
  token of a claim and of a rekey is a parameter; the section on tokens says which one it is.
\<close>

type_synonym lease_book = "string \<rightharpoonup> stored_lease"

definition live_book :: "instant \<Rightarrow> lease_book \<Rightarrow> lease_book" where
  "live_book t m = (\<lambda>i. case m i of None \<Rightarrow> None | Some l \<Rightarrow> if stored_live t l then Some l else None)"

definition shown :: "string \<Rightarrow> stored_lease \<Rightarrow> lease" where
  "shown i l = (to_lease i l)\<lparr>le_hash := []\<rparr>"

text \<open>The live lease with a hash that an identity holds.\<close>

definition own_lease :: "string \<Rightarrow> string \<Rightarrow> instant \<Rightarrow> lease_book \<Rightarrow> string \<Rightarrow> stored_lease \<Rightarrow> bool" where
  "own_lease h x t m i l \<longleftrightarrow> m i = Some l \<and> sl_hash l = h \<and> sl_identity l = x \<and> stored_live t l"

inductive claim_book ::
  "string \<Rightarrow> holder \<Rightarrow> string \<Rightarrow> instant \<Rightarrow> instant \<Rightarrow> string \<Rightarrow> lease_book \<Rightarrow> lease_book \<Rightarrow> lease_error + lease \<Rightarrow> bool"
  for i h k now until status m where
    held: "live_book now m i = Some l \<Longrightarrow>
      claim_book i h k now until status m (live_book now m) (Inl (Held (shown i l)))"
  | in_use: "live_book now m i = None \<Longrightarrow> live_book now m j = Some l \<Longrightarrow> sl_hash l = k \<Longrightarrow>
      claim_book i h k now until status m (live_book now m) (Inl (ErrInvalid HashInUse))"
  | full: "live_book now m i = None \<Longrightarrow> card (dom (live_book now m)) = MaxPerStore \<Longrightarrow>
      claim_book i h k now until status m (live_book now m) (Inl ErrFull)"
  | limit: "live_book now m i = None \<Longrightarrow> card (dom (live_book now m)) < MaxPerStore \<Longrightarrow>
      card (held_by (ho_identity h) (live_book now m)) = MaxPerIdentity \<Longrightarrow>
      claim_book i h k now until status m (live_book now m) (Inl ErrLimit)"
  | claimed: "live_book now m i = None \<Longrightarrow> (\<And>j l. live_book now m j = Some l \<Longrightarrow> sl_hash l \<noteq> k) \<Longrightarrow>
      card (dom (live_book now m)) < MaxPerStore \<Longrightarrow>
      card (held_by (ho_identity h) (live_book now m)) < MaxPerIdentity \<Longrightarrow>
      l = \<lparr>sl_identity = ho_identity h, sl_user = ho_user h, sl_tool = ho_tool h, sl_label = ho_label h,
           sl_hash = k, sl_token = tok, sl_since = now, sl_expires = until, sl_status = status\<rparr> \<Longrightarrow>
      claim_book i h k now until status m ((live_book now m)(i \<mapsto> l)) (Inr (to_lease i l))"

inductive renew_book ::
  "string \<Rightarrow> string \<Rightarrow> instant \<Rightarrow> instant \<Rightarrow> string option \<Rightarrow> lease_book \<Rightarrow> lease_book \<Rightarrow> lease_error + lease \<Rightarrow> bool"
  for k x now until status m where
    lost: "\<forall>i l. \<not> own_lease k x now m i l \<Longrightarrow> renew_book k x now until status m (live_book now m) (Inl ErrLost)"
  | renewed: "own_lease k x now m i l \<Longrightarrow>
      l' = l\<lparr>sl_expires := until, sl_status := (case status of None \<Rightarrow> sl_status l | Some t \<Rightarrow> t)\<rparr> \<Longrightarrow>
      renew_book k x now until status m ((live_book now m)(i \<mapsto> l')) (Inr (to_lease i l'))"

inductive release_book :: "string \<Rightarrow> string \<Rightarrow> instant \<Rightarrow> lease_book \<Rightarrow> lease_book \<Rightarrow> bool"
  for k x now m where
    absent: "\<forall>i l. \<not> own_lease k x now m i l \<Longrightarrow> release_book k x now m (live_book now m)"
  | released: "own_lease k x now m i l \<Longrightarrow> release_book k x now m ((live_book now m)(i := None))"

text \<open>A rename and a delete act on the one lease and prune nothing else.\<close>

inductive rekey_book :: "string \<Rightarrow> string \<Rightarrow> instant \<Rightarrow> lease_book \<Rightarrow> lease_book \<Rightarrow> bool"
  for from_id to_id now m where
    unleased: "m from_id = None \<Longrightarrow> rekey_book from_id to_id now m m"
  | expired: "m from_id = Some l \<Longrightarrow> \<not> stored_live now l \<Longrightarrow> rekey_book from_id to_id now m (m(from_id := None))"
  | target_held: "m from_id = Some l \<Longrightarrow> stored_live now l \<Longrightarrow> m to_id = Some cur \<Longrightarrow> stored_live now cur \<Longrightarrow>
      rekey_book from_id to_id now m (m(from_id := None))"
  | moved: "m from_id = Some l \<Longrightarrow> stored_live now l \<Longrightarrow> live_book now m to_id = None \<Longrightarrow>
      rekey_book from_id to_id now m ((m(from_id := None))(to_id \<mapsto> l\<lparr>sl_token := tok\<rparr>))"

section \<open>Lookups in a document\<close>

lemma live_book_le: "live_book t m \<subseteq>\<^sub>m m"
  by (auto simp: live_book_def map_le_def split: option.splits if_splits)

lemma live_book_Some: "live_book t m i = Some l \<longleftrightarrow> m i = Some l \<and> stored_live t l"
  by (auto simp: live_book_def split: option.splits if_splits)

lemma live_book_None: "live_book t m i = None \<longleftrightarrow> (\<forall>l. m i = Some l \<longrightarrow> \<not> stored_live t l)"
  by (auto simp: live_book_def split: option.splits)

lemma map_of_filter_live:
  assumes "dict_ok m"
  shows "map_of (filter (\<lambda>(i, l). stored_live t l) m) = live_book t (map_of m)"
proof -
  have "dict_ok (filter (\<lambda>(i, l). stored_live t l) m)"
    using assms by (simp add: dict_ok_def distinct_map_filter)
  then have "map_of (filter (\<lambda>(i, l). stored_live t l) m) i = Some l \<longleftrightarrow> live_book t (map_of m) i = Some l" for i l
    using assms by (simp add: dict_in_get [symmetric] live_book_Some)
  then show ?thesis by (intro ext) (metis option.exhaust)
qed

lemma filter_same: "length (filter P xs) = length xs \<Longrightarrow> filter P xs = xs"
  by (metis filter_True length_filter_less less_irrefl)

lemma prune_cases:
  assumes "leases_ok (dc_leases d)" "prune now d = (d', c)"
  shows "leases_ok (dc_leases d') \<and> map_of (dc_leases d') = live_book now (map_of (dc_leases d)) \<and>
    dc_token d' = dc_token d \<and> (c = Unchanged \<longrightarrow> dc_leases d' = dc_leases d) \<and> c \<noteq> Visible"
proof -
  let ?P = "\<lambda>(i, l). stored_live now l"
  have d: "dict_ok (dc_leases d)" "map_ok (map_of (dc_leases d))" using assms(1) by (simp_all add: leases_ok_def)
  have d': "d' = d\<lparr>dc_leases := filter ?P (dc_leases d)\<rparr>"
    and c: "c = (if length (filter ?P (dc_leases d)) \<noteq> length (dc_leases d) then Quiet else Unchanged)"
    using assms(2) by (simp_all add: prune_def Let_def)
  have "leases_ok (filter ?P (dc_leases d))"
    using d map_ok_sub [OF d(2) live_book_le] map_of_filter_live [OF d(1)]
    by (simp add: leases_ok_def dict_ok_def distinct_map_filter)
  moreover have "c = Unchanged \<longrightarrow> filter ?P (dc_leases d) = dc_leases d"
    using filter_same [of ?P "dc_leases d"] by (auto simp: c split: if_splits)
  moreover have "c \<noteq> Visible" by (simp add: c)
  ultimately show ?thesis using map_of_filter_live [OF d(1)] unfolding d' by simp
qed

lemma dict_card: "dict_ok m \<Longrightarrow> length m = card (dom (map_of m))"
  by (metis dict_ok_def distinct_card dom_map_of_conv_image_fst length_map list.set_map)

lemma dict_held:
  assumes "dict_ok m"
  shows "length (filter (\<lambda>(j, l). sl_identity l = x) m) = card (held_by x (map_of m))"
proof -
  let ?f = "filter (\<lambda>(j, l). sl_identity l = x) m"
  have "distinct (map fst ?f)" using assms by (simp add: dict_ok_def distinct_map_filter)
  then have "length ?f = card (fst ` set ?f)" by (metis distinct_card length_map list.set_map)
  also have "fst ` set ?f = held_by x (map_of m)"
    using assms by (auto simp: held_by_def dict_in_get image_iff)
  finally show ?thesis .
qed

lemma by_hash_Some:
  assumes "leases_ok (dc_leases d)"
  shows "by_hash h d = Some i \<longleftrightarrow> (\<exists>l. map_of (dc_leases d) i = Some l \<and> sl_hash l = h)"
proof -
  have d: "dict_ok (dc_leases d)" using assms by (simp add: leases_ok_def)
  have inj: "map_of (dc_leases d) a = Some l \<Longrightarrow> map_of (dc_leases d) b = Some k \<Longrightarrow> sl_hash l = sl_hash k \<Longrightarrow> a = b"
    for a b l k using assms unfolding leases_ok_def map_ok_def by blast
  show ?thesis
  proof (cases "find (\<lambda>(i, l). sl_hash l = h) (dc_leases d)")
    case None
    then show ?thesis by (simp add: by_hash_def) (auto simp: find_None_iff dest: map_of_SomeD)
  next
    case (Some x)
    obtain a l where x: "x = (a, l)" by (cases x)
    have "x \<in> set (dc_leases d)" "sl_hash l = h"
      using Some unfolding x find_Some_iff by (metis nth_mem, auto)
    with x d have x: "x = (a, l)" "map_of (dc_leases d) a = Some l" "sl_hash l = h"
      by (simp_all add: dict_in_get [symmetric])
    then show ?thesis using inj Some by (auto simp: by_hash_def)
  qed
qed

lemma live_for_Some:
  assumes "leases_ok (dc_leases d)"
  shows "live_for h x now d = Some (i, l) \<longleftrightarrow> own_lease h x now (map_of (dc_leases d)) i l"
proof (cases "by_hash h d")
  case None
  then show ?thesis
    using by_hash_Some [OF assms, of h i] by (auto simp: live_for_def own_lease_def)
next
  case (Some a)
  then have "\<exists>k. map_of (dc_leases d) a = Some k \<and> sl_hash k = h" by (simp add: by_hash_Some [OF assms])
  moreover have "own_lease h x now (map_of (dc_leases d)) i l \<Longrightarrow> i = a"
    using Some by_hash_Some [OF assms, of h i] by (auto simp: own_lease_def)
  ultimately show ?thesis
    using Some by (auto simp: live_for_def own_lease_def split: if_splits)
qed

lemma live_for_None:
  "leases_ok (dc_leases d) \<Longrightarrow> live_for h x now d = None \<longleftrightarrow> (\<forall>i l. \<not> own_lease h x now (map_of (dc_leases d)) i l)"
  by (metis live_for_Some option.exhaust option.distinct(1) surj_pair)

lemma own_lease_live: "own_lease h x now (live_book now m) i l \<longleftrightarrow> own_lease h x now m i l"
  by (auto simp: own_lease_def live_book_Some)

section \<open>Each step is a step of the abstract store\<close>

lemma map_of_set: "map_of (dict_set i l m) = (map_of m)(i \<mapsto> l)"
  by (rule update_conv')

lemma map_of_del: "map_of (dict_del i m) = (map_of m)(i := None)"
  by (simp add: delete_conv' fun_eq_iff)

lemma leases_ok_del: "leases_ok m \<Longrightarrow> leases_ok (dict_del i m)"
  using map_ok_sub [of "map_of m" "(map_of m)(i := None)"]
  by (auto simp: leases_ok_def map_of_del map_le_def)

lemma leases_ok_replace:
  assumes "leases_ok m" "map_of m j = Some k"
    "lease_text_ok i l" "norm_time (sl_since l) = sl_since l" "norm_time (sl_expires l) = sl_expires l"
    "sl_hash l = sl_hash k" "sl_identity l = sl_identity k"
  shows "leases_ok (dict_set i l (dict_del j m))"
  using assms map_ok_replace [of "map_of m" j k i l]
  by (simp add: leases_ok_def map_of_set map_of_del)

lemma map_ok_entry:
  assumes "map_ok m" "m i = Some l"
  shows "lease_text_ok i l" "norm_time (sl_since l) = sl_since l" "norm_time (sl_expires l) = sl_expires l"
  using assms unfolding map_ok_def by blast+

text \<open>What a claim must bring: an id and a holder whose texts survive the encoding.\<close>

definition holder_text_ok :: "string \<Rightarrow> holder \<Rightarrow> bool" where
  "holder_text_ok i h \<longleftrightarrow> utf8_valid i \<and> utf8_valid (ho_identity h) \<and> utf8_valid (ho_user h) \<and>
     utf8_valid (ho_tool h)"

lemma claim_step:
  assumes "leases_ok (dc_leases d)" "check_claim i h k now until status = None" "holder_text_ok i h"
    and c: "claim_document i h k (norm_time now) (norm_time until) status d = (d', c, r)"
  shows "leases_ok (dc_leases d') \<and> (c = Unchanged \<longrightarrow> map_of (dc_leases d') = map_of (dc_leases d)) \<and>
    claim_book i h k (norm_time now) (norm_time until) status (map_of (dc_leases d)) (map_of (dc_leases d')) r"
proof -
  obtain d1 p where pr: "prune (norm_time now) d = (d1, p)" by fastforce
  note pc = prune_cases [OF assms(1) pr]
  let ?m = "map_of (dc_leases d)" and ?n = "map_of (dc_leases d1)"
  have ok: "leases_ok (dc_leases d1)" and n: "?n = live_book (norm_time now) ?m" using pc by auto
  have dok: "dict_ok (dc_leases d1)" and mok: "map_ok ?n" using ok by (simp_all add: leases_ok_def)
  have store: "length (dc_leases d1) = card (dom ?n)" "card (dom ?n) \<le> MaxPerStore"
    using dict_card [OF dok] mok by (auto simp: map_ok_def)
  have own: "length (filter (\<lambda>(j, l). sl_identity l = ho_identity h) (dc_leases d1)) = card (held_by (ho_identity h) ?n)"
    "card (held_by (ho_identity h) ?n) \<le> MaxPerIdentity"
    using dict_held [OF dok] mok by (auto simp: map_ok_def)
  let ?book = "claim_book i h k (norm_time now) (norm_time until) status ?m"
  have refused: ?thesis if "d' = d1" "c = p" "?book ?n r"
    using that pc by auto
  show ?thesis
  proof (cases "?n i")
    case (Some cur)
    then have "d' = d1" "c = p" "r = Inl (Held (shown i cur))"
      using c by (simp_all add: claim_document_def pr shown_def)
    then show ?thesis using Some claim_book.held [of "norm_time now" ?m i cur]
      by (intro refused) (simp_all add: n)
  next
    case free: None
    show ?thesis
    proof (cases "by_hash k d1")
      case (Some j)
      then obtain l where "?n j = Some l" "sl_hash l = k" by (auto simp: by_hash_Some [OF ok])
      moreover have "d' = d1" "c = p" "r = Inl (ErrInvalid HashInUse)"
        using c free Some by (simp_all add: claim_document_def pr)
      ultimately show ?thesis using free claim_book.in_use [of "norm_time now" ?m i j l k]
        by (intro refused) (simp_all add: n)
    next
      case fresh: None
      then have hash: "\<And>j l. ?n j = Some l \<Longrightarrow> sl_hash l \<noteq> k"
        using by_hash_Some [OF ok, of k] by (metis not_None_eq)
      consider (full) "card (dom ?n) = MaxPerStore"
        | (limit) "card (dom ?n) < MaxPerStore" "card (held_by (ho_identity h) ?n) = MaxPerIdentity"
        | (room) "card (dom ?n) < MaxPerStore" "card (held_by (ho_identity h) ?n) < MaxPerIdentity"
        using store own by linarith
      then show ?thesis
      proof cases
        case full
        moreover have "d' = d1" "c = p" "r = Inl ErrFull"
          using c free fresh full by (simp_all add: claim_document_def pr store)
        ultimately show ?thesis using free claim_book.full [of "norm_time now" ?m i]
          by (intro refused) (simp_all add: n)
      next
        case limit
        moreover have "d' = d1" "c = p" "r = Inl ErrLimit"
          using c free fresh limit by (simp_all add: claim_document_def pr store own)
        ultimately show ?thesis using free claim_book.limit [of "norm_time now" ?m i h]
          by (intro refused) (simp_all add: n)
      next
        case room
        define tok where "tok = next_token (dc_token d1) (norm_time now)"
        define l where "l = \<lparr>sl_identity = ho_identity h, sl_user = ho_user h, sl_tool = ho_tool h,
          sl_label = ho_label h, sl_hash = k, sl_token = tok, sl_since = norm_time now,
          sl_expires = norm_time until, sl_status = status\<rparr>"
        have res: "d' = d1\<lparr>dc_token := tok, dc_leases := dict_set i l (dc_leases d1)\<rparr>" "c = Visible"
            "r = Inr (to_lease i l)"
          using c free fresh room by (simp_all add: claim_document_def pr store own Let_def l_def tok_def)
        have "lease_text_ok i l"
          using assms(2,3) by (simp add: l_def lease_text_ok_def holder_text_ok_def check_claim_None label_utf8 hash_utf8 status_utf8)
        then have "map_ok (?n(i \<mapsto> l))"
          using mok hash room by (intro map_ok_insert) (auto simp: l_def)
        then have "leases_ok (dc_leases d')" using dok by (simp add: res leases_ok_def map_of_set)
        moreover have "?book (map_of (dc_leases d')) r"
          using claim_book.claimed [of "norm_time now" ?m i k h l tok "norm_time until" status] free hash room
          by (simp add: res map_of_set n l_def)
        ultimately show ?thesis by (simp add: res)
      qed
    qed
  qed
qed

lemma renew_step:
  assumes "leases_ok (dc_leases d)" "check_renew k now until status = None"
    and c: "renew_document k x (norm_time now) (norm_time until) status d = (d', c, r)"
  shows "leases_ok (dc_leases d') \<and> (c = Unchanged \<longrightarrow> map_of (dc_leases d') = map_of (dc_leases d)) \<and>
    renew_book k x (norm_time now) (norm_time until) status (map_of (dc_leases d)) (map_of (dc_leases d')) r"
proof -
  obtain d1 p where pr: "prune (norm_time now) d = (d1, p)" by fastforce
  note pc = prune_cases [OF assms(1) pr]
  let ?m = "map_of (dc_leases d)" and ?n = "map_of (dc_leases d1)"
  have ok: "leases_ok (dc_leases d1)" and n: "?n = live_book (norm_time now) ?m" using pc by auto
  show ?thesis
  proof (cases "live_for k x (norm_time now) d1")
    case None
    then have "\<forall>i l. \<not> own_lease k x (norm_time now) ?m i l"
      using live_for_None [OF ok] n by (simp add: own_lease_live)
    then show ?thesis using c None pc renew_book.lost [of k x "norm_time now" ?m]
      by (auto simp: renew_document_def pr)
  next
    case (Some y)
    then obtain i l where y: "live_for k x (norm_time now) d1 = Some (i, l)" by (cases y) auto
    then have o: "own_lease k x (norm_time now) ?n i l" by (simp add: live_for_Some [OF ok])
    then have own: "own_lease k x (norm_time now) ?m i l" and ni: "?n i = Some l"
      by (simp add: n own_lease_live, simp add: own_lease_def)
    define l' where "l' = l\<lparr>sl_expires := norm_time until, sl_status := (case status of None \<Rightarrow> sl_status l | Some t \<Rightarrow> t)\<rparr>"
    have res: "dc_leases d' = dict_set i l' (dc_leases d1)" "c \<noteq> Unchanged" "r = Inr (to_lease i l')"
      using c by (auto simp: renew_document_def pr y Let_def l'_def split: if_splits)
    have mok: "map_ok ?n" and dok: "dict_ok (dc_leases d1)" using ok by (simp_all add: leases_ok_def)
    note en = map_ok_entry [OF mok ni]
    have "lease_text_ok i l'"
      using en(1) assms(2) by (auto simp: l'_def lease_text_ok_def check_renew_None status_utf8 split: option.splits)
    then have "map_ok ((?n(i := None))(i \<mapsto> l'))"
      using en ni by (intro map_ok_replace [OF mok ni]) (auto simp: l'_def)
    then have "leases_ok (dc_leases d')" using dok by (simp add: res leases_ok_def map_of_set)
    then show ?thesis
      using renew_book.renewed [OF own l'_def] res n by (simp add: map_of_set l'_def)
  qed
qed

lemma release_step:
  assumes "leases_ok (dc_leases d)" "release_document k x now d = (d', c, r)"
  shows "leases_ok (dc_leases d') \<and> (c = Unchanged \<longrightarrow> map_of (dc_leases d') = map_of (dc_leases d)) \<and>
    release_book k x now (map_of (dc_leases d)) (map_of (dc_leases d')) \<and> r = Inr ()"
proof -
  obtain d1 p where pr: "prune now d = (d1, p)" by fastforce
  note pc = prune_cases [OF assms(1) pr]
  let ?m = "map_of (dc_leases d)" and ?n = "map_of (dc_leases d1)"
  have ok: "leases_ok (dc_leases d1)" and n: "?n = live_book now ?m" using pc by auto
  show ?thesis
  proof (cases "live_for k x now d1")
    case None
    then show ?thesis using assms(2) pc live_for_None [OF ok, of k x now] release_book.absent [of k x now ?m]
      by (auto simp: release_document_def pr own_lease_live)
  next
    case (Some y)
    then obtain i l where y: "live_for k x now d1 = Some (i, l)" by (cases y) auto
    then have "own_lease k x now ?m i l" using n by (simp add: live_for_Some [OF ok] own_lease_live)
    then show ?thesis using assms(2) y n leases_ok_del [OF ok, of i] release_book.released [of k x now ?m i l]
      by (auto simp: release_document_def pr map_of_del)
  qed
qed

lemma rekey_step:
  assumes "leases_ok (dc_leases d)" "rekey_document from_id to_id now d = (d', c, r)" "utf8_valid to_id" "from_id \<noteq> to_id"
  shows "leases_ok (dc_leases d') \<and> (c = Unchanged \<longrightarrow> map_of (dc_leases d') = map_of (dc_leases d)) \<and>
    rekey_book from_id to_id now (map_of (dc_leases d)) (map_of (dc_leases d')) \<and> r = Inr ()"
proof (cases "map_of (dc_leases d) from_id")
  case None
  then show ?thesis using assms rekey_book.unleased [of "map_of (dc_leases d)" from_id to_id now]
    by (auto simp: rekey_document_def)
next
  case (Some l)
  let ?m = "map_of (dc_leases d)" and ?del = "dict_del from_id (dc_leases d)"
  have del: "leases_ok ?del" using leases_ok_del [OF assms(1)] .
  have cur: "map_of ?del to_id = ?m to_id" using assms(4) by (simp add: map_of_del)
  consider (expired) "\<not> stored_live now l" | (held) k where "stored_live now l" "?m to_id = Some k" "stored_live now k"
    | (moved) "stored_live now l" "live_book now ?m to_id = None"
    by (cases "live_book now ?m to_id") (auto simp: live_book_Some)
  then show ?thesis
  proof cases
    case expired
    then show ?thesis using assms(2) Some del rekey_book.expired [of ?m from_id l now to_id]
      by (auto simp: rekey_document_def map_of_del)
  next
    case held
    then show ?thesis using assms(2) Some del rekey_book.target_held [of ?m from_id l now to_id k] cur
      by (auto simp: rekey_document_def map_of_del Let_def)
  next
    case moved
    define l' where "l' = l\<lparr>sl_token := next_token (dc_token d) now\<rparr>"
    have res: "dc_leases d' = dict_set to_id l' ?del" "c = Visible" "r = Inr ()"
      using assms(2) Some moved cur
      by (auto simp: rekey_document_def Let_def l'_def live_book_None split: option.splits if_splits)
    have mok: "map_ok ?m" using assms(1) by (simp add: leases_ok_def)
    note en = map_ok_entry [OF mok Some]
    have "leases_ok (dc_leases d')"
      unfolding res using en assms(3)
      by (intro leases_ok_replace [OF assms(1) Some]) (auto simp: l'_def lease_text_ok_def)
    then show ?thesis
      using rekey_book.moved [OF Some moved, of "next_token (dc_token d) now"]
      by (simp add: res map_of_set map_of_del l'_def)
  qed
qed

lemma drop_step:
  assumes "leases_ok (dc_leases d)" "drop_document i now d = (d', c, r)"
  shows "leases_ok (dc_leases d') \<and> (c = Unchanged \<longrightarrow> map_of (dc_leases d') = map_of (dc_leases d)) \<and>
    map_of (dc_leases d') = (map_of (dc_leases d))(i := None) \<and> r = Inr ()"
  using assms leases_ok_del [OF assms(1), of i]
  by (auto simp: drop_document_def map_of_del fun_upd_idem split: option.splits if_splits)

end
