(* ===== verification/Lease_Store.thy ===== *)
theory Lease_Store
  imports Lease_Spec
begin

text \<open>
  The interface \<open>lease.Store\<close> as one operation on calls, its contract as a locale over the abstract
  store, the lemmas a client may use, and the proof that the key-value backend keeps the contract
  whatever fails underneath.
\<close>

section \<open>Calls and replies\<close>

datatype lease_call =
    CClaim string holder string instant instant string
  | CRenew string string instant instant "string option"
  | CLookup string string instant
  | CRelease string string instant
  | CGet "string list" instant
  | CListByHolder string instant
  | CNextExpiry instant
  | CRekey string string instant
  | CDrop string instant

datatype lease_reply = RLease lease | RUnit | RMap "lease dict" | RList "lease list" | RNext "instant option"

fun reply :: "('a \<Rightarrow> lease_reply) \<Rightarrow> 's \<times> (lease_error + 'a) \<Rightarrow> 's \<times> (lease_error + lease_reply)" where
  "reply f (s, Inl e) = (s, Inl e)"
| "reply f (s, Inr x) = (s, Inr (f x))"

fun kv_call :: "lease_call \<Rightarrow> kv \<Rightarrow> kv \<times> (lease_error + lease_reply)" where
  "kv_call (CClaim i h k now until status) s = reply RLease (kv_claim i h k now until status s)"
| "kv_call (CRenew k x now until status) s = reply RLease (kv_renew k x now until status s)"
| "kv_call (CLookup k x now) s = reply RLease (kv_lookup k x now s)"
| "kv_call (CRelease k x now) s = reply (\<lambda>u. RUnit) (kv_release k x now s)"
| "kv_call (CGet ids now) s = reply RMap (kv_get ids now s)"
| "kv_call (CListByHolder x now) s = reply RList (kv_list_by_holder x now s)"
| "kv_call (CNextExpiry now) s = reply RNext (kv_next_expiry now s)"
| "kv_call (CRekey a b now) s = reply (\<lambda>u. RUnit) (kv_rekey a b now s)"
| "kv_call (CDrop i now) s = reply (\<lambda>u. RUnit) (kv_drop i now s)"

text \<open>Ids and holders a caller may pass: text that JSON keeps.\<close>

fun call_text_ok :: "lease_call \<Rightarrow> bool" where
  "call_text_ok (CClaim i h k now until status) \<longleftrightarrow> holder_text_ok i h"
| "call_text_ok (CRekey a b now) \<longleftrightarrow> utf8_valid b"
| "call_text_ok c \<longleftrightarrow> True"

fun call_now :: "lease_call \<Rightarrow> instant" where
  "call_now (CClaim i h k now until status) = now"
| "call_now (CRenew k x now until status) = now"
| "call_now (CLookup k x now) = now"
| "call_now (CRelease k x now) = now"
| "call_now (CGet ids now) = now"
| "call_now (CListByHolder x now) = now"
| "call_now (CNextExpiry now) = now"
| "call_now (CRekey a b now) = now"
| "call_now (CDrop i now) = now"

section \<open>The contract\<close>

definition list_spec :: "string \<Rightarrow> instant \<Rightarrow> lease_book \<Rightarrow> lease list \<Rightarrow> bool" where
  "list_spec x t m out \<longleftrightarrow>
     set out = {to_lease i l |i l. live_book t m i = Some l \<and> sl_identity l = x} \<and> distinct out \<and>
     sorted (map (\<lambda>l. (le_since l, le_id l)) out)"

definition next_spec :: "instant \<Rightarrow> lease_book \<Rightarrow> instant option \<Rightarrow> bool" where
  "next_spec t m n \<longleftrightarrow>
     (case n of None \<Rightarrow> live_book t m = Map.empty
      | Some e \<Rightarrow> e \<in> sl_expires ` ran (live_book t m) \<and> (\<forall>l \<in> ran (live_book t m). e \<le> sl_expires l))"

fun call_spec :: "lease_call \<Rightarrow> lease_book \<Rightarrow> lease_book \<Rightarrow> lease_error + lease_reply \<Rightarrow> bool" where
  "call_spec (CClaim i h k now until status) m m' r \<longleftrightarrow>
     (case check_claim i h k now until status of
        Some e \<Rightarrow> m' = m \<and> r = Inl (ErrInvalid e)
      | None \<Rightarrow> \<exists>q. r = map_sum id RLease q \<and> claim_book i h k (norm_time now) (norm_time until) status m m' q)"
| "call_spec (CRenew k x now until status) m m' r \<longleftrightarrow>
     (case check_renew k now until status of
        Some e \<Rightarrow> m' = m \<and> r = Inl (ErrInvalid e)
      | None \<Rightarrow> \<exists>q. r = map_sum id RLease q \<and> renew_book k x (norm_time now) (norm_time until) status m m' q)"
| "call_spec (CLookup k x now) m m' r \<longleftrightarrow>
     m' = m \<and>
     (case check_hash k of
        Some e \<Rightarrow> r = Inl (ErrInvalid e)
      | None \<Rightarrow> (r = Inl ErrLost \<and> (\<forall>i l. \<not> own_lease k x (norm_time now) m i l)) \<or>
          (\<exists>i l. r = Inr (RLease (to_lease i l)) \<and> own_lease k x (norm_time now) m i l))"
| "call_spec (CRelease k x now) m m' r \<longleftrightarrow>
     (case check_hash k of
        Some e \<Rightarrow> m' = m \<and> r = Inl (ErrInvalid e)
      | None \<Rightarrow> r = Inr RUnit \<and> release_book k x (norm_time now) m m')"
| "call_spec (CGet ids now) m m' r \<longleftrightarrow>
     m' = m \<and> (\<exists>out. r = Inr (RMap out) \<and>
       map_of out = (\<lambda>i. if i \<in> set ids then map_option (shown i) (live_book (norm_time now) m i) else None))"
| "call_spec (CListByHolder x now) m m' r \<longleftrightarrow>
     m' = m \<and> (\<exists>out. r = Inr (RList out) \<and> list_spec x (norm_time now) m out)"
| "call_spec (CNextExpiry now) m m' r \<longleftrightarrow>
     m' = m \<and> (\<exists>n. r = Inr (RNext n) \<and> next_spec (norm_time now) m n)"
| "call_spec (CRekey a b now) m m' r \<longleftrightarrow>
     (if a = [] \<or> b = [] then m' = m \<and> r = Inl (ErrInvalid EmptyEntityId)
      else if a = b then m' = m \<and> r = Inr RUnit
      else r = Inr RUnit \<and> rekey_book a b (norm_time now) m m')"
| "call_spec (CDrop i now) m m' r \<longleftrightarrow> r = Inr RUnit \<and> m' = m(i := None)"

definition backend_failed :: "lease_error + lease_reply \<Rightarrow> bool" where
  "backend_failed r \<longleftrightarrow> (case r of Inl (Backend e) \<Rightarrow> True | _ \<Rightarrow> False)"

locale lease_store =
  fixes call :: "lease_call \<Rightarrow> 's \<Rightarrow> 's \<times> (lease_error + lease_reply)"
    and book :: "'s \<Rightarrow> lease_book"
    and ok :: "'s \<Rightarrow> bool"
  assumes keeps_ok: "ok s \<Longrightarrow> call_text_ok c \<Longrightarrow> call c s = (s', r) \<Longrightarrow> ok s'"
    and refines: "ok s \<Longrightarrow> call_text_ok c \<Longrightarrow> call c s = (s', r) \<Longrightarrow>
      call_spec c (book s) (book s') r \<or> backend_failed r \<and> book s' = book s"
    and book_ok: "ok s \<Longrightarrow> map_ok (book s)"

section \<open>What a client may rely on\<close>

text \<open>The calls that may end or change a lease: a renew or a release by its holder, and the rename and
  delete of its entity.\<close>

fun acts_on :: "lease_call \<Rightarrow> string \<Rightarrow> stored_lease \<Rightarrow> bool" where
  "acts_on (CRenew k x now until status) i l \<longleftrightarrow> k = sl_hash l \<and> x = sl_identity l"
| "acts_on (CRelease k x now) i l \<longleftrightarrow> k = sl_hash l \<and> x = sl_identity l"
| "acts_on (CRekey a b now) i l \<longleftrightarrow> a = i"
| "acts_on (CDrop j now) i l \<longleftrightarrow> j = i"
| "acts_on c i l \<longleftrightarrow> False"

inductive_cases claim_bookE: "claim_book i h k now until status m m' r"
inductive_cases renew_bookE: "renew_book k x now until status m m' r"
inductive_cases release_bookE: "release_book k x now m m'"
inductive_cases rekey_bookE: "rekey_book a b now m m'"
inductive_simps claim_book_Inr: "claim_book i h k now until status m m' (Inr l)"

lemma live_book_of: "m i = Some l \<Longrightarrow> stored_live t l \<Longrightarrow> live_book t m i = Some l"
  by (simp add: live_book_Some)

lemma spec_keeps:
  assumes "call_spec c m m' r" "m i = Some l" "stored_live (norm_time (call_now c)) l" "\<not> acts_on c i l"
  shows "m' i = Some l"
proof (cases c)
  case (CClaim j h k now until status)
  then have "live_book (norm_time now) m i = Some l" using assms(2,3) by (simp add: live_book_of)
  then show ?thesis using assms(1,2) unfolding CClaim
    by (auto split: option.splits elim!: claim_bookE)
next
  case (CRenew k x now until status)
  then have "live_book (norm_time now) m i = Some l" using assms(2,3) by (simp add: live_book_of)
  then show ?thesis using assms(1,2,4) unfolding CRenew
    by (auto split: option.splits elim!: renew_bookE simp: own_lease_def)
next
  case (CRelease k x now)
  then have "live_book (norm_time now) m i = Some l" using assms(2,3) by (simp add: live_book_of)
  then show ?thesis using assms(1,2,4) unfolding CRelease
    by (auto split: option.splits elim!: release_bookE simp: own_lease_def)
next
  case (CRekey a b now)
  then have "live_book (norm_time now) m i = Some l" using assms(2,3) by (simp add: live_book_of)
  then show ?thesis using assms(1,2,4) unfolding CRekey
    by (auto split: if_splits elim!: rekey_bookE)
qed (use assms in auto)

lemma map_ok_hash:
  "map_ok m \<Longrightarrow> m i = Some l \<Longrightarrow> m j = Some k \<Longrightarrow> sl_hash l = sl_hash k \<Longrightarrow> i = j"
  unfolding map_ok_def by blast

text \<open>A holder's renew keeps everything but the expiry and the status.\<close>

lemma spec_renews:
  assumes "call_spec (CRenew k x now until status) m m' r" "own_lease k x (norm_time now) m i l" "map_ok m"
    "check_renew k now until status = None"
  shows "m' i = Some (l\<lparr>sl_expires := norm_time until, sl_status := (case status of None \<Rightarrow> sl_status l | Some t \<Rightarrow> t)\<rparr>)"
proof -
  have same: "j = i \<and> k' = l" if "own_lease k x (norm_time now) m j k'" for j k'
    using that assms(2) map_ok_hash [OF assms(3), of j k' i l] by (auto simp: own_lease_def)
  obtain q where "renew_book k x (norm_time now) (norm_time until) status m m' q"
    using assms(1,4) by auto
  then show ?thesis
    using assms(2) same by (cases rule: renew_book.cases) auto
qed

context lease_store
begin

lemma claim_wins:
  assumes "ok s" "holder_text_ok i h" "call (CClaim i h k now until status) s = (s', Inr (RLease l))"
  shows "live_book (norm_time now) (book s) i = None" and "book s' i = Some x \<Longrightarrow> to_lease i x = l"
    and "\<exists>x. book s' i = Some x"
proof -
  have "call_spec (CClaim i h k now until status) (book s) (book s') (Inr (RLease l))"
    using refines [OF assms(1) _ assms(3)] assms(2) by (simp add: backend_failed_def)
  then obtain q where q: "Inr (RLease l) = map_sum id RLease q"
      "claim_book i h k (norm_time now) (norm_time until) status (book s) (book s') q"
    by (auto split: option.splits)
  then have "q = Inr l" by (cases q) auto
  with q(2) have "claim_book i h k (norm_time now) (norm_time until) status (book s) (book s') (Inr l)" by simp
  then show "live_book (norm_time now) (book s) i = None" and "book s' i = Some x \<Longrightarrow> to_lease i x = l"
      and "\<exists>x. book s' i = Some x"
    by (auto elim!: claim_bookE)
qed

lemma lease_stays:
  assumes "ok s" "call_text_ok c" "call c s = (s', r)" and l: "book s i = Some l" "stored_live (norm_time (call_now c)) l"
    and "\<not> acts_on c i l"
  shows "book s' i = Some l"
proof -
  have "call_spec c (book s) (book s') r \<Longrightarrow> ?thesis"
    by (rule spec_keeps [where m = "book s" and i = i, OF _ l assms(6)])
  then show ?thesis using refines [OF assms(1-3)] l by auto
qed

end

section \<open>The reading methods\<close>

lemma fold_get_spec:
  "map_of (fold (\<lambda>i out. case m i of None \<Rightarrow> out
       | Some l \<Rightarrow> if P l then dict_set i (f i l) out else out) ids out) =
   (\<lambda>i. if i \<in> set ids \<and> (\<exists>l. m i = Some l \<and> P l) then map_option (f i) (m i) else map_of out i)"
proof (induction ids arbitrary: out)
  case (Cons a ids)
  show ?case
    unfolding fold_Cons comp_apply Cons.IH
    by (auto simp: fun_eq_iff map_of_set split: option.splits)
qed simp

lemma earlier_expiry_cases:
  "case earlier_expiry t l best of
     None \<Rightarrow> best = None \<and> \<not> stored_live t l
   | Some e \<Rightarrow> (best = Some e \<or> stored_live t l \<and> e = sl_expires l) \<and> (\<forall>b. best = Some b \<longrightarrow> e \<le> b) \<and>
       (stored_live t l \<longrightarrow> e \<le> sl_expires l)"
  by (auto simp: earlier_expiry_def split: option.splits)

lemma fold_next_spec:
  "case fold (\<lambda>(i :: string, l). earlier_expiry t l) ls best of
      None \<Rightarrow> best = None \<and> (\<forall>(i, l) \<in> set ls. \<not> stored_live t l)
    | Some e \<Rightarrow> (best = Some e \<or> (\<exists>(i, l) \<in> set ls. stored_live t l \<and> e = sl_expires l)) \<and>
        (\<forall>b. best = Some b \<longrightarrow> e \<le> b) \<and> (\<forall>(i, l) \<in> set ls. stored_live t l \<longrightarrow> e \<le> sl_expires l)"
proof (induction ls arbitrary: best)
  case Nil
  then show ?case by (cases best) auto
next
  case (Cons x ls)
  obtain i l where x: "x = (i, l)" by (cases x)
  obtain best' where b: "earlier_expiry t l best = best'" by blast
  show ?case
    using earlier_expiry_cases [where t = t and l = l and best = best] Cons.IH [where best = best']
    unfolding x fold_Cons comp_apply prod.case b
    by (cases best'; cases "fold (\<lambda>(i, l). earlier_expiry t l) ls best'") (auto dest: order_trans)
qed

lemma read_backend:
  "kv_ok s \<Longrightarrow> read_with fn s = (s', r) \<Longrightarrow> kv_ok s' \<and> kv_map s' = kv_map s"
  using read_cases by blast

lemma live_ran:
  assumes "dict_ok m"
  shows "ran (live_book t (map_of m)) = {l. \<exists>i. (i, l) \<in> set m \<and> stored_live t l}"
  by (auto simp: ran_def live_book_Some dict_in_get [OF assms])

lemma next_expiry_spec:
  assumes "dict_ok (dc_leases d)"
  shows "next_spec t (map_of (dc_leases d)) (fold (\<lambda>(i, l). earlier_expiry t l) (dc_leases d) None)"
    (is "next_spec _ _ ?n")
proof -
  have none: "live_book t (map_of (dc_leases d)) = Map.empty \<longleftrightarrow> (\<forall>(i, l) \<in> set (dc_leases d). \<not> stored_live t l)"
    by (auto simp: fun_eq_iff live_book_None dict_in_get [OF assms, symmetric])
  show ?thesis
    using fold_next_spec [where t = t and ls = "dc_leases d" and best = None] none live_ran [OF assms]
    by (cases ?n) (auto simp: next_spec_def)
qed

lemma list_by_holder_spec:
  assumes "dict_ok (dc_leases d)"
  shows "list_spec x t (map_of (dc_leases d))
    (sort_key (\<lambda>l. (le_since l, le_id l)) (map (\<lambda>(i, l). to_lease i l)
      (filter (\<lambda>(i, l). sl_identity l = x \<and> stored_live t l) (dc_leases d))))"
proof -
  let ?f = "filter (\<lambda>(i, l). sl_identity l = x \<and> stored_live t l) (dc_leases d)"
  have "inj_on (\<lambda>(i, l). to_lease i l) (set ?f)"
    using assms by (auto simp: inj_on_def to_lease_def dict_in_get dest: arg_cong [where f = le_id])
  moreover have "distinct ?f" using assms by (auto simp: dict_ok_def distinct_map)
  moreover have "(\<lambda>(i, l). to_lease i l) ` set ?f =
      {to_lease i l |i l. live_book t (map_of (dc_leases d)) i = Some l \<and> sl_identity l = x}"
    by (auto simp: live_book_Some dict_in_get [OF assms] image_iff) blast
  ultimately show ?thesis by (simp add: list_spec_def distinct_map)
qed

section \<open>The backend keeps the contract\<close>

lemma reply_Inl: "reply f p = (s', Inl e) \<longleftrightarrow> p = (s', Inl e)"
  by (cases p; cases "snd p") auto

lemma reply_Inr: "reply f p = (s', Inr y) \<longleftrightarrow> (\<exists>x. p = (s', Inr x) \<and> y = f x)"
  by (cases p; cases "snd p") auto

lemma reply_write:
  assumes "reply f p = (s', r)"
  obtains q where "p = (s', q)" "r = map_sum id f q"
  using assms by (cases p; cases "snd p") auto

lemma write_refines:
  assumes "kv_ok s" "reply f (write_with fn s) = (s', r)"
    and step: "\<And>d d' c q. leases_ok (dc_leases d) \<Longrightarrow> fn d = (d', c, q) \<Longrightarrow>
      leases_ok (dc_leases d') \<and> (c = Unchanged \<longrightarrow> map_of (dc_leases d') = map_of (dc_leases d)) \<and>
      R (map_of (dc_leases d)) (map_of (dc_leases d')) q"
  shows "kv_ok s' \<and> ((\<exists>q. r = map_sum id f q \<and> R (kv_map s) (kv_map s') q) \<or> backend_failed r \<and> kv_map s' = kv_map s)"
proof -
  obtain q where w: "write_with fn s = (s', q)" and r: "r = map_sum id f q"
    by (rule reply_write [OF assms(2)])
  have st: "leases_ok (dc_leases d') \<and> (c = Unchanged \<longrightarrow> map_of (dc_leases d') = kv_map s)"
    if "leases_ok (dc_leases d)" "map_of (dc_leases d) = kv_map s" "fn d = (d', c, q)" for d d' c q
    using step [OF that(1,3)] that(2) by simp
  have wc: "kv_ok s' \<and>
    ((\<exists>e. q = Inl (Backend e)) \<and> kv_map s' = kv_map s \<or>
     (\<exists>d d' c. leases_ok (dc_leases d) \<and> map_of (dc_leases d) = kv_map s \<and> fn d = (d', c, q) \<and>
        kv_map s' = map_of (dc_leases d')))"
    by (rule write_cases [OF assms(1) w st])
  have "(\<exists>e. q = Inl (Backend e)) \<and> kv_map s' = kv_map s \<or> R (kv_map s) (kv_map s') q"
    using conjunct2 [OF wc]
  proof (elim disjE exE conjE)
    fix d d' c
    assume "leases_ok (dc_leases d)" "fn d = (d', c, q)" "map_of (dc_leases d) = kv_map s" "kv_map s' = map_of (dc_leases d')"
    then show ?thesis using step [of d d' c q] by simp
  qed auto
  then show ?thesis
    using conjunct1 [OF wc] by (auto simp: r backend_failed_def)
qed

lemma read_refines:
  assumes "kv_ok s" "read_with fn s = (s', r)"
  shows "kv_ok s' \<and> kv_map s' = kv_map s \<and>
    ((\<exists>d. leases_ok (dc_leases d) \<and> map_of (dc_leases d) = kv_map s \<and> r = Inr (fn d)) \<or> (\<exists>e. r = Inl (Backend e)))"
  using read_cases [OF assms] by blast

lemma lookup_refines:
  assumes "kv_ok s" "kv_call (CLookup k x now) s = (s', r)"
  shows "kv_ok s' \<and> (call_spec (CLookup k x now) (kv_map s) (kv_map s') r \<or> backend_failed r \<and> kv_map s' = kv_map s)"
proof (cases "check_hash k")
  case None
  obtain s1 q where rd: "read_with (live_for k x (norm_time now)) s = (s1, q)" by fastforce
  have "s' = s1" using assms(2) None rd by (auto simp: kv_lookup_def split: sum.splits option.splits)
  with read_refines [OF assms(1) rd] show ?thesis
    using assms(2) None rd
    by (auto simp: kv_lookup_def backend_failed_def live_for_None live_for_Some split: option.splits)
qed (use assms in \<open>simp add: kv_lookup_def\<close>)

lemma get_refines:
  assumes "kv_ok s" "kv_call (CGet ids now) s = (s', r)"
  shows "kv_ok s' \<and> (call_spec (CGet ids now) (kv_map s) (kv_map s') r \<or> backend_failed r \<and> kv_map s' = kv_map s)"
proof (cases "ids = []")
  case False
  define fn where "fn = (\<lambda>d :: document. fold (\<lambda>i out.
        case dict_get (dc_leases d) i of
          None \<Rightarrow> out
        | Some l \<Rightarrow> if stored_live (norm_time now) l then dict_set i (shown i l) out else out) ids [])"
  obtain s1 q where rd: "read_with fn s = (s1, q)" by fastforce
  have call: "kv_call (CGet ids now) s = reply RMap (s1, q)"
    using rd unfolding fn_def shown_def by (simp add: False kv_get_def)
  have "map_of (fn d) = (\<lambda>i. if i \<in> set ids then map_option (shown i) (live_book (norm_time now) m i) else None)"
    if "map_of (dc_leases d) = m" for d m
    using that by (auto simp: fn_def fold_get_spec live_book_def fun_eq_iff split: option.splits)
  with read_refines [OF assms(1) rd] show ?thesis
    using assms(2) unfolding call by (cases q) (auto simp: backend_failed_def cong: if_cong)
qed (use assms in \<open>auto simp: kv_get_def\<close>)

lemma list_refines:
  assumes "kv_ok s" "kv_call (CListByHolder x now) s = (s', r)"
  shows "kv_ok s' \<and> (call_spec (CListByHolder x now) (kv_map s) (kv_map s') r \<or> backend_failed r \<and> kv_map s' = kv_map s)"
proof -
  define fn where "fn = (\<lambda>d :: document. map (\<lambda>(i, l). to_lease i l)
          (filter (\<lambda>(i, l). sl_identity l = x \<and> stored_live (norm_time now) l) (dc_leases d)))"
  obtain s1 q where rd: "read_with fn s = (s1, q)" by fastforce
  have call: "kv_call (CListByHolder x now) s =
      (s1, case q of Inl e \<Rightarrow> Inl e | Inr out \<Rightarrow> Inr (RList (sort_key (\<lambda>l. (le_since l, le_id l)) out)))"
    using rd by (cases q) (simp_all add: kv_list_by_holder_def fn_def)
  have "list_spec x (norm_time now) m (sort_key (\<lambda>l. (le_since l, le_id l)) (fn d))"
    if "leases_ok (dc_leases d)" "map_of (dc_leases d) = m" for d m
    using that list_by_holder_spec [of d x "norm_time now"] by (simp add: fn_def leases_ok_def)
  with read_refines [OF assms(1) rd] show ?thesis
    using assms(2) unfolding call by (cases q) (auto simp: backend_failed_def)
qed

lemma next_refines:
  assumes "kv_ok s" "kv_call (CNextExpiry now) s = (s', r)"
  shows "kv_ok s' \<and> (call_spec (CNextExpiry now) (kv_map s) (kv_map s') r \<or> backend_failed r \<and> kv_map s' = kv_map s)"
proof -
  define fn where "fn = (\<lambda>d :: document. fold (\<lambda>(i, l). earlier_expiry (norm_time now) l) (dc_leases d) None)"
  obtain s1 q where rd: "read_with fn s = (s1, q)" by fastforce
  have call: "kv_call (CNextExpiry now) s = reply RNext (s1, q)"
    using rd by (simp add: kv_next_expiry_def fn_def)
  have "next_spec (norm_time now) m (fn d)" if "leases_ok (dc_leases d)" "map_of (dc_leases d) = m" for d m
    using that next_expiry_spec [of d "norm_time now"] by (simp add: fn_def leases_ok_def)
  with read_refines [OF assms(1) rd] show ?thesis
    using assms(2) unfolding call by (cases q) (auto simp: backend_failed_def)
qed

lemma kv_refines:
  assumes "kv_ok s" "call_text_ok c" "kv_call c s = (s', r)"
  shows "kv_ok s' \<and> (call_spec c (kv_map s) (kv_map s') r \<or> backend_failed r \<and> kv_map s' = kv_map s)"
proof (cases c)
  case (CClaim i h k now until status)
  show ?thesis
  proof (cases "check_claim i h k now until status")
    case None
    then have "reply RLease (write_with (claim_document i h k (norm_time now) (norm_time until) status) s) = (s', r)"
      using assms(3) by (simp add: CClaim kv_claim_def)
    from write_refines [OF assms(1) this, where R = "claim_book i h k (norm_time now) (norm_time until) status"]
    show ?thesis using claim_step [OF _ None] assms(2) None by (simp add: CClaim)
  qed (use assms in \<open>simp add: CClaim kv_claim_def\<close>)
next
  case (CRenew k x now until status)
  show ?thesis
  proof (cases "check_renew k now until status")
    case None
    then have "reply RLease (write_with (renew_document k x (norm_time now) (norm_time until) status) s) = (s', r)"
      using assms(3) by (simp add: CRenew kv_renew_def)
    from write_refines [OF assms(1) this, where R = "renew_book k x (norm_time now) (norm_time until) status"]
    show ?thesis using renew_step [OF _ None] None by (simp add: CRenew)
  qed (use assms in \<open>simp add: CRenew kv_renew_def\<close>)
next
  case (CRelease k x now)
  show ?thesis
  proof (cases "check_hash k")
    case None
    then have "reply (\<lambda>u. RUnit) (write_with (release_document k x (norm_time now)) s) = (s', r)"
      using assms(3) by (simp add: CRelease kv_release_def)
    from write_refines [OF assms(1) this, where R = "\<lambda>m m' q. release_book k x (norm_time now) m m' \<and> q = Inr ()"]
    show ?thesis using release_step None by (simp add: CRelease)
  qed (use assms in \<open>simp add: CRelease kv_release_def\<close>)
next
  case (CRekey a b now)
  show ?thesis
  proof (cases "a = [] \<or> b = [] \<or> a = b")
    case False
    then have "reply (\<lambda>u. RUnit) (write_with (rekey_document a b (norm_time now)) s) = (s', r)"
      using assms(3) by (simp add: CRekey kv_rekey_def)
    note w = write_refines [where R = "\<lambda>m m' q. rekey_book a b (norm_time now) m m' \<and> q = Inr ()", OF assms(1) this]
    have "utf8_valid b" "a \<noteq> b" using assms(2) False by (simp_all add: CRekey)
    note w = w [OF rekey_step, OF _ _ this]
    then show ?thesis using False by (auto simp: CRekey)
  qed (use assms in \<open>auto simp: CRekey kv_rekey_def\<close>)
next
  case (CDrop i now)
  then have "reply (\<lambda>u. RUnit) (write_with (drop_document i (norm_time now)) s) = (s', r)"
    using assms(3) by (simp add: kv_drop_def)
  note w = write_refines [where R = "\<lambda>m m' q. m' = m(i := None) \<and> q = Inr ()", OF assms(1) this drop_step]
  have "kv_ok s' \<and> ((\<exists>q. r = map_sum id (\<lambda>u. RUnit) q \<and> kv_map s' = (kv_map s)(i := None) \<and> q = Inr ()) \<or>
      backend_failed r \<and> kv_map s' = kv_map s)"
    by (rule w)
  then show ?thesis by (simp add: CDrop)
next
  case (CLookup k x now)
  then show ?thesis using lookup_refines [OF assms(1)] assms(3) by metis
next
  case (CGet ids now)
  then show ?thesis using get_refines [OF assms(1)] assms(3) by metis
next
  case (CListByHolder x now)
  then show ?thesis using list_refines [OF assms(1)] assms(3) by metis
next
  case (CNextExpiry now)
  then show ?thesis using next_refines [OF assms(1)] assms(3) by metis
qed

lemma kv_map_ok: "kv_ok s \<Longrightarrow> map_ok (kv_map s)"
  by (auto simp: kv_ok_def kv_map_def leases_ok_def split: slot.splits)

interpretation kvlease: lease_store kv_call kv_map kv_ok
proof unfold_locales
  show "kv_ok s'" if "kv_ok s" "call_text_ok c" "kv_call c s = (s', r)" for s c s' r
    using kv_refines [OF that] by blast
  show "call_spec c (kv_map s) (kv_map s') r \<or> backend_failed r \<and> kv_map s' = kv_map s"
    if "kv_ok s" "call_text_ok c" "kv_call c s = (s', r)" for s c s' r
    using kv_refines [OF that] by blast
qed (rule kv_map_ok)

end
