(* ===== verification/Lease_Runs.thy ===== *)
theory Lease_Runs
  imports Lease_Store
begin

text \<open>
  Runs of the lease store: calls in any order, with any failures, and a cache document that is
  deleted or damaged between them. The tokens and the version rest on the version key, so their
  theorems ask that it can be read and written.
\<close>

section \<open>Tokens and versions of a state\<close>

definition kv_token :: "kv \<Rightarrow> nat" where
  "kv_token s = (case kv_document s of Document d \<Rightarrow> unat (dc_token d) | _ \<Rightarrow> 0)"

definition kv_doc_version :: "kv \<Rightarrow> nat" where
  "kv_doc_version s = (case kv_document s of Document d \<Rightarrow> unat (dc_version d) | _ \<Rightarrow> 0)"

definition kv_number :: "kv \<Rightarrow> nat" where
  "kv_number s = unat (version_value (kv_version s))"

definition tokens_below :: "lease_book \<Rightarrow> nat \<Rightarrow> bool" where
  "tokens_below m n \<longleftrightarrow> (\<forall>i l. m i = Some l \<longrightarrow> unat (sl_token l) \<le> n)"

text \<open>The version key is at least every token and every version written.\<close>

definition key_ahead :: "kv \<Rightarrow> bool" where
  "key_ahead s \<longleftrightarrow> kv_token s \<le> kv_number s \<and> kv_doc_version s \<le> kv_number s \<and>
     tokens_below (kv_map s) (kv_number s)"

definition version_works :: "faults \<Rightarrow> bool" where
  "version_works f \<longleftrightarrow> \<not> ft_version f \<and> \<not> snd (ft_reset f) \<and> \<not> snd (ft_write f)"

section \<open>The version key reads back\<close>

lemma digit_not_space: "is_digit c \<Longrightarrow> \<not> is_space c"
  by (auto simp: is_digit_def is_space_def)

lemma trim_digits: "list_all is_digit s \<Longrightarrow> trim_space s = s"
proof -
  assume d: "list_all is_digit s"
  have drop: "list_all is_digit t \<Longrightarrow> dropWhile is_space t = t" for t
    by (cases t) (auto simp: digit_not_space)
  show ?thesis using d by (simp add: trim_space_def drop list_all_rev)
qed

lemma version_value_text: "version_value (Some (version_text v)) = v"
proof -
  have "unat v < 2 ^ 64" using unsigned_less [of v] by simp
  then show ?thesis
    by (simp add: version_value_def version_text_def trim_digits show_nat_digits parse_uint_def)
qed

section \<open>Tokens through load and flush\<close>

lemma unat_max: "unat (max a b :: u64) = max (unat a) (unat b)"
  by (auto simp: max_def word_le_nat_alt)

lemma unat_suc: "unat (a :: u64) < 2 ^ 64 - 1 \<Longrightarrow> unat (a + 1) = unat a + 1"
  by (simp add: unat_word_ariths)

lemma flush_tokens:
  assumes "leases_ok (dc_leases d)" "\<not> snd f" "flush f d c s = (s', Inr d2)"
    and key: "unat (dc_version_key d) = kv_number s"
    and low: "unat (dc_token d) < 2 ^ 63" "unat (dc_version d) < 2 ^ 63" "kv_number s < 2 ^ 63"
  shows "(c = Visible \<longrightarrow> kv_number s' = max (max (unat (dc_version d)) (unat (dc_token d))) (kv_number s) + 1 \<and>
      kv_doc_version s' = kv_number s' \<and> unat (dc_version d2) = kv_number s') \<and>
    (c \<noteq> Visible \<longrightarrow> kv_number s' = kv_number s \<and> kv_doc_version s' = unat (dc_version d) \<and> d2 = d) \<and>
    kv_token s' = unat (dc_token d) \<and> dc_token d2 = dc_token d \<and> dc_leases d2 = dc_leases d \<and>
    unat (dc_version_key d2) = kv_number s'"
proof (cases "c = Visible")
  case True
  let ?v = "max (max (dc_version d) (dc_token d)) (dc_version_key d) + 1"
  have v: "unat ?v = max (max (unat (dc_version d)) (unat (dc_token d))) (kv_number s) + 1"
    using key low by (subst unat_suc) (simp_all add: unat_max)
  have d2: "d2 = d\<lparr>dc_version := ?v, dc_version_key := ?v\<rparr>" and s': "kv_version s' = Some (version_text ?v)"
    "\<exists>w. kv_document s' = Document w \<and> dc_token w = dc_token d \<and> dc_version w = ?v"
    using assms(2,3) True by (auto simp: flush_def json_document_def Let_def split: if_splits)
  have "kv_number s' = unat ?v" "kv_token s' = unat (dc_token d)" "kv_doc_version s' = unat ?v"
    using s' by (auto simp: kv_token_def kv_number_def kv_doc_version_def version_value_text)
  with v True show ?thesis by (simp add: d2)
next
  case False
  then have "d2 = d" "kv_version s' = kv_version s"
    "\<exists>w. kv_document s' = Document w \<and> dc_token w = dc_token d \<and> dc_version w = dc_version d"
    using assms(3) by (auto simp: flush_def json_document_def Let_def split: if_splits)
  with False key show ?thesis by (auto simp: kv_token_def kv_number_def kv_doc_version_def)
qed

lemma flush_error_same: "flush f d c s = (s', Inl e) \<Longrightarrow> s' = s"
  by (auto simp: flush_def json_document_def Let_def split: if_splits)

lemma load_tokens:
  assumes ok: "kv_ok s" and ahead: "key_ahead s" and low: "kv_number s < 2 ^ 63 - 8" and f: "version_works f"
    and l: "load f s = (s1, r)"
  shows "key_ahead s1 \<and> kv_number s \<le> kv_number s1 \<and> kv_number s1 \<le> kv_number s + 1 \<and>
    (kv_document s \<noteq> DamagedDocument \<longrightarrow> s1 = s) \<and>
    (\<forall>d. r = Inr d \<longrightarrow> unat (dc_token d) = kv_number s \<and> unat (dc_version d) \<le> kv_number s1 \<and>
       unat (dc_version_key d) = kv_number s1 \<and> tokens_below (map_of (dc_leases d)) (kv_number s))"
proof (cases "kv_document s = DamagedDocument \<and> \<not> ft_document f")
  case False
  let ?v = "version_value (kv_version s)"
  have "s1 = s \<and> (\<forall>d. r = Inr d \<longrightarrow> (\<exists>d0. (kv_document s = Document d0 \<or> d0 = empty_document \<and> kv_document s = NoDocument) \<and>
      d = d0\<lparr>dc_version_key := ?v, dc_token := max (dc_token d0) ?v\<rparr>))"
    using l False f by (auto simp: load_def parse_document_def read_version_key_def version_works_def Let_def split: slot.splits if_splits)
  then have s1: "s1 = s" and rd: "\<And>d. r = Inr d \<Longrightarrow> \<exists>d0. (kv_document s = Document d0 \<or> d0 = empty_document \<and> kv_document s = NoDocument) \<and>
      d = d0\<lparr>dc_version_key := ?v, dc_token := max (dc_token d0) ?v\<rparr>" by auto
  have "unat (dc_token d) = kv_number s \<and> unat (dc_version d) \<le> kv_number s \<and>
      unat (dc_version_key d) = kv_number s \<and> tokens_below (map_of (dc_leases d)) (kv_number s)" if "r = Inr d" for d
  proof -
    note hyp = that
    obtain d0 where d0: "kv_document s = Document d0 \<or> d0 = empty_document \<and> kv_document s = NoDocument"
      and d: "d = d0\<lparr>dc_version_key := ?v, dc_token := max (dc_token d0) ?v\<rparr>" using rd [OF hyp] by blast
    have "unat (dc_token d0) \<le> kv_number s" "unat (dc_version d0) \<le> kv_number s" "tokens_below (map_of (dc_leases d0)) (kv_number s)"
      using d0 ahead by (auto simp: key_ahead_def kv_token_def kv_doc_version_def kv_map_def tokens_below_def empty_document_def)
    then show ?thesis by (simp add: d unat_max kv_number_def)
  qed
  then show ?thesis using ahead s1 by simp
next
  case True
  let ?v = "version_value (kv_version s)"
  let ?d = "empty_document\<lparr>dc_version_key := ?v, dc_token := max (dc_token empty_document) ?v\<rparr>"
  have fl: "flush (ft_reset f) ?d Visible s = (s1, r)"
    using l True f by (simp add: load_def parse_document_def read_version_key_def version_works_def Let_def)
  have lo: "dc_leases ?d = []" "unat (dc_token ?d) = kv_number s" "unat (dc_version_key ?d) = kv_number s" "dc_version ?d = 0"
    by (simp_all add: empty_document_def kv_number_def)
  show ?thesis
  proof (cases r)
    case (Inl e)
    then have "s1 = s" using flush_error_same [of "ft_reset f" ?d Visible s s1 e] fl by simp
    then show ?thesis using Inl ahead by simp
  next
    case (Inr d2)
    have t: "(kv_number s1 = max (max (unat (dc_version ?d)) (unat (dc_token ?d))) (kv_number s) + 1 \<and>
        kv_doc_version s1 = kv_number s1 \<and> unat (dc_version d2) = kv_number s1) \<and>
        kv_token s1 = unat (dc_token ?d) \<and> dc_token d2 = dc_token ?d \<and> dc_leases d2 = dc_leases ?d \<and>
        unat (dc_version_key d2) = kv_number s1"
      using flush_tokens [of ?d "ft_reset f" Visible s s1 d2] fl f low Inr lo by (simp add: version_works_def)
    have "kv_map s1 = Map.empty"
      using flush_cases [OF _ fl] Inr by (simp add: lo)
    then show ?thesis using t lo Inr True by (auto simp: key_ahead_def tokens_below_def)
  qed
qed

section \<open>Tokens through a step\<close>

definition clock_ok :: "instant \<Rightarrow> bool" where
  "clock_ok now \<longleftrightarrow> - (2 ^ 63) \<le> unix_micro now \<and> unix_micro now < 2 ^ 62"

definition token_step :: "document \<Rightarrow> document \<Rightarrow> change \<Rightarrow> bool" where
  "token_step d d' c \<longleftrightarrow> dc_version d' = dc_version d \<and> dc_version_key d' = dc_version_key d \<and>
     (c \<noteq> Visible \<longrightarrow> dc_token d' = dc_token d) \<and> unat (dc_token d) \<le> unat (dc_token d') \<and>
     unat (dc_token d') \<le> max (unat (dc_token d) + 1) (2 ^ 62) \<and>
     tokens_below (map_of (dc_leases d')) (unat (dc_token d'))"

lemma tokens_below_sub: "tokens_below m n \<Longrightarrow> m' \<subseteq>\<^sub>m m \<Longrightarrow> n \<le> n' \<Longrightarrow> tokens_below m' n'"
  unfolding tokens_below_def map_le_def by (metis domI order_trans)

lemma tokens_below_upd: "tokens_below m n \<Longrightarrow> unat (sl_token l) \<le> n' \<Longrightarrow> n \<le> n' \<Longrightarrow> tokens_below (m(i \<mapsto> l)) n'"
  unfolding tokens_below_def by (auto intro: order_trans)

lemma prune_tokens:
  assumes "leases_ok (dc_leases d)" "prune now d = (d1, p)" "tokens_below (map_of (dc_leases d)) (unat (dc_token d))"
  shows "tokens_below (map_of (dc_leases d1)) (unat (dc_token d))" "dc_token d1 = dc_token d"
    "dc_version d1 = dc_version d" "dc_version_key d1 = dc_version_key d" "p \<noteq> Visible"
  using prune_cases [OF assms(1,2)] tokens_below_sub [OF assms(3) live_book_le order_refl] assms(2)
  by (auto simp: prune_def Let_def)

lemma next_token_bounds:
  assumes "unat t < 2 ^ 63" "clock_ok now"
  shows "unat t < unat (next_token t now)" "unat (next_token t now) \<le> max (unat t + 1) (2 ^ 62)"
  using next_token_ge [of t now] next_token_le [of t now] assms by (auto simp: clock_ok_def word_less_nat_alt)

lemma claim_tokens:
  assumes ok: "leases_ok (dc_leases d)" and t: "tokens_below (map_of (dc_leases d)) (unat (dc_token d))"
    and low: "unat (dc_token d) < 2 ^ 63" "clock_ok now"
    and c: "claim_document i h k now until status d = (d', c, r)"
  shows "token_step d d' c \<and> (\<forall>l. r = Inr l \<longrightarrow> unat (dc_token d) < unat (le_token l))"
proof -
  obtain d1 p where pr: "prune now d = (d1, p)" by fastforce
  note pt = prune_tokens [OF ok pr t]
  note nt = next_token_bounds [OF low]
  have refused: ?thesis if "d' = d1" "c = p" "\<forall>l. r \<noteq> Inr l"
    using that pt by (simp add: token_step_def)
  show ?thesis
  proof (cases "\<exists>e. r = Inl e")
    case True
    then show ?thesis
      by (intro refused; insert c True) (auto simp: claim_document_def pr Let_def split: option.splits if_splits)
  next
    case False
    then obtain l where "d' = d1\<lparr>dc_token := next_token (dc_token d1) now, dc_leases := dict_set i l (dc_leases d1)\<rparr>"
        "c = Visible" "sl_token l = next_token (dc_token d1) now" "r = Inr (to_lease i l)"
      using c by (fastforce simp: claim_document_def pr Let_def split: option.splits if_splits)
    then show ?thesis
      using pt nt tokens_below_upd [OF pt(1), of l "unat (next_token (dc_token d) now)" i]
      by (simp add: token_step_def map_of_set to_lease_def)
  qed
qed

lemma renew_tokens:
  assumes ok: "leases_ok (dc_leases d)" and t: "tokens_below (map_of (dc_leases d)) (unat (dc_token d))"
    and c: "renew_document k x now until status d = (d', c, r)"
  shows "token_step d d' c"
proof -
  obtain d1 p where pr: "prune now d = (d1, p)" by fastforce
  note pt = prune_tokens [OF ok pr t]
  have ok1: "leases_ok (dc_leases d1)" using prune_cases [OF ok pr] by blast
  show ?thesis
  proof (cases "live_for k x now d1")
    case None
    then show ?thesis using c pt by (simp add: renew_document_def pr token_step_def)
  next
    case (Some y)
    obtain i l where y: "y = (i, l)" by (cases y)
    then have "map_of (dc_leases d1) i = Some l" using Some live_for_Some [OF ok1] by (simp add: own_lease_def)
    then have "unat (sl_token l) \<le> unat (dc_token d)" using pt(1) by (auto simp: tokens_below_def)
    then show ?thesis using c pt Some y
      by (auto simp: renew_document_def pr token_step_def Let_def map_of_set intro!: tokens_below_upd)
  qed
qed

lemma release_tokens:
  assumes ok: "leases_ok (dc_leases d)" and t: "tokens_below (map_of (dc_leases d)) (unat (dc_token d))"
    and c: "release_document k x now d = (d', c, r)"
  shows "token_step d d' c"
proof -
  obtain d1 p where pr: "prune now d = (d1, p)" by fastforce
  note pt = prune_tokens [OF ok pr t]
  have "tokens_below ((map_of (dc_leases d1))(i := None)) (unat (dc_token d))" for i
    using tokens_below_sub [OF pt(1) _ order_refl] by (auto simp: map_le_def)
  then show ?thesis using c pt
    by (auto simp: release_document_def pr token_step_def map_of_del split: option.splits)
qed

lemma rekey_tokens:
  assumes t: "tokens_below (map_of (dc_leases d)) (unat (dc_token d))"
    and low: "unat (dc_token d) < 2 ^ 63" "clock_ok now"
    and c: "rekey_document a b now d = (d', c, r)"
  shows "token_step d d' c"
proof -
  have del: "tokens_below ((map_of (dc_leases d))(a := None)) (unat (dc_token d))"
    using tokens_below_sub [OF t _ order_refl] by (auto simp: map_le_def)
  show ?thesis using c t del next_token_bounds [OF low]
    by (auto simp: rekey_document_def token_step_def Let_def map_of_set map_of_del intro!: tokens_below_upd
        split: option.splits if_splits)
qed

lemma drop_tokens:
  assumes t: "tokens_below (map_of (dc_leases d)) (unat (dc_token d))" and c: "drop_document i now d = (d', c, r)"
  shows "token_step d d' c"
proof -
  have "tokens_below ((map_of (dc_leases d))(i := None)) (unat (dc_token d))"
    using tokens_below_sub [OF t _ order_refl] by (auto simp: map_le_def)
  then show ?thesis using c t by (auto simp: drop_document_def token_step_def map_of_del split: option.splits)
qed

section \<open>Tokens through a call\<close>

text \<open>What one call does to the numbers: the key stays ahead and grows by at most two steps.\<close>

definition numbers_step :: "kv \<Rightarrow> kv \<Rightarrow> bool" where
  "numbers_step s s' \<longleftrightarrow> key_ahead s' \<and> kv_number s \<le> kv_number s' \<and>
     kv_number s' \<le> max (kv_number s + 1) (2 ^ 62) + 2"

lemma write_tokens:
  assumes ok: "kv_ok s" and ahead: "key_ahead s" and low: "kv_number s < 2 ^ 63 - 8"
    and f: "version_works (next_faults s)" and w: "write_with fn s = (s', r)"
    and step: "\<And>d d' c q. leases_ok (dc_leases d) \<Longrightarrow> tokens_below (map_of (dc_leases d)) (unat (dc_token d)) \<Longrightarrow>
        unat (dc_token d) < 2 ^ 63 \<Longrightarrow> fn d = (d', c, q) \<Longrightarrow>
        token_step d d' c \<and> leases_ok (dc_leases d') \<and> (c = Unchanged \<longrightarrow> map_of (dc_leases d') = map_of (dc_leases d))"
  shows "numbers_step s s' \<and>
    ((\<exists>e. r = Inl (Backend e)) \<and> kv_map s' = kv_map s \<and>
       (kv_document s \<noteq> DamagedDocument \<longrightarrow> kv_number s' = kv_number s) \<or>
     (\<exists>d d' c. fn d = (d', c, r) \<and> leases_ok (dc_leases d) \<and> unat (dc_token d) = kv_number s \<and>
        tokens_below (map_of (dc_leases d)) (unat (dc_token d)) \<and> map_of (dc_leases d) = kv_map s \<and>
        kv_map s' = map_of (dc_leases d') \<and>
        (kv_document s \<noteq> DamagedDocument \<longrightarrow> (kv_number s' \<noteq> kv_number s) = (c = Visible))))"
proof -
  let ?u = "used_faults s" and ?f = "next_faults s"
  have u: "kv_ok ?u" "key_ahead ?u" "kv_number ?u = kv_number s" "kv_map ?u = kv_map s" "kv_document ?u = kv_document s"
    using ok ahead by (simp_all add: used_faults_def kv_ok_def key_ahead_def kv_token_def kv_doc_version_def
        kv_number_def kv_map_def)
  obtain s1 r1 where l: "load ?f ?u = (s1, r1)" by fastforce
  have low': "kv_number ?u < 2 ^ 63 - 8" using low u by simp
  note lt = load_tokens [OF u(1,2) low' f l]
  note lc = load_cases [OF u(1) l]
  have failed: "numbers_step s s1" using lt u by (auto simp: numbers_step_def max_def)
  have same: "kv_document s \<noteq> DamagedDocument \<longrightarrow> kv_number s1 = kv_number s" using lt u by auto
  show ?thesis
  proof (cases "ft_lock ?f \<or> (\<exists>e. r1 = Inl e)")
    case True
    then show ?thesis
      using w lc failed u same by (auto simp: write_with_def Let_def l numbers_step_def split: if_splits)
  next
    case False
    then obtain d where d: "r1 = Inr d" "leases_ok (dc_leases d)" "map_of (dc_leases d) = kv_map s"
      using lc u by auto
    have dn: "unat (dc_token d) = kv_number s" "unat (dc_version d) \<le> kv_number s1"
        "unat (dc_version_key d) = kv_number s1" "tokens_below (map_of (dc_leases d)) (kv_number s)"
      using lt d u by auto
    obtain d' c q where fn: "fn d = (d', c, q)" by (cases "fn d") auto
    have st: "token_step d d' c" "leases_ok (dc_leases d')" "c = Unchanged \<longrightarrow> map_of (dc_leases d') = map_of (dc_leases d)"
      using step [OF d(2) _ _ fn] dn low by auto
    obtain s2 r2 where fl: "flush (ft_write ?f) d' c s1 = (s2, r2)" by fastforce
    have wr: "(c = Unchanged \<longrightarrow> s' = s1 \<and> r = q) \<and>
        (c \<noteq> Unchanged \<longrightarrow> (s', r) = (case r2 of Inl e \<Rightarrow> (s2, Inl e) | Inr x \<Rightarrow> (s2, q)))"
      using w False fl by (auto simp: write_with_def Let_def l d(1) fn split: if_splits sum.splits)
    have step_numbers: "unat (dc_token d') \<le> max (kv_number s + 1) (2 ^ 62)" "kv_number s \<le> unat (dc_token d')"
        "tokens_below (map_of (dc_leases d')) (unat (dc_token d'))" "dc_version d' = dc_version d"
        "c \<noteq> Visible \<longrightarrow> dc_token d' = dc_token d"
      using st(1) dn by (simp_all add: token_step_def)
    have n1: "kv_number s \<le> kv_number s1" "kv_number s1 \<le> kv_number s + 1" using lt u by auto
    consider (unchanged) "c = Unchanged" | (error) e where "c \<noteq> Unchanged" "r2 = Inl e" | (written) d2 where "c \<noteq> Unchanged" "r2 = Inr d2"
      by (cases r2) auto
    then show ?thesis
    proof cases
      case unchanged
      then have "fn d = (d', c, r)" "kv_map s' = map_of (dc_leases d')" "s' = s1"
        using wr fn st d lc u by auto
      then show ?thesis using failed d dn unchanged same
        by (intro conjI disjI2 exI [of _ d] exI [of _ d'] exI [of _ c]) auto
    next
      case error
      then show ?thesis using wr failed same u lc flush_error_same [of "ft_write ?f" d' c s1 s2 e] flush_cases [OF st(2) fl] fl by auto
    next
      case written
      have v: "(c = Visible \<longrightarrow> kv_number s2 = max (max (unat (dc_version d')) (unat (dc_token d'))) (kv_number s1) + 1 \<and>
            kv_doc_version s2 = kv_number s2 \<and> unat (dc_version d2) = kv_number s2) \<and>
          (c \<noteq> Visible \<longrightarrow> kv_number s2 = kv_number s1 \<and> kv_doc_version s2 = unat (dc_version d') \<and> d2 = d') \<and>
          kv_token s2 = unat (dc_token d') \<and> dc_token d2 = dc_token d' \<and> dc_leases d2 = dc_leases d' \<and>
          unat (dc_version_key d2) = kv_number s2"
        by (rule flush_tokens [OF st(2)])
          (use f fl written st(1) dn n1 step_numbers low in \<open>auto simp: version_works_def token_step_def\<close>)
      have m2: "kv_map s2 = map_of (dc_leases d')" using flush_cases [OF st(2) fl] written by auto
      have s': "s' = s2" "r = q" using wr written by auto
      have bound: "kv_number s1 \<le> kv_number s2" "kv_number s2 \<le> max (kv_number s + 1) (2 ^ 62) + 2"
          "unat (dc_token d') \<le> kv_number s2" "kv_doc_version s2 \<le> kv_number s2"
        using v step_numbers n1 dn(2) dn(1) by (cases "c = Visible"; simp)+
      have "key_ahead s2"
        using bound v tokens_below_sub [OF step_numbers(3) map_le_refl bound(3)] by (simp add: key_ahead_def m2)
      then have "numbers_step s s2" using bound n1 by (simp add: numbers_step_def)
      moreover have "(kv_number s2 \<noteq> kv_number s1) = (c = Visible)" using v by (cases "c = Visible") simp_all
      then have "kv_document s \<noteq> DamagedDocument \<longrightarrow> (kv_number s2 \<noteq> kv_number s) = (c = Visible)"
        using same by metis
      ultimately show ?thesis using fn m2 d dn unfolding s'
        by (intro conjI disjI2 exI [of _ d] exI [of _ d'] exI [of _ c]) simp_all
    qed
  qed
qed

lemma read_tokens:
  assumes ok: "kv_ok s" and ahead: "key_ahead s" and low: "kv_number s < 2 ^ 63 - 8"
    and f: "version_works (next_faults s)" and w: "read_with fn s = (s', r)"
  shows "numbers_step s s' \<and> (kv_document s \<noteq> DamagedDocument \<longrightarrow> kv_number s' = kv_number s)"
proof -
  let ?u = "used_faults s" and ?f = "next_faults s"
  have u: "kv_ok ?u" "key_ahead ?u" "kv_number ?u = kv_number s" "kv_document ?u = kv_document s"
    using ok ahead by (simp_all add: used_faults_def kv_ok_def key_ahead_def kv_token_def kv_doc_version_def
        kv_number_def kv_map_def)
  obtain s1 r1 where l: "load ?f ?u = (s1, r1)" by fastforce
  have low': "kv_number ?u < 2 ^ 63 - 8" using low u by simp
  note lt = load_tokens [OF u(1,2) low' f l]
  show ?thesis
    using w lt u by (auto simp: read_with_def Let_def l numbers_step_def max_def split: if_splits sum.splits)
qed

lemma reply_fst: "reply f p = (s', r) \<Longrightarrow> fst p = s'"
  by (cases p; cases "snd p") auto

text \<open>Every step of the five writing methods meets the condition of \<open>write_tokens\<close>.\<close>

lemma writing_steps:
  assumes "leases_ok (dc_leases d)" "tokens_below (map_of (dc_leases d)) (unat (dc_token d))" "unat (dc_token d) < 2 ^ 63"
  shows claim_writes: "check_claim i h k now until status = None \<Longrightarrow> holder_text_ok i h \<Longrightarrow> clock_ok (norm_time now) \<Longrightarrow>
      claim_document i h k (norm_time now) (norm_time until) status d = (d', c, r) \<Longrightarrow>
      token_step d d' c \<and> leases_ok (dc_leases d') \<and> (c = Unchanged \<longrightarrow> map_of (dc_leases d') = map_of (dc_leases d))"
    and renew_writes: "check_renew k now until st = None \<Longrightarrow>
      renew_document k x (norm_time now) (norm_time until) st d = (d', c, r) \<Longrightarrow>
      token_step d d' c \<and> leases_ok (dc_leases d') \<and> (c = Unchanged \<longrightarrow> map_of (dc_leases d') = map_of (dc_leases d))"
    and release_writes: "release_document k x t d = (d', c, q) \<Longrightarrow>
      token_step d d' c \<and> leases_ok (dc_leases d') \<and> (c = Unchanged \<longrightarrow> map_of (dc_leases d') = map_of (dc_leases d))"
    and rekey_writes: "utf8_valid b \<Longrightarrow> a \<noteq> b \<Longrightarrow> clock_ok t \<Longrightarrow> rekey_document a b t d = (d', c, q) \<Longrightarrow>
      token_step d d' c \<and> leases_ok (dc_leases d') \<and> (c = Unchanged \<longrightarrow> map_of (dc_leases d') = map_of (dc_leases d))"
    and drop_writes: "drop_document i t d = (d', c, q) \<Longrightarrow>
      token_step d d' c \<and> leases_ok (dc_leases d') \<and> (c = Unchanged \<longrightarrow> map_of (dc_leases d') = map_of (dc_leases d))"
  using claim_tokens [OF assms] claim_step [OF assms(1)] renew_tokens [OF assms(1,2)] renew_step [OF assms(1)]
    release_tokens [OF assms(1,2)] release_step [OF assms(1)] rekey_tokens [OF assms(2,3)] rekey_step [OF assms(1)]
    drop_tokens [OF assms(2)] drop_step [OF assms(1)]
  by (metis)+

section \<open>Changes a watcher acts on\<close>

text \<open>
  At one instant, a reader of the leases sees a change unless every live lease is still there and
  differs at most by a later expiry.
\<close>

definition seen_change :: "instant \<Rightarrow> lease_book \<Rightarrow> lease_book \<Rightarrow> bool" where
  "seen_change t m m' \<longleftrightarrow>
     (\<exists>i. case (live_book t m i, live_book t m' i) of
        (None, None) \<Rightarrow> False
      | (Some l, Some l') \<Rightarrow> l' \<noteq> l\<lparr>sl_expires := sl_expires l'\<rparr> \<or> sl_expires l' < sl_expires l
      | _ \<Rightarrow> True)"

lemma live_live [simp]: "live_book t (live_book t m) = live_book t m"
  by (auto simp: live_book_def fun_eq_iff split: option.splits)

lemma not_seen_same: "live_book t m' = live_book t m \<Longrightarrow> \<not> seen_change t m m'"
  by (auto simp: seen_change_def split: option.splits)

lemma seen_gone: "live_book t m i = Some l \<Longrightarrow> live_book t m' i = None \<Longrightarrow> seen_change t m m'"
  by (auto simp: seen_change_def intro!: exI [of _ i])

lemma seen_new: "live_book t m i = None \<Longrightarrow> live_book t m' i = Some l \<Longrightarrow> seen_change t m m'"
  by (auto simp: seen_change_def intro!: exI [of _ i])

lemma live_book_upd: "live_book t (m(i \<mapsto> l)) = (if stored_live t l then (live_book t m)(i \<mapsto> l) else (live_book t m)(i := None))"
  by (auto simp: live_book_def fun_eq_iff)

lemma live_book_del: "live_book t (m(i := None)) = (live_book t m)(i := None)"
  by (auto simp: live_book_def fun_eq_iff)

lemma claim_seen:
  assumes "leases_ok (dc_leases d)" "check_claim i h k now until status = None" "holder_text_ok i h"
    and c: "claim_document i h k (norm_time now) (norm_time until) status d = (d', c, r)"
  shows "c = Visible \<longleftrightarrow> seen_change (norm_time now) (map_of (dc_leases d)) (map_of (dc_leases d'))"
proof -
  obtain d1 p where pr: "prune (norm_time now) d = (d1, p)" by fastforce
  have "p \<noteq> Visible" using prune_cases [OF assms(1) pr] by blast
  then have vis: "c = Visible \<longleftrightarrow> (\<exists>l. r = Inr l)"
    using c by (auto simp: claim_document_def pr Let_def split: option.splits if_splits)
  have "norm_time now < norm_time until" using assms(2) by (simp add: check_claim_None)
  then have live: "stored_live (norm_time now) l" if "sl_expires l = norm_time until" for l
    using that by (simp add: stored_live_def)
  from claim_step [OF assms] have "claim_book i h k (norm_time now) (norm_time until) status
      (map_of (dc_leases d)) (map_of (dc_leases d')) r" by blast
  then show ?thesis
  proof (cases rule: claim_book.cases)
    case (claimed l tok)
    then have "live_book (norm_time now) (map_of (dc_leases d')) i = Some l"
      using live [of l] by (simp add: live_book_upd)
    then show ?thesis using claimed seen_new vis by auto
  qed (use vis not_seen_same [of "norm_time now"] in auto)
qed

lemma renew_seen:
  assumes "leases_ok (dc_leases d)" "check_renew k now until status = None"
    and c: "renew_document k x (norm_time now) (norm_time until) status d = (d', c, r)"
  shows "c = Visible \<longleftrightarrow> seen_change (norm_time now) (map_of (dc_leases d)) (map_of (dc_leases d'))"
proof -
  obtain d1 p where pr: "prune (norm_time now) d = (d1, p)" by fastforce
  note pc = prune_cases [OF assms(1) pr]
  let ?m = "map_of (dc_leases d)" and ?m1 = "map_of (dc_leases d1)" and ?t = "norm_time now"
  have ok1: "leases_ok (dc_leases d1)" and m1: "?m1 = live_book ?t ?m" and p: "p \<noteq> Visible" using pc by auto
  show ?thesis
  proof (cases "live_for k x ?t d1")
    case None
    then have "d' = d1" "c = p" using c by (simp_all add: renew_document_def pr)
    then show ?thesis using p not_seen_same [of ?t ?m1 ?m] by (simp add: m1)
  next
    case (Some y)
    then obtain i l where y: "live_for k x ?t d1 = Some (i, l)" by (cases y) auto
    then have li: "live_book ?t ?m i = Some l" using live_for_Some [OF ok1] m1 by (simp add: own_lease_def)
    define l' where "l' = l\<lparr>sl_expires := norm_time until, sl_status := (case status of None \<Rightarrow> sl_status l | Some u \<Rightarrow> u)\<rparr>"
    have res: "dc_leases d' = dict_set i l' (dc_leases d1)"
        "c = Visible \<longleftrightarrow> (norm_time until < sl_expires l \<or> (status \<noteq> None \<and> status \<noteq> Some (sl_status l)))"
      using c y by (auto simp: renew_document_def pr Let_def l'_def split: if_splits)
    have "stored_live ?t l'" using assms(2) by (simp add: l'_def stored_live_def check_renew_None)
    then have m': "live_book ?t (map_of (dc_leases d')) = (live_book ?t ?m)(i \<mapsto> l')"
      by (simp add: res map_of_set live_book_upd m1)
    have same: "\<not> (case (live_book ?t ?m j, live_book ?t ?m j) of (None, None) \<Rightarrow> False
        | (Some l, Some l') \<Rightarrow> l' \<noteq> l\<lparr>sl_expires := sl_expires l'\<rparr> \<or> sl_expires l' < sl_expires l | _ \<Rightarrow> True)" for j
      by (auto split: option.splits)
    have "seen_change ?t ?m (map_of (dc_leases d')) \<longleftrightarrow> l' \<noteq> l\<lparr>sl_expires := sl_expires l'\<rparr> \<or> sl_expires l' < sl_expires l"
      unfolding seen_change_def m' using same li by (auto split: if_splits option.splits)
    also have "\<dots> \<longleftrightarrow> c = Visible"
      by (cases status; cases l) (auto simp: res l'_def)
    finally show ?thesis by simp
  qed
qed

lemma release_seen:
  assumes "leases_ok (dc_leases d)" and c: "release_document k x now d = (d', c, r)"
  shows "c = Visible \<longleftrightarrow> seen_change now (map_of (dc_leases d)) (map_of (dc_leases d'))"
proof -
  obtain d1 p where pr: "prune now d = (d1, p)" by fastforce
  note pc = prune_cases [OF assms(1) pr]
  let ?m = "map_of (dc_leases d)" and ?m1 = "map_of (dc_leases d1)"
  have ok1: "leases_ok (dc_leases d1)" and m1: "?m1 = live_book now ?m" and p: "p \<noteq> Visible" using pc by auto
  show ?thesis
  proof (cases "live_for k x now d1")
    case None
    then have "d' = d1" "c = p" using c by (simp_all add: release_document_def pr)
    then show ?thesis using p not_seen_same [of now ?m1 ?m] by (simp add: m1)
  next
    case (Some y)
    then obtain i l where y: "live_for k x now d1 = Some (i, l)" by (cases y) auto
    then have "live_book now ?m i = Some l" using live_for_Some [OF ok1] m1 by (simp add: own_lease_def)
    moreover have "c = Visible" "map_of (dc_leases d') = (live_book now ?m)(i := None)"
      using c y by (auto simp: release_document_def pr map_of_del m1)
    ultimately show ?thesis using seen_gone [of now ?m i l] by (simp add: live_book_del)
  qed
qed

lemma rekey_seen:
  assumes c: "rekey_document a b now d = (d', c, r)" "a \<noteq> b"
  shows "c = Visible \<longleftrightarrow> seen_change now (map_of (dc_leases d)) (map_of (dc_leases d'))"
proof (cases "live_book now (map_of (dc_leases d)) a")
  case None
  then have "c \<noteq> Visible" "live_book now (map_of (dc_leases d')) = live_book now (map_of (dc_leases d))"
    using c by (auto simp: rekey_document_def live_book_None map_of_del live_book_del fun_upd_idem Let_def split: option.splits)
  then show ?thesis using not_seen_same by blast
next
  case (Some l)
  then have "c = Visible" "live_book now (map_of (dc_leases d')) a = None"
    using c by (auto simp: rekey_document_def live_book_Some map_of_del map_of_set live_book_def Let_def split: option.splits if_splits)
  then show ?thesis using seen_gone Some by blast
qed

lemma drop_seen:
  assumes c: "drop_document i now d = (d', c, r)"
  shows "c = Visible \<longleftrightarrow> seen_change now (map_of (dc_leases d)) (map_of (dc_leases d'))"
proof (cases "live_book now (map_of (dc_leases d)) i")
  case None
  then have "c \<noteq> Visible" "live_book now (map_of (dc_leases d')) = live_book now (map_of (dc_leases d))"
    using c by (auto simp: drop_document_def live_book_None map_of_del live_book_del fun_upd_idem split: option.splits)
  then show ?thesis using not_seen_same by blast
next
  case (Some l)
  then have "c = Visible" "live_book now (map_of (dc_leases d')) i = None"
    using c by (auto simp: drop_document_def live_book_Some map_of_del live_book_def split: option.splits if_splits)
  then show ?thesis using seen_gone Some by blast
qed

section \<open>Numbers through a call\<close>

definition call_numbers :: "lease_call \<Rightarrow> kv \<Rightarrow> kv \<Rightarrow> lease_error + lease_reply \<Rightarrow> bool" where
  "call_numbers c s s' r \<longleftrightarrow> numbers_step s s' \<and>
     (kv_document s \<noteq> DamagedDocument \<longrightarrow>
       (kv_number s' \<noteq> kv_number s) = seen_change (norm_time (call_now c)) (kv_map s) (kv_map s')) \<and>
     (\<forall>i h k now until status l. c = CClaim i h k now until status \<longrightarrow> r = Inr (RLease l) \<longrightarrow>
        kv_number s < unat (le_token l))"

lemma unchanged_numbers:
  assumes "key_ahead s" "kv_call c s = (s, r)" "\<And>l. r \<noteq> Inr (RLease l)"
  shows "call_numbers c s s r"
  using assms not_seen_same [of "norm_time (call_now c)" "kv_map s" "kv_map s"]
  by (simp add: call_numbers_def numbers_step_def le_max_iff_disj)

lemma write_numbers:
  assumes ok: "kv_ok s" and ahead: "key_ahead s" and low: "kv_number s < 2 ^ 63 - 8"
    and f: "version_works (next_faults s)" and w: "reply g (write_with fn s) = (s', r)"
    and step: "\<And>d d' e q. leases_ok (dc_leases d) \<Longrightarrow> tokens_below (map_of (dc_leases d)) (unat (dc_token d)) \<Longrightarrow>
        unat (dc_token d) < 2 ^ 63 \<Longrightarrow> fn d = (d', e, q) \<Longrightarrow>
        token_step d d' e \<and> leases_ok (dc_leases d') \<and> (e = Unchanged \<longrightarrow> map_of (dc_leases d') = map_of (dc_leases d))"
    and seen: "\<And>d d' e q. leases_ok (dc_leases d) \<Longrightarrow> fn d = (d', e, q) \<Longrightarrow>
        e = Visible \<longleftrightarrow> seen_change (norm_time (call_now c)) (map_of (dc_leases d)) (map_of (dc_leases d'))"
    and token: "\<And>d d' e q l i h k now until status. leases_ok (dc_leases d) \<Longrightarrow>
        tokens_below (map_of (dc_leases d)) (unat (dc_token d)) \<Longrightarrow> unat (dc_token d) < 2 ^ 63 \<Longrightarrow> fn d = (d', e, Inr q) \<Longrightarrow>
        c = CClaim i h k now until status \<Longrightarrow> g q = RLease l \<Longrightarrow> unat (dc_token d) < unat (le_token l)"
  shows "call_numbers c s s' r"
proof -
  obtain q where q: "write_with fn s = (s', q)" "r = map_sum id g q" by (rule reply_write [OF w])
  have wt: "numbers_step s s' \<and>
    ((\<exists>e. q = Inl (Backend e)) \<and> kv_map s' = kv_map s \<and>
       (kv_document s \<noteq> DamagedDocument \<longrightarrow> kv_number s' = kv_number s) \<or>
     (\<exists>d d' e. fn d = (d', e, q) \<and> leases_ok (dc_leases d) \<and> unat (dc_token d) = kv_number s \<and>
        tokens_below (map_of (dc_leases d)) (unat (dc_token d)) \<and> map_of (dc_leases d) = kv_map s \<and>
        kv_map s' = map_of (dc_leases d') \<and>
        (kv_document s \<noteq> DamagedDocument \<longrightarrow> (kv_number s' \<noteq> kv_number s) = (e = Visible))))"
    by (rule write_tokens [OF ok ahead low f q(1) step])
  from conjunct2 [OF this] show ?thesis
  proof (elim disjE exE conjE)
    fix e assume e: "q = Inl (Backend e)" "kv_map s' = kv_map s"
      "kv_document s \<noteq> DamagedDocument \<longrightarrow> kv_number s' = kv_number s"
    then show ?thesis using wt not_seen_same [of "norm_time (call_now c)" "kv_map s'" "kv_map s"] q(2)
      by (auto simp: call_numbers_def)
  next
    fix d d' e
    assume d: "fn d = (d', e, q)" "leases_ok (dc_leases d)" "unat (dc_token d) = kv_number s"
      "tokens_below (map_of (dc_leases d)) (unat (dc_token d))" "map_of (dc_leases d) = kv_map s"
      "kv_map s' = map_of (dc_leases d')"
      "kv_document s \<noteq> DamagedDocument \<longrightarrow> (kv_number s' \<noteq> kv_number s) = (e = Visible)"
    have "kv_document s \<noteq> DamagedDocument \<longrightarrow>
        (kv_number s' \<noteq> kv_number s) = seen_change (norm_time (call_now c)) (kv_map s) (kv_map s')"
      using d(7) seen [OF d(2,1)] d(5,6) by simp
    moreover have "kv_number s < unat (le_token l)"
      if "c = CClaim i h k now until status" "r = Inr (RLease l)" for i h k now until status l
    proof -
      note hyp = that
      obtain p where p: "q = Inr p" "g p = RLease l" using hyp(2) q(2) by (cases q) auto
      have "unat (dc_token d) < unat (le_token l)"
        by (rule token [OF d(2,4) _ d(1)[unfolded p(1)] hyp(1) p(2)]) (use d(3) low in simp)
      then show ?thesis by (simp add: d(3))
    qed
    ultimately show ?thesis using wt by (auto simp: call_numbers_def)
  qed
qed

lemma read_numbers:
  assumes "kv_ok s" "key_ahead s" "kv_number s < 2 ^ 63 - 8" "version_works (next_faults s)"
    and c: "kv_call c s = (s', r)" and rd: "fst (read_with fn s) = s'" and "\<And>i h k now until status. c \<noteq> CClaim i h k now until status"
  shows "call_numbers c s s' r"
proof -
  obtain q where q: "read_with fn s = (s', q)" using rd by (cases "read_with fn s") auto
  have "kv_map s' = kv_map s" using read_cases [OF assms(1) q] by blast
  then show ?thesis
    using read_tokens [OF assms(1-4) q] not_seen_same [of "norm_time (call_now c)" "kv_map s'" "kv_map s"] assms(7)
    by (auto simp: call_numbers_def)
qed

lemma list_state:
  "fst (kv_list_by_holder x now s) = fst (read_with (\<lambda>d. map (\<lambda>(i, l). to_lease i l)
     (filter (\<lambda>(i, l). sl_identity l = x \<and> stored_live (norm_time now) l) (dc_leases d))) s)"
  unfolding kv_list_by_holder_def by (simp split: prod.split sum.split)

lemma kv_numbers:
  assumes "kv_ok s" "key_ahead s" "kv_number s < 2 ^ 63 - 8" "version_works (next_faults s)"
    and tx: "call_text_ok c" and clk: "clock_ok (norm_time (call_now c))" and c: "kv_call c s = (s', r)"
  shows "call_numbers c s s' r"
proof (cases c)
  case (CClaim i h k now until status)
  show ?thesis
  proof (cases "check_claim i h k now until status")
    case None
    have w: "reply RLease (write_with (claim_document i h k (norm_time now) (norm_time until) status) s) = (s', r)"
      using c None by (simp add: CClaim kv_claim_def)
    have h: "holder_text_ok i h" "clock_ok (norm_time now)" using tx clk by (simp_all add: CClaim)
    show ?thesis
      by (rule write_numbers [OF assms(1-4) w claim_writes])
        (use None h claim_tokens claim_seen in \<open>auto simp: CClaim\<close>)
  next
    case (Some e)
    then have "s' = s" "\<And>l. r \<noteq> Inr (RLease l)" using c by (auto simp: CClaim kv_claim_def)
    then show ?thesis using unchanged_numbers [OF assms(2)] c by metis
  qed
next
  case (CRenew k x now until status)
  show ?thesis
  proof (cases "check_renew k now until status")
    case None
    have w: "reply RLease (write_with (renew_document k x (norm_time now) (norm_time until) status) s) = (s', r)"
      using c None by (simp add: CRenew kv_renew_def)
    show ?thesis
      by (rule write_numbers [OF assms(1-4) w renew_writes]) (use None renew_seen in \<open>auto simp: CRenew\<close>)
  next
    case (Some e)
    then have "s' = s" "\<And>l. r \<noteq> Inr (RLease l)" using c by (auto simp: CRenew kv_renew_def)
    then show ?thesis using unchanged_numbers [OF assms(2)] c by metis
  qed
next
  case (CLookup k x now)
  show ?thesis
  proof (cases "check_hash k")
    case None
    have "fst (read_with (live_for k x (norm_time now)) s) = s'"
      using c None by (auto simp: CLookup kv_lookup_def dest!: reply_fst split: prod.splits sum.splits option.splits)
    then show ?thesis using read_numbers [OF assms(1-4) c] CLookup by blast
  next
    case (Some e)
    then have "s' = s" "\<And>l. r \<noteq> Inr (RLease l)" using c by (auto simp: CLookup kv_lookup_def)
    then show ?thesis using unchanged_numbers [OF assms(2)] c by metis
  qed
next
  case (CRelease k x now)
  show ?thesis
  proof (cases "check_hash k")
    case None
    have w: "reply (\<lambda>u. RUnit) (write_with (release_document k x (norm_time now)) s) = (s', r)"
      using c None by (simp add: CRelease kv_release_def)
    show ?thesis
      by (rule write_numbers [OF assms(1-4) w release_writes]) (use release_seen in \<open>auto simp: CRelease\<close>)
  next
    case (Some e)
    then have "s' = s" "\<And>l. r \<noteq> Inr (RLease l)" using c by (auto simp: CRelease kv_release_def)
    then show ?thesis using unchanged_numbers [OF assms(2)] c by metis
  qed
next
  case (CGet ids now)
  show ?thesis
  proof (cases "ids = []")
    case True
    then have "s' = s" "\<And>l. r \<noteq> Inr (RLease l)" using c by (auto simp: CGet kv_get_def)
    then show ?thesis using unchanged_numbers [OF assms(2)] c by metis
  next
    case False
    then have "\<exists>fn :: document \<Rightarrow> lease dict. fst (read_with fn s) = s'"
      using reply_fst [OF c [unfolded CGet kv_call.simps]] by (auto simp: kv_get_def)
    then show ?thesis using read_numbers [OF assms(1-4) c] CGet by blast
  qed
next
  case (CListByHolder x now)
  then have "\<exists>fn :: document \<Rightarrow> lease list. fst (read_with fn s) = s'"
    using reply_fst [OF c [unfolded CListByHolder kv_call.simps]]
    by (auto simp: list_state)
  then show ?thesis using read_numbers [OF assms(1-4) c] CListByHolder by blast
next
  case (CNextExpiry now)
  then have "\<exists>fn :: document \<Rightarrow> instant option. fst (read_with fn s) = s'"
    using reply_fst [OF c [unfolded CNextExpiry kv_call.simps]] by (auto simp: kv_next_expiry_def)
  then show ?thesis using read_numbers [OF assms(1-4) c] CNextExpiry by blast
next
  case (CRekey a b now)
  show ?thesis
  proof (cases "a = [] \<or> b = [] \<or> a = b")
    case True
    then have "s' = s" "\<And>l. r \<noteq> Inr (RLease l)" using c by (auto simp: CRekey kv_rekey_def split: if_splits)
    then show ?thesis using unchanged_numbers [OF assms(2)] c by metis
  next
    case False
    then have w: "reply (\<lambda>u. RUnit) (write_with (rekey_document a b (norm_time now)) s) = (s', r)"
      using c by (simp add: CRekey kv_rekey_def)
    have "utf8_valid b" "a \<noteq> b" "clock_ok (norm_time now)" using tx clk False by (simp_all add: CRekey)
    note ab = this
    show ?thesis
      by (rule write_numbers [OF assms(1-4) w rekey_writes]) (use ab in \<open>simp_all add: CRekey rekey_seen\<close>)
  qed
next
  case (CDrop i now)
  then have w: "reply (\<lambda>u. RUnit) (write_with (drop_document i (norm_time now)) s) = (s', r)"
    using c by (simp add: kv_drop_def)
  show ?thesis
    by (rule write_numbers [OF assms(1-4) w drop_writes]) (simp_all add: CDrop drop_seen)
qed

section \<open>Runs\<close>

text \<open>
  From a state without a readable document: calls that meet a condition, any of them failing as
  the fault list says, and the loss or the damage of the cache document.
\<close>

inductive lease_run :: "(lease_call \<Rightarrow> bool) \<Rightarrow> kv \<Rightarrow> nat \<Rightarrow> kv \<Rightarrow> bool" for P s0 where
  start: "lease_run P s0 0 s0"
| called: "lease_run P s0 n s \<Longrightarrow> call_text_ok c \<Longrightarrow> P c \<Longrightarrow> kv_call c s = (s', r) \<Longrightarrow> lease_run P s0 (Suc n) s'"
| lost: "lease_run P s0 n s \<Longrightarrow> d = NoDocument \<or> d = DamagedDocument \<Longrightarrow> lease_run P s0 n (s\<lparr>kv_document := d\<rparr>)"

definition any_call :: "lease_call \<Rightarrow> bool" where
  "any_call c \<longleftrightarrow> True"

definition clocked :: "lease_call \<Rightarrow> bool" where
  "clocked c \<longleftrightarrow> clock_ok (norm_time (call_now c))"

definition without_document :: "kv \<Rightarrow> bool" where
  "without_document s \<longleftrightarrow> kv_document s = NoDocument \<or> kv_document s = DamagedDocument"

fun kv_calls :: "lease_call list \<Rightarrow> kv \<Rightarrow> kv" where
  "kv_calls [] s = s"
| "kv_calls (c # cs) s = kv_calls cs (fst (kv_call c s))"

lemma without_ok: "without_document s \<Longrightarrow> kv_ok s \<and> kv_map s = Map.empty \<and> kv_token s = 0 \<and> kv_doc_version s = 0"
  by (auto simp: without_document_def kv_ok_def kv_map_def kv_token_def kv_doc_version_def)

lemma run_ok: "lease_run P s0 n s \<Longrightarrow> kv_ok s0 \<Longrightarrow> kv_ok s"
proof (induction rule: lease_run.induct)
  case (called n s c s' r)
  then show ?case using kvlease.keeps_ok by blast
qed (auto simp: kv_ok_def)

lemma calls_ok: "kv_ok s \<Longrightarrow> list_all call_text_ok cs \<Longrightarrow> kv_ok (kv_calls cs s)"
proof (induction cs arbitrary: s)
  case (Cons c cs)
  have "kv_call c s = (fst (kv_call c s), snd (kv_call c s))" by simp
  from kvlease.keeps_ok [OF Cons.prems(1) _ this] have "kv_ok (fst (kv_call c s))" using Cons.prems(2) by simp
  then show ?case using Cons by simp
qed simp

lemma flush_faults: "kv_faults (fst (flush f d e u)) = kv_faults u"
  by (simp add: flush_def Let_def split: option.split)

lemma load_faults: "kv_faults (fst (load f u)) = kv_faults u"
  using flush_faults by (auto simp: load_def Let_def split: sum.split)

lemma write_faults: "kv_faults (fst (write_with fn u)) = drop 1 (kv_faults u)"
proof -
  obtain s1 q where l: "load (next_faults u) (used_faults u) = (s1, q)" by fastforce
  have s1: "kv_faults s1 = drop 1 (kv_faults u)"
    using load_faults [of "next_faults u" "used_faults u"] unfolding l by (simp add: used_faults_def)
  have uf: "kv_faults (used_faults u) = drop 1 (kv_faults u)" by (simp add: used_faults_def)
  have "kv_faults s2 = kv_faults s1" if "flush f d e s1 = (s2, x)" for f d e s2 x
    using flush_faults [of f d e s1] that by simp
  then show ?thesis
    using s1 by (auto simp: write_with_def Let_def l uf split: prod.split sum.split)
qed

lemma read_faults: "kv_faults (fst (read_with fn u)) = drop 1 (kv_faults u)"
  using load_faults [of "next_faults u" "used_faults u"]
  by (auto simp: read_with_def Let_def used_faults_def split: prod.splits sum.split)

lemma fst_reply [simp]: "fst (reply f p) = fst p"
  by (cases p; cases "snd p") auto

lemma lookup_state: "check_hash k = None \<Longrightarrow> fst (kv_lookup k x now s) = fst (read_with (live_for k x (norm_time now)) s)"
  by (simp add: kv_lookup_def split: prod.split sum.split option.split)

lemma call_faults:
  "kv_faults (fst (kv_call c s)) = kv_faults s \<or> kv_faults (fst (kv_call c s)) = drop 1 (kv_faults s)"
proof (cases c)
  case (CLookup k x now)
  then show ?thesis by (cases "check_hash k") (auto simp: lookup_state read_faults, simp add: kv_lookup_def)
qed (auto simp: kv_claim_def kv_renew_def kv_release_def kv_get_def kv_next_expiry_def list_state kv_rekey_def kv_drop_def
    write_faults read_faults split: option.split)

lemma next_faults_in: "next_faults s \<in> insert no_faults (set (kv_faults s))"
  by (simp add: next_faults_def split: list.split)

lemma version_works_next: "\<forall>f \<in> set (kv_faults s). version_works f \<Longrightarrow> version_works (next_faults s)"
  using next_faults_in [of s] by (auto simp: version_works_def no_faults_def)

lemma run_faults: "lease_run P s0 n s \<Longrightarrow> set (kv_faults s) \<subseteq> set (kv_faults s0)"
proof (induction rule: lease_run.induct)
  case (called n s c s' r)
  then show ?case using call_faults [of c s] set_drop_subset [of 1 "kv_faults s"] by auto
qed auto

lemma run_numbers:
  assumes "lease_run clocked s0 n s" "kv_ok s0" "key_ahead s0" "kv_number s0 \<le> 2 ^ 62 + 3 * m" "m + n \<le> 2 ^ 60"
    "\<forall>f \<in> set (kv_faults s0). version_works f"
  shows "key_ahead s \<and> kv_number s0 \<le> kv_number s \<and> kv_number s \<le> 2 ^ 62 + 3 * (m + n)"
  using assms
proof (induction rule: lease_run.induct)
  case (called n s c s' r)
  have s: "key_ahead s" "kv_number s0 \<le> kv_number s" "kv_number s \<le> 2 ^ 62 + 3 * (m + n)"
    using called by auto
  have "kv_ok s" using run_ok called by blast
  moreover have "version_works (next_faults s)"
    using run_faults [OF called.hyps(1)] called.prems(5) by (intro version_works_next) blast
  moreover have "clock_ok (norm_time (call_now c))" using called.hyps(3) by (simp add: clocked_def)
  moreover have "kv_number s < 2 ^ 63 - 8" using s(3) called.prems(4) by simp
  ultimately have "numbers_step s s'"
    using kv_numbers [OF _ s(1)] called.hyps(2,4) by (auto simp: call_numbers_def)
  then show ?case using s by (auto simp: numbers_step_def max_def split: if_splits)
next
  case (lost n s d)
  then have "key_ahead s" "kv_number s0 \<le> kv_number s" "kv_number s \<le> 2 ^ 62 + 3 * (m + n)" by auto
  then show ?case using lost.hyps(2)
    by (auto simp: key_ahead_def kv_token_def kv_doc_version_def kv_number_def kv_map_def tokens_below_def)
qed auto

section \<open>What holds of every run\<close>

subsection \<open>A sample run\<close>

text \<open>One claim on a store without a document, whose version key reads as \<open>n\<close>.\<close>

definition sample_store :: "string option \<Rightarrow> kv" where
  "sample_store v = \<lparr>kv_document = NoDocument, kv_version = v, kv_faults = []\<rparr>"

definition sample_holder :: "string \<Rightarrow> holder" where
  "sample_holder x = \<lparr>ho_identity = x, ho_user = ''ann'', ho_tool = ''cli'', ho_label = []\<rparr>"

definition sample_hash :: string where "sample_hash = replicate 64 (CHR ''a'')"

definition sample_claim :: "string \<Rightarrow> lease_call" where
  "sample_claim x = CClaim ''T-1'' (sample_holder x) sample_hash hour (2 * hour) ''working''"

definition sample_lease :: "string \<Rightarrow> u64 \<Rightarrow> stored_lease" where
  "sample_lease x n = \<lparr>sl_identity = x, sl_user = ''ann'', sl_tool = ''cli'', sl_label = [], sl_hash = sample_hash,
     sl_token = n + 1, sl_since = hour, sl_expires = 2 * hour, sl_status = ''working''\<rparr>"

definition sample_document :: "string \<Rightarrow> u64 \<Rightarrow> u64 \<Rightarrow> u64 \<Rightarrow> document" where
  "sample_document x n v k = \<lparr>dc_token = n + 1, dc_version = v, dc_leases = [(''T-1'', sample_lease x n)], dc_version_key = k\<rparr>"

definition sample_state :: "string \<Rightarrow> u64 \<Rightarrow> kv" where
  "sample_state x n = \<lparr>kv_document = Document (sample_document x n (n + 2) 0), kv_version = Some (version_text (n + 2)),
     kv_faults = []\<rparr>"

lemma sample_times: "norm_time hour = hour" "norm_time (2 * hour) = 2 * hour" "json_time_ok hour" "json_time_ok (2 * hour)"
  by code_simp+

lemma sample_token: "n = 0 \<or> n = 2 \<Longrightarrow> next_token n hour = n + 1"
  by (auto simp: next_token_def unix_micro_def wrap64_def unix_epoch_def duration_units)

lemma sample_hash_ok: "check_hash sample_hash = None"
proof -
  have "is_hex (CHR ''a'')" by code_simp
  then have "list_all is_hex (replicate n (CHR ''a''))" for n by (induction n) simp_all
  then show ?thesis unfolding check_hash_def hashLen_def sample_hash_def by (simp only: length_replicate) simp
qed

lemma sample_check: "x \<noteq> [] \<Longrightarrow> check_claim ''T-1'' (sample_holder x) sample_hash hour (2 * hour) ''working'' = None"
proof -
  assume "x \<noteq> []"
  moreover have "check_status ''working'' = None" "hour < 2 * hour" by code_simp+
  ultimately show ?thesis
    by (simp add: check_claim_None sample_holder_def check_label_def sample_hash_ok sample_times)
qed

lemma sample_holder_ok: "utf8_valid x \<Longrightarrow> holder_text_ok ''T-1'' (sample_holder x)"
proof -
  assume "utf8_valid x"
  moreover have "utf8_valid ''T-1''" "utf8_valid ''ann''" "utf8_valid ''cli''" by code_simp+
  ultimately show ?thesis by (simp add: holder_text_ok_def sample_holder_def)
qed

lemma ann_valid: "utf8_valid ''ann''"
  by code_simp

lemma sample_text: "utf8_valid x \<Longrightarrow> lease_text_ok ''T-1'' (sample_lease x n)"
proof -
  assume "utf8_valid x"
  moreover have "utf8_valid ''T-1''" "utf8_valid ''ann''" "utf8_valid ''cli''" "utf8_valid []" "utf8_valid ''working''"
    by code_simp+
  ultimately show ?thesis using hash_utf8 [OF sample_hash_ok] by (simp add: lease_text_ok_def sample_lease_def)
qed

lemma sample_call:
  assumes "version_value v = n" "n = 0 \<or> n = 2" and x: "utf8_valid x" "x \<noteq> []"
  shows "kv_call (sample_claim x) (sample_store v) = (sample_state x n, Inr (RLease (to_lease ''T-1'' (sample_lease x n))))"
proof -
  have j: "json_text ''T-1'' = ''T-1''" "json_stored (sample_lease x n) = sample_lease x n"
    using json_stored_id [OF sample_text [OF x(1)]] by simp_all
  let ?e = "empty_document\<lparr>dc_version_key := n, dc_token := n\<rparr>"
  have d: "claim_document ''T-1'' (sample_holder x) sample_hash hour (2 * hour) ''working'' ?e =
      (sample_document x n 0 n, Visible, Inr (to_lease ''T-1'' (sample_lease x n)))"
    by (simp add: claim_document_def prune_def empty_document_def by_hash_def MaxPerStore_def MaxPerIdentity_def
        sample_token [OF assms(2)] sample_lease_def sample_holder_def sample_document_def Let_def)
  have ok: "json_stored_ok (sample_lease x n)" by (simp add: json_stored_ok_def sample_lease_def sample_times)
  have v: "max (max 0 (n + 1)) n + 1 = n + 2" using assms(2) by auto
  have f: "flush (False, False) (sample_document x n 0 n) Visible (sample_store v) = (sample_state x n, Inr (sample_document x n (n + 2) (n + 2)))"
    using v ok by (simp add: flush_def json_document_def json_leases_def j sample_store_def sample_state_def sample_document_def Let_def add.commute)
  have l: "load no_faults (sample_store v) = (sample_store v, Inr ?e)"
    by (simp add: load_def parse_document_def read_version_key_def sample_store_def no_faults_def assms(1) empty_document_def Let_def)
  have u: "next_faults (sample_store v) = no_faults" "used_faults (sample_store v) = sample_store v"
    by (simp_all add: next_faults_def used_faults_def sample_store_def)
  have nf: "\<not> ft_lock no_faults" "ft_write no_faults = (False, False)" by (simp_all add: no_faults_def)
  show ?thesis
    by (simp add: sample_claim_def kv_claim_def sample_check [OF x(2)] sample_times write_with_def u l d nf f Let_def)
qed

lemma sample_ok:
  "without_document (sample_store v)" "call_text_ok (sample_claim ''ann'')" "clocked (sample_claim ''ann'')" "any_call (sample_claim ''ann'')"
  "\<forall>f \<in> set (kv_faults (sample_store v)). version_works f"
proof -
  show "clocked (sample_claim ''ann'')" unfolding clocked_def sample_claim_def by code_simp
qed (simp_all add: without_document_def sample_store_def sample_claim_def sample_holder_ok [OF ann_valid] any_call_def)

lemma sample_version: "version_value None = 0" "version_value (Some (version_text 2)) = 2"
  by (simp add: version_value_def, rule version_value_text)

lemma sample_run: "P (sample_claim ''ann'') \<Longrightarrow> lease_run P (sample_store None) 1 (sample_state ''ann'' 0)"
  using lease_run.called [OF lease_run.start sample_ok(2), of P "sample_store None"] sample_call [of None 0 "''ann''", OF _ _ ann_valid] sample_version
  by simp

lemma sample_map: "kv_map (sample_state x n) = [''T-1'' \<mapsto> sample_lease x n]"
  by (simp add: kv_map_def sample_state_def sample_document_def)

text \<open>
  C31: Caps and secrets. In every state that calls can reach from a store without a document, whatever
  fails and whenever the document is lost, at most \<open>MaxPerStore\<close> leases are live at any instant,
  no identity holds more than \<open>MaxPerIdentity\<close> of them, and no two leases share a hash.
\<close>
theorem lease_caps_hold:
  assumes "without_document s0" "lease_run any_call s0 n s"
  shows "card (dom (live_book t (kv_map s))) \<le> 2048 \<and>
    card (held_by x (live_book t (kv_map s))) \<le> 32 \<and>
    (kv_map s i = Some l \<and> kv_map s j = Some k \<and> sl_hash l = sl_hash k \<longrightarrow> i = j)"
proof -
  have "kv_ok s" using run_ok [OF assms(2)] without_ok [OF assms(1)] by blast
  then have m: "map_ok (kv_map s)" by (rule kv_map_ok)
  have "map_ok (live_book t (kv_map s))" using map_ok_sub [OF m live_book_le] .
  then show ?thesis using map_ok_hash [OF m, of i l j k]
    by (simp add: map_ok_def MaxPerStore_def MaxPerIdentity_def)
qed

theorem lease_caps_hold_witness:
  "without_document (sample_store None) \<and> lease_run any_call (sample_store None) 1 (sample_state ''ann'' 0) \<and>
   card (dom (live_book hour (kv_map (sample_state ''ann'' 0)))) \<le> 2048 \<and>
   card (held_by ''ann'' (live_book hour (kv_map (sample_state ''ann'' 0)))) \<le> 32"
  using lease_caps_hold [OF sample_ok(1) sample_run [of any_call, OF sample_ok(4)]] sample_run [of any_call, OF sample_ok(4)] sample_ok(1) by blast

text \<open>
  C28: Refinement. On every reachable state, whatever fails underneath, each method of the store either
  reports a backend failure and leaves the leases alone, or answers and changes them as the
  abstract store says: a claim is refused exactly for a held entity, a used hash, a full store or a
  holder at the cap.
\<close>
theorem lease_calls_refine:
  assumes "without_document s0" "lease_run any_call s0 n s" "call_text_ok c" "kv_call c s = (s', r)"
  shows "call_spec c (kv_map s) (kv_map s') r \<or> backend_failed r \<and> kv_map s' = kv_map s"
  using kvlease.refines [OF _ assms(3,4)] run_ok [OF assms(2)] without_ok [OF assms(1)] by blast

theorem lease_calls_refine_witness:
  "call_spec (sample_claim ''ann'') (kv_map (sample_store None)) (kv_map (sample_state ''ann'' 0)) (Inr (RLease (to_lease ''T-1'' (sample_lease ''ann'' 0))))"
  using lease_calls_refine [OF sample_ok(1) lease_run.start sample_ok(2) sample_call [of None 0 "''ann''", OF _ _ ann_valid]] sample_version(1)
  by (simp add: backend_failed_def)

text \<open>
  C29: Exclusive. A live lease stays as it is through any calls made before its expiry that are not its
  holder's renew or release and not the rename or delete of its entity; and no claim on its entity
  succeeds while it is live, by anyone, the holder included.
\<close>
theorem lease_is_exclusive:
  assumes "without_document s0" "lease_run any_call s0 n s" "kv_map s i = Some l"
    and "\<forall>c \<in> set cs. call_text_ok c \<and> \<not> acts_on c i l \<and> norm_time (call_now c) < sl_expires l"
    and "holder_text_ok i h" "norm_time now < sl_expires l"
  shows "kv_map (kv_calls cs s) i = Some l \<and>
    snd (kv_call (CClaim i h k now until status) (kv_calls cs s)) \<noteq> Inr (RLease x)"
proof -
  have ok: "kv_ok s" using run_ok [OF assms(2)] without_ok [OF assms(1)] by blast
  have keep: "kv_map (kv_calls cs s) i = Some l \<and> kv_ok (kv_calls cs s)"
    using ok assms(3,4)
  proof (induction cs arbitrary: s)
    case (Cons c cs)
    have call: "kv_call c s = (fst (kv_call c s), snd (kv_call c s))" by simp
    have c: "call_text_ok c" "\<not> acts_on c i l" "stored_live (norm_time (call_now c)) l"
      using Cons.prems(3) by (simp_all add: stored_live_def)
    have "kv_map (fst (kv_call c s)) i = Some l"
      using kvlease.lease_stays [OF Cons.prems(1) c(1) call Cons.prems(2) c(3,2)] .
    moreover have "kv_ok (fst (kv_call c s))" using kvlease.keeps_ok [OF Cons.prems(1) c(1) call] .
    ultimately show ?case using Cons by simp
  qed simp
  have "snd (kv_call (CClaim i h k now until status) (kv_calls cs s)) \<noteq> Inr (RLease x)"
  proof
    assume "snd (kv_call (CClaim i h k now until status) (kv_calls cs s)) = Inr (RLease x)"
    then obtain s' where "kv_call (CClaim i h k now until status) (kv_calls cs s) = (s', Inr (RLease x))"
      by (metis prod.collapse)
    from kvlease.claim_wins(1) [OF conjunct2 [OF keep] assms(5) this] show False
      using keep assms(6) by (simp add: live_book_None stored_live_def)
  qed
  with keep show ?thesis by blast
qed

theorem lease_is_exclusive_witness:
  "kv_map (kv_calls [CNextExpiry hour] (sample_state ''ann'' 0)) ''T-1'' = Some (sample_lease ''ann'' 0) \<and>
   snd (kv_call (CClaim ''T-1'' (sample_holder ''ann'') sample_hash hour (2 * hour) [])
     (kv_calls [CNextExpiry hour] (sample_state ''ann'' 0))) \<noteq> Inr (RLease (to_lease ''T-1'' (sample_lease ''ann'' 0)))"
proof (rule lease_is_exclusive [OF sample_ok(1) sample_run [of any_call, OF sample_ok(4)]])
  have "hour < 2 * hour" by code_simp
  then show "\<forall>c \<in> set [CNextExpiry hour]. call_text_ok c \<and> \<not> acts_on c ''T-1'' (sample_lease ''ann'' 0) \<and>
      norm_time (call_now c) < sl_expires (sample_lease ''ann'' 0)" and "norm_time hour < sl_expires (sample_lease ''ann'' 0)"
    by (simp_all add: sample_lease_def sample_times)
qed (simp_all add: sample_map sample_holder_ok [OF ann_valid])

text \<open>
  C30: Fencing. While the version key can be read and written, a claim's token is larger than the token
  of every lease any earlier state of the run held, across renews, renames, expiries and the loss of
  the cache document: no two claims of one store ever share a token.
\<close>
theorem lease_tokens_increase:
  assumes "without_document s0" "kv_number s0 \<le> 2 ^ 62" "\<forall>f \<in> set (kv_faults s0). version_works f"
    and "lease_run clocked s0 m s1" "kv_map s1 j = Some old"
    and "lease_run clocked s1 n s" "m + n < 2 ^ 60"
    and "holder_text_ok i h" "clock_ok (norm_time now)"
    and "kv_call (CClaim i h k now until status) s = (s', Inr (RLease l))"
  shows "sl_token old < le_token l"
proof -
  have ok0: "kv_ok s0" "key_ahead s0"
    using without_ok [OF assms(1)] by (simp_all add: key_ahead_def tokens_below_def)
  have s1: "key_ahead s1 \<and> kv_number s0 \<le> kv_number s1 \<and> kv_number s1 \<le> 2 ^ 62 + 3 * (0 + m)"
    by (rule run_numbers [OF assms(4) ok0 _ _ assms(3)]) (use assms(2,7) in simp_all)
  have ok1: "kv_ok s1" using run_ok [OF assms(4) ok0(1)] .
  have f1: "\<forall>f \<in> set (kv_faults s1). version_works f" using run_faults [OF assms(4)] assms(3) by blast
  have s: "key_ahead s \<and> kv_number s1 \<le> kv_number s \<and> kv_number s \<le> 2 ^ 62 + 3 * (m + n)"
    by (rule run_numbers [OF assms(6) ok1 conjunct1 [OF s1] _ _ f1]) (use s1 assms(7) in simp_all)
  have ok: "kv_ok s" using run_ok [OF assms(6) ok1] .
  have f: "version_works (next_faults s)"
    using run_faults [OF assms(6)] f1 by (intro version_works_next) blast
  have low: "kv_number s < 2 ^ 63 - 8" using conjunct2 [OF conjunct2 [OF s]] assms(7) by simp
  have "call_numbers (CClaim i h k now until status) s s' (Inr (RLease l))"
    by (rule kv_numbers [OF ok conjunct1 [OF s] low f _ _ assms(10)]) (use assms(8,9) in simp_all)
  then have "kv_number s < unat (le_token l)" by (simp add: call_numbers_def)
  moreover have "unat (sl_token old) \<le> kv_number s1"
    using s1 assms(5) by (auto simp: key_ahead_def tokens_below_def)
  ultimately show ?thesis using s by (simp add: word_less_nat_alt)
qed

theorem lease_tokens_increase_witness:
  "kv_map (sample_state ''ann'' 0) ''T-1'' = Some (sample_lease ''ann'' 0) \<and>
   kv_call (sample_claim ''ann'') ((sample_state ''ann'' 0)\<lparr>kv_document := NoDocument\<rparr>) =
     (sample_state ''ann'' 2, Inr (RLease (to_lease ''T-1'' (sample_lease ''ann'' 2)))) \<and>
   sl_token (sample_lease ''ann'' 0) < le_token (to_lease ''T-1'' (sample_lease ''ann'' 2))"
proof -
  have st: "(sample_state ''ann'' 0)\<lparr>kv_document := NoDocument\<rparr> = sample_store (Some (version_text 2))"
    by (simp add: sample_state_def sample_store_def)
  have call: "kv_call (sample_claim ''ann'') ((sample_state ''ann'' 0)\<lparr>kv_document := NoDocument\<rparr>) =
      (sample_state ''ann'' 2, Inr (RLease (to_lease ''T-1'' (sample_lease ''ann'' 2))))"
    unfolding st by (rule sample_call [OF sample_version(2) _ ann_valid]) simp_all
  have run: "lease_run clocked (sample_state ''ann'' 0) 0 ((sample_state ''ann'' 0)\<lparr>kv_document := NoDocument\<rparr>)"
    by (intro lease_run.lost lease_run.start) simp
  have num: "kv_number (sample_store None) \<le> 2 ^ 62" by (simp add: kv_number_def sample_store_def sample_version)
  have clk: "clock_ok (norm_time hour)" using sample_ok(3) by (simp add: clocked_def sample_claim_def)
  have old: "kv_map (sample_state ''ann'' 0) ''T-1'' = Some (sample_lease ''ann'' 0)" by (simp add: sample_map)
  show ?thesis
    using lease_tokens_increase [OF sample_ok(1) num sample_ok(5) sample_run [of clocked, OF sample_ok(3)] old run _ sample_holder_ok [OF ann_valid] clk
        call [unfolded sample_claim_def]] old call by simp
qed

text \<open>
  Version. While the version key can be read and written, a call moves the version that watchers
  poll exactly when a reader at the call's instant sees a change other than a later expiry: no write
  by a refused or failed call, no removal of expired leases and no plain extension moves it.
\<close>
theorem lease_version_exact:
  assumes "without_document s0" "kv_number s0 \<le> 2 ^ 62" "\<forall>f \<in> set (kv_faults s0). version_works f"
    and "lease_run clocked s0 n s" "n < 2 ^ 60" "kv_document s \<noteq> DamagedDocument"
    and "call_text_ok c" "clock_ok (norm_time (call_now c))" "kv_call c s = (s', r)"
  shows "version_value (kv_version s') \<noteq> version_value (kv_version s) \<longleftrightarrow>
    seen_change (norm_time (call_now c)) (kv_map s) (kv_map s')"
proof -
  have ok0: "kv_ok s0" "key_ahead s0"
    using without_ok [OF assms(1)] by (simp_all add: key_ahead_def tokens_below_def)
  have s: "key_ahead s \<and> kv_number s0 \<le> kv_number s \<and> kv_number s \<le> 2 ^ 62 + 3 * (0 + n)"
    by (rule run_numbers [OF assms(4) ok0 _ _ assms(3)]) (use assms(2,5) in simp_all)
  have ok: "kv_ok s" using run_ok [OF assms(4) ok0(1)] .
  have f: "version_works (next_faults s)"
    using run_faults [OF assms(4)] assms(3) by (intro version_works_next) blast
  have low: "kv_number s < 2 ^ 63 - 8" using conjunct2 [OF conjunct2 [OF s]] assms(5) by simp
  have "call_numbers c s s' r"
    by (rule kv_numbers [OF ok conjunct1 [OF s] low f assms(7-9)])
  then show ?thesis using assms(6) by (simp add: call_numbers_def kv_number_def word_unat_eq_iff)
qed

theorem lease_version_exact_witness:
  "version_value (kv_version (sample_state ''ann'' 0)) \<noteq> version_value (kv_version (sample_store None)) \<longleftrightarrow>
   seen_change hour (kv_map (sample_store None)) (kv_map (sample_state ''ann'' 0))"
proof -
  have num: "kv_number (sample_store None) \<le> 2 ^ 62" by (simp add: kv_number_def sample_store_def sample_version)
  have doc: "kv_document (sample_store None) \<noteq> DamagedDocument" by (simp add: sample_store_def)
  have clk: "clock_ok (norm_time (call_now (sample_claim ''ann'')))" using sample_ok(3) by (simp add: clocked_def)
  have now: "norm_time (call_now (sample_claim ''ann'')) = hour" by (simp add: sample_claim_def sample_times)
  show ?thesis
    using lease_version_exact [OF sample_ok(1) num sample_ok(5) lease_run.start _ doc sample_ok(2) clk
        sample_call [of None 0 "''ann''", OF _ _ ann_valid]] sample_version(1) unfolding now by simp
qed

end
