(* ===== verification/Principal.thy ===== *)
theory Principal
  imports Lease
begin

text \<open>
  Who acts: \<^verbatim>\<open>internal/principal/principal.go\<close>. The verified claims are unexported fields in the code;
  here they are fields like the others. A nil slice and an empty one are one list, as the accessors
  return them. The context value is an \<open>option\<close>; JSON forms and environment reads are left out.
\<close>

section \<open>Principals\<close>

record principal =
  pr_user :: string
  pr_tool :: string
  pr_raw_user :: string
  pr_org :: string
  pr_org_slug :: string
  pr_org_name :: string
  pr_roles :: "string list"
  pr_claimed_type :: string
  pr_scopes :: "string list"
  pr_email :: string

definition unknown_user :: string where "unknown_user = ''unknown''"

definition principal_zero :: "principal \<Rightarrow> bool" where
  "principal_zero p \<longleftrightarrow> pr_user p = [] \<and> pr_tool p = [] \<and> pr_raw_user p = []"

record claims =
  cl_org :: string
  cl_org_slug :: string
  cl_roles :: "string list"
  cl_org_name :: string
  cl_type :: string
  cl_scopes :: "string list"
  cl_email :: string

definition no_claims :: claims where
  "no_claims = \<lparr>cl_org = [], cl_org_slug = [], cl_roles = [], cl_org_name = [], cl_type = [], cl_scopes = [], cl_email = []\<rparr>"

definition verified_from :: "string \<Rightarrow> string \<Rightarrow> claims \<Rightarrow> principal" where
  "verified_from user tool c =
     \<lparr>pr_user = user, pr_tool = tool, pr_raw_user = [], pr_org = cl_org c, pr_org_slug = cl_org_slug c,
      pr_org_name = cl_org_name c, pr_roles = cl_roles c, pr_claimed_type = cl_type c, pr_scopes = cl_scopes c,
      pr_email = cl_email c\<rparr>"

definition with_email :: "string \<Rightarrow> principal \<Rightarrow> principal" where
  "with_email email p = p\<lparr>pr_email := email\<rparr>"

definition sanitized :: "(string \<Rightarrow> string) \<Rightarrow> principal \<Rightarrow> principal" where
  "sanitized clean p =
     \<lparr>pr_user = clean (pr_user p), pr_tool = clean (pr_tool p), pr_raw_user = clean (pr_raw_user p),
      pr_org = clean (pr_org p), pr_org_slug = clean (pr_org_slug p), pr_org_name = clean (pr_org_name p),
      pr_roles = map clean (pr_roles p), pr_claimed_type = clean (pr_claimed_type p),
      pr_scopes = map clean (pr_scopes p), pr_email = clean (pr_email p)\<rparr>"

text \<open>\<open>principal.From\<close> stands a caller without a principal for the user and tool \<open>unknown\<close>.\<close>

definition principal_from :: "principal option \<Rightarrow> principal" where
  "principal_from who = (case who of None \<Rightarrow> verified_from unknown_user unknown_user no_claims | Some p \<Rightarrow> p)"

section \<open>Reserved identities\<close>

definition reserved_prefix :: string where "reserved_prefix = ''system:''"
definition integration_prefix :: string where "integration_prefix = ''integration:''"
definition webhook_user_prefix :: string where "webhook_user_prefix = reserved_prefix @ ''webhook:''"
definition subscription_user_prefix :: string where "subscription_user_prefix = reserved_prefix @ ''subscription:''"
definition type_webhook :: string where "type_webhook = ''webhook''"

text \<open>\<open>strings.CutPrefix\<close>.\<close>

definition cut_prefix :: "string \<Rightarrow> string \<Rightarrow> string option" where
  "cut_prefix s p = (if has_prefix s p then Some (drop (length p) s) else None)"

definition is_webhook_user :: "string \<Rightarrow> bool" where
  "is_webhook_user user \<longleftrightarrow> (case cut_prefix user webhook_user_prefix of None \<Rightarrow> False | Some i \<Rightarrow> i \<noteq> [])"

definition principal_type :: "principal \<Rightarrow> string" where
  "principal_type p = (if is_webhook_user (pr_user p) then type_webhook else pr_claimed_type p)"

definition webhook :: "string \<Rightarrow> principal" where
  "webhook hook = verified_from (webhook_user_prefix @ hook) ''webhook-receiver'' (no_claims\<lparr>cl_type := type_webhook\<rparr>)"

definition rela_users :: "string list" where
  "rela_users = [''system:scheduler'', ''system:provisioner'', ''system:automation'', ''system:realtime'', ''system:mail'',
     ''system:fs-import'', ''system:gc-sweep'', ''system:perf-seed'']"

definition is_rela_identity :: "string \<Rightarrow> bool" where
  "is_rela_identity user \<longleftrightarrow>
     user \<in> set rela_users \<or> has_prefix user webhook_user_prefix \<or> has_prefix user subscription_user_prefix"

definition windows_reserved :: "string list" where
  "windows_reserved = [''con'', ''prn'', ''aux'', ''nul''] @
     map (\<lambda>d. ''com'' @ [d]) ''123456789'' @ map (\<lambda>d. ''lpt'' @ [d]) ''123456789''"

definition valid_integration_name :: "string \<Rightarrow> bool" where
  "valid_integration_name name \<longleftrightarrow>
     name \<noteq> [] \<and> length name \<le> 63 \<and>
     list_all (\<lambda>i. let c = name ! i in is_lower c \<or> is_digit c \<or> ((c = CHR ''_'' \<or> c = CHR ''-'') \<and> i > 0)) [0..<length name] \<and>
     name \<notin> set windows_reserved"

text \<open>\<open>strings.Split\<close> at a one-byte separator.\<close>

fun split_at_char :: "char \<Rightarrow> string \<Rightarrow> string list" where
  "split_at_char sep [] = [[]]"
| "split_at_char sep (c # s) =
     (if c = sep then [] # split_at_char sep s
      else case split_at_char sep s of [] \<Rightarrow> [[c]] | seg # segs \<Rightarrow> (c # seg) # segs)"

definition valid_system_name :: "string \<Rightarrow> bool" where
  "valid_system_name name \<longleftrightarrow> name \<noteq> [] \<and> list_all valid_integration_name (split_at_char (CHR '':'') name)"

text \<open>\<open>unicode.IsSpace\<close>.\<close>

definition rune_space :: "int \<Rightarrow> bool" where
  "rune_space r \<longleftrightarrow> (9 \<le> r \<and> r \<le> 13) \<or> r = 32 \<or> r = 133 \<or> r = 160 \<or> r = 5760 \<or> (8192 \<le> r \<and> r \<le> 8202) \<or>
     r = 8232 \<or> r = 8233 \<or> r = 8239 \<or> r = 8287 \<or> r = 12288"

function trim_reserved_noise :: "string \<Rightarrow> string" where
  "trim_reserved_noise s =
     (if s = [] then []
      else let r = rune_at s in
        if rune_space r \<or> r \<le> 31 \<or> r = 127 then trim_reserved_noise (drop (max 1 (rune_width s)) s) else s)"
  by pat_completeness auto
termination by (relation "measure length") (auto intro!: diff_less)

declare trim_reserved_noise.simps [simp del]

definition is_reserved :: "string \<Rightarrow> bool" where
  "is_reserved user \<longleftrightarrow>
     (let u = trim_reserved_noise user in has_prefix u reserved_prefix \<or> has_prefix u integration_prefix)"

text \<open>\<open>strings.TrimSpace(s) == s\<close>: neither end of the string is a space rune.\<close>

definition trimmed :: "string \<Rightarrow> bool" where
  "trimmed s \<longleftrightarrow> s = [] \<or>
     (\<not> rune_space (rune_at s) \<and>
      \<not> list_ex (\<lambda>k. rune_width (drop k s) = length s - k \<and> rune_space (rune_at (drop k s))) [0..<length s])"

datatype run_as_error = RunAsSpace | RunAsControl | RunAsIntegration | RunAsReserved | NotJobIdentity | BadSystemName

definition validate_run_as :: "string \<Rightarrow> (string \<Rightarrow> bool) option \<Rightarrow> run_as_error option" where
  "validate_run_as run_as allow_system =
     (if \<not> trimmed run_as \<or> run_as = [] then Some RunAsSpace
      else if list_ex isControl (runes run_as) then Some RunAsControl
      else case cut_prefix run_as integration_prefix of
        Some name \<Rightarrow> if valid_integration_name name then None else Some RunAsIntegration
      | None \<Rightarrow>
          if has_prefix run_as reserved_prefix \<and> (case allow_system of None \<Rightarrow> True | Some allowed \<Rightarrow> \<not> allowed run_as)
          then Some RunAsReserved else None)"

definition valid_job_identity :: "string \<Rightarrow> run_as_error option" where
  "valid_job_identity name =
     (if \<not> has_prefix name reserved_prefix \<and> \<not> has_prefix name integration_prefix then Some NotJobIdentity
      else if (case cut_prefix name reserved_prefix of None \<Rightarrow> False | Some rest \<Rightarrow> \<not> valid_system_name rest)
      then Some BadSystemName
      else validate_run_as name (Some (\<lambda>n. \<not> is_rela_identity n)))"

section \<open>Facts\<close>

lemma verified_from_fields [simp]:
  "pr_user (verified_from user tool c) = user" "pr_tool (verified_from user tool c) = tool"
  "pr_raw_user (verified_from user tool c) = []" "pr_roles (verified_from user tool c) = cl_roles c"
  "pr_claimed_type (verified_from user tool c) = cl_type c" "pr_scopes (verified_from user tool c) = cl_scopes c"
  by (simp_all add: verified_from_def)

lemma has_prefix_shorter: "has_prefix s (p @ q) \<Longrightarrow> has_prefix s p"
  unfolding has_prefix_def by (metis append_eq_conv_conj append_take_drop_id append_assoc)

text \<open>No job, webhook or \<open>run_as\<close> can name an identity that rela keeps for itself.\<close>

lemma job_identity_not_rela: "valid_job_identity name = None \<Longrightarrow> \<not> is_rela_identity name"
proof
  assume a: "valid_job_identity name = None" "is_rela_identity name"
  have "has_prefix name reserved_prefix"
    using a(2) has_prefix_shorter [of name reserved_prefix]
    by (auto simp: is_rela_identity_def rela_users_def webhook_user_prefix_def subscription_user_prefix_def)
      (auto simp: reserved_prefix_def has_prefix_def)
  moreover from this have "cut_prefix name integration_prefix = None"
    by (cases name) (auto simp: cut_prefix_def has_prefix_def reserved_prefix_def integration_prefix_def)
  ultimately show False
    using a by (auto simp: valid_job_identity_def validate_run_as_def split: if_splits option.splits)
qed

lemma webhook_type [simp]: "hook \<noteq> [] \<Longrightarrow> principal_type (webhook hook) = type_webhook"
  by (simp add: principal_type_def webhook_def no_claims_def)

end
