(* ===== verification/Lease_Service.thy ===== *)
theory Lease_Service
  imports Lease_Store Principal
begin

text \<open>
  The lease service in front of the store, \<^verbatim>\<open>internal/lease/service.go\<close> and wake.go: who may
  claim, the re-check on a renew, what answers show, and the wake-ups. The store is a parameter, the
  interface of \<^verbatim>\<open>lease.Store\<close> as one function on calls; so are the read gate, the authorizer, the
  clock (the instant \<open>now\<close>), the random lease id and SHA-256, which the service is given. Logging is
  left out.

  The store may change between two store calls of one service call: \<open>others k\<close> is what other callers
  did before the \<open>k\<close>-th.
\<close>

section \<open>Identities\<close>

text \<open>A JSON string as \<open>encoding/json\<close> writes it.\<close>

definition hex_digit :: "nat \<Rightarrow> char" where
  "hex_digit d = (if d < 10 then char_of (48 + d) else char_of (87 + d))"

definition json_char :: "char \<Rightarrow> string" where
  "json_char c =
     (let b = code c; bs = char_of (92 :: nat) in
      if b = 34 \<or> b = 92 then [bs, c]
      else if b = 8 then [bs, CHR ''b''] else if b = 12 then [bs, CHR ''f'']
      else if b = 10 then [bs, CHR ''n''] else if b = 13 then [bs, CHR ''r''] else if b = 9 then [bs, CHR ''t'']
      else if b < 32 \<or> c = CHR ''<'' \<or> c = CHR ''>'' \<or> c = CHR ''&''
      then [bs, CHR ''u'', CHR ''0'', CHR ''0'', hex_digit (b div 16), hex_digit (b mod 16)]
      else [c])"

function json_body :: "string \<Rightarrow> string" where
  "json_body s =
     (if s = [] then []
      else if rune_width s = 0 then char_of (92 :: nat) # ''ufffd'' @ json_body (drop 1 s)
      else if rune_width s = 1 then json_char (hd s) @ json_body (drop 1 s)
      else if rune_at s = 8232 \<or> rune_at s = 8233
      then char_of (92 :: nat) # ''u202'' @ [if rune_at s = 8232 then CHR ''8'' else CHR ''9''] @ json_body (drop 3 s)
      else take (rune_width s) s @ json_body (drop (rune_width s) s))"
  by pat_completeness auto
termination by (relation "measure length") auto

declare json_body.simps [simp del]

definition json_quote :: "string \<Rightarrow> string" where
  "json_quote s = char_of (34 :: nat) # json_body s @ [char_of (34 :: nat)]"

definition json_strings :: "string list \<Rightarrow> string" where
  "json_strings ss = CHR ''['' # concat (map (\<lambda>i. (if i = 0 then [] else '','') @ json_quote (ss ! i)) [0..<length ss]) @ '']''"

definition identity :: "(string \<Rightarrow> string) \<Rightarrow> principal \<Rightarrow> string" where
  "identity sha p = sha (json_strings [pr_user p, pr_tool p, pr_raw_user p, pr_org p])"

section \<open>The collaborators\<close>

datatype service_error =
    NoPrincipal
  | NotFound
  | Ambiguous string
  | Forbidden
  | Lease_Error lease_error
  | Gate_Error string
  | Random_Error

record family =
  fm_type :: string
  fm_faces :: "face list"

text \<open>The interface \<open>lease.Store\<close>.\<close>

record 's lease_ops =
  op_claim :: "string \<Rightarrow> holder \<Rightarrow> string \<Rightarrow> instant \<Rightarrow> instant \<Rightarrow> string \<Rightarrow> 's \<Rightarrow> 's \<times> (lease_error + lease)"
  op_renew :: "string \<Rightarrow> string \<Rightarrow> instant \<Rightarrow> instant \<Rightarrow> string option \<Rightarrow> 's \<Rightarrow> 's \<times> (lease_error + lease)"
  op_lookup :: "string \<Rightarrow> string \<Rightarrow> instant \<Rightarrow> 's \<Rightarrow> 's \<times> (lease_error + lease)"
  op_release :: "string \<Rightarrow> string \<Rightarrow> instant \<Rightarrow> 's \<Rightarrow> 's \<times> (lease_error + unit)"
  op_get :: "string list \<Rightarrow> instant \<Rightarrow> 's \<Rightarrow> 's \<times> (lease_error + lease dict)"
  op_list_by_holder :: "string \<Rightarrow> instant \<Rightarrow> 's \<Rightarrow> 's \<times> (lease_error + lease list)"
  op_next_expiry :: "instant \<Rightarrow> 's \<Rightarrow> 's \<times> (lease_error + instant option)"
  op_rekey :: "string \<Rightarrow> string \<Rightarrow> instant \<Rightarrow> 's \<Rightarrow> 's \<times> (lease_error + unit)"
  op_drop :: "string \<Rightarrow> instant \<Rightarrow> 's \<Rightarrow> 's \<times> (lease_error + unit)"
  op_version :: "'s \<Rightarrow> 's \<times> (lease_error + u64)"

text \<open>The key-value backend; \<open>win\<close> is its \<open>lockVersion\<close>.\<close>

definition kv_ops :: "bool \<Rightarrow> kv lease_ops" where
  "kv_ops win =
     \<lparr>op_claim = kv_claim, op_renew = kv_renew, op_lookup = kv_lookup, op_release = kv_release, op_get = kv_get,
      op_list_by_holder = kv_list_by_holder, op_next_expiry = kv_next_expiry, op_rekey = kv_rekey, op_drop = kv_drop,
      op_version = kv_read_version win\<rparr>"

text \<open>The read gate and the authorizer, for the principal of one request.\<close>

record gate =
  ga_family :: "string \<Rightarrow> service_error + family option"
  ga_write_target :: "string \<Rightarrow> service_error + ref"
  ga_readable :: "string list \<Rightarrow> service_error + string list"
  ga_authorize :: "string \<Rightarrow> ref \<Rightarrow> bool"

record claim_request =
  cr_addr :: string
  cr_ttl :: duration
  cr_label :: string
  cr_status :: string
  cr_type :: string

section \<open>Wake-ups\<close>

text \<open>The hub: each subscriber's channel holds at most one value.\<close>

type_synonym hub = "(nat \<times> bool) list"

definition hub_wake :: "hub \<Rightarrow> hub" where
  "hub_wake h = map (\<lambda>(k, full). (k, True)) h"

definition hub_subscribe :: "nat \<Rightarrow> hub \<Rightarrow> hub" where
  "hub_subscribe k h = (k, False) # h"

definition hub_cancel :: "nat \<Rightarrow> hub \<Rightarrow> hub" where
  "hub_cancel k h = filter (\<lambda>(j, full). j \<noteq> k) h"

definition hub_receive :: "nat \<Rightarrow> hub \<Rightarrow> hub \<times> bool" where
  "hub_receive k h = (map (\<lambda>(j, full). (j, if j = k then False else full)) h, (k, True) \<in> set h)"

record 's service =
  sv_store :: 's
  sv_hub :: hub

section \<open>Checks\<close>

definition DefaultTTL :: duration where "DefaultTTL = 15 * minute"
definition MinTTL :: duration where "MinTTL = 30 * second"
definition MaxTTL :: duration where "MaxTTL = hour"

definition check_ttl :: "duration \<Rightarrow> invalid_input + duration" where
  "check_ttl ttl =
     (if ttl = 0 then Inr DefaultTTL
      else if ttl < MinTTL \<or> ttl > MaxTTL then Inl BadTTL
      else Inr ttl)"

definition check_request :: "claim_request \<Rightarrow> invalid_input + duration" where
  "check_request req =
     (if cr_addr req = [] then Inl EmptyAddress
      else case check_label (cr_label req) of
        Some e \<Rightarrow> Inl e
      | None \<Rightarrow> (case check_status (cr_status req) of Some e \<Rightarrow> Inl e | None \<Rightarrow> check_ttl (cr_ttl req)))"

definition check_lease_id :: "string \<Rightarrow> invalid_input option" where
  "check_lease_id i = (if length i = 32 \<and> list_all is_hex i then None else Some BadLeaseId)"

definition check_renewal :: "string \<Rightarrow> duration \<Rightarrow> string option \<Rightarrow> invalid_input + duration" where
  "check_renewal leaseID ttl status =
     (case check_lease_id leaseID of
        Some e \<Rightarrow> Inl e
      | None \<Rightarrow>
          (case (case status of None \<Rightarrow> None | Some t \<Rightarrow> check_status t) of
             Some e \<Rightarrow> Inl e
           | None \<Rightarrow> check_ttl ttl))"

definition lease_caller :: "principal option \<Rightarrow> service_error + principal" where
  "lease_caller p =
     (case p of
        None \<Rightarrow> Inl NoPrincipal
      | Some q \<Rightarrow> if principal_zero q \<or> pr_user q = unknown_user then Inl NoPrincipal else Inr q)"

definition public_lease :: "lease \<Rightarrow> lease" where
  "public_lease l = l\<lparr>le_hash := [], le_holder := (le_holder l)\<lparr>ho_identity := []\<rparr>\<rparr>"

text \<open>\<open>mayUpdate\<close>: a miss is a denial, any other gate error is reported.\<close>

definition may_update :: "gate \<Rightarrow> string \<Rightarrow> service_error + bool" where
  "may_update g i =
     (case ga_family g i of
        Inl e \<Rightarrow> if e = NotFound then Inr False else Inl e
      | Inr None \<Rightarrow> Inr False
      | Inr (Some fam) \<Rightarrow> Inr (list_ex (\<lambda>f. ga_authorize g (fm_type fam) \<lparr>ref_id = i, ref_face = f\<rparr>) (fm_faces fam)))"

section \<open>Claim, renew and release\<close>

text \<open>The part of \<open>Claim\<close> before the store is asked: the entity and the duration, or the refusal.\<close>

definition claim_target :: "gate \<Rightarrow> principal option \<Rightarrow> claim_request \<Rightarrow> service_error + (principal \<times> ref \<times> duration)" where
  "claim_target g who req =
     (case lease_caller who of
        Inl e \<Rightarrow> Inl e
      | Inr p \<Rightarrow>
     (case check_request req of
        Inl e \<Rightarrow> Inl (Lease_Error (ErrInvalid e))
      | Inr ttl \<Rightarrow>
     (case parse_address (cr_addr req) of
        Inl e \<Rightarrow> Inl NotFound
      | Inr addr \<Rightarrow>
     (case ga_family g (addr_id addr) of
        Inl e \<Rightarrow> Inl e
      | Inr None \<Rightarrow> Inl NotFound
      | Inr (Some fam) \<Rightarrow>
          if cr_type req \<noteq> [] \<and> cr_type req \<noteq> fm_type fam then Inl NotFound
          else (case ga_write_target g (cr_addr req) of
             Inl e \<Rightarrow> Inl e
           | Inr ref \<Rightarrow>
               if \<not> ga_authorize g (fm_type fam) ref then Inl Forbidden
               else Inr (p, ref, ttl))))))"

definition service_claim ::
  "'s lease_ops \<Rightarrow> (string \<Rightarrow> string) \<Rightarrow> gate \<Rightarrow> principal option \<Rightarrow> claim_request \<Rightarrow> instant \<Rightarrow> string option \<Rightarrow>
   's service \<Rightarrow> 's service \<times> (service_error + string \<times> lease)" where
  "service_claim ops sha g who req now random s =
     (case claim_target g who req of
        Inl e \<Rightarrow> (s, Inl e)
      | Inr (p, ref, ttl) \<Rightarrow>
          (case random of
             None \<Rightarrow> (s, Inl Random_Error)
           | Some leaseID \<Rightarrow>
               let h = \<lparr>ho_identity = identity sha p, ho_user = pr_user p, ho_tool = pr_tool p, ho_label = cr_label req\<rparr> in
               (case op_claim ops (ref_id ref) h (sha leaseID) now (now + ttl) (cr_status req) (sv_store s) of
                  (s1, Inl e) \<Rightarrow>
                    (s\<lparr>sv_store := s1\<rparr>,
                     Inl (Lease_Error (case e of Held cur \<Rightarrow> Held (public_lease cur) | _ \<Rightarrow> e)))
                | (s1, Inr l) \<Rightarrow>
                    (s\<lparr>sv_store := s1, sv_hub := hub_wake (sv_hub s)\<rparr>, Inr (leaseID, public_lease l)))))"

text \<open>
  \<open>Renew\<close>. A denied first check looks the lease up again: a rename may have moved it between the two
  reads. The result is the lease to renew or, with \<open>None\<close>, that access is lost.
\<close>

definition renew_check ::
  "'s lease_ops \<Rightarrow> gate \<Rightarrow> (nat \<Rightarrow> 's \<Rightarrow> 's) \<Rightarrow> string \<Rightarrow> string \<Rightarrow> instant \<Rightarrow> 's \<Rightarrow> 's \<times> (service_error + lease option)" where
  "renew_check ops g others hash x now s =
     (case op_lookup ops hash x now (others 0 s) of
        (s1, Inl e) \<Rightarrow> (s1, Inl (Lease_Error e))
      | (s1, Inr cur) \<Rightarrow>
     (case may_update g (le_id cur) of
        Inl e \<Rightarrow> (s1, Inl e)
      | Inr True \<Rightarrow> (s1, Inr (Some cur))
      | Inr False \<Rightarrow>
     (case op_lookup ops hash x now (others 1 s1) of
        (s2, Inl e) \<Rightarrow> (s2, Inl (Lease_Error e))
      | (s2, Inr again) \<Rightarrow>
          if le_id again = le_id cur then (s2, Inr None)
          else (case may_update g (le_id again) of
             Inl e \<Rightarrow> (s2, Inl e)
           | Inr allowed \<Rightarrow> (s2, Inr (if allowed then Some again else None))))))"

definition service_renew ::
  "'s lease_ops \<Rightarrow> (string \<Rightarrow> string) \<Rightarrow> gate \<Rightarrow> (nat \<Rightarrow> 's \<Rightarrow> 's) \<Rightarrow> principal option \<Rightarrow> string \<Rightarrow> duration \<Rightarrow>
   string option \<Rightarrow> instant \<Rightarrow> 's service \<Rightarrow> 's service \<times> (service_error + lease)" where
  "service_renew ops sha g others who leaseID ttl status now s =
     (case lease_caller who of
        Inl e \<Rightarrow> (s, Inl e)
      | Inr p \<Rightarrow>
     (case check_renewal leaseID ttl status of
        Inl e \<Rightarrow> (s, Inl (Lease_Error (ErrInvalid e)))
      | Inr ttl' \<Rightarrow>
     (let x = identity sha p; hash = sha leaseID in
      case renew_check ops g others hash x now (sv_store s) of
        (s1, Inl e) \<Rightarrow> (s\<lparr>sv_store := s1\<rparr>, Inl e)
      | (s1, Inr None) \<Rightarrow>
          (case op_release ops hash x now (others 2 s1) of
             (s2, Inl e) \<Rightarrow> (s\<lparr>sv_store := s2\<rparr>, Inl (Lease_Error e))
           | (s2, Inr u) \<Rightarrow> (s\<lparr>sv_store := s2, sv_hub := hub_wake (sv_hub s)\<rparr>, Inl (Lease_Error ErrLost)))
      | (s1, Inr (Some cur)) \<Rightarrow>
          (case op_renew ops hash x now (now + ttl') status (others 2 s1) of
             (s2, Inl e) \<Rightarrow> (s\<lparr>sv_store := s2\<rparr>, Inl (Lease_Error e))
           | (s2, Inr l) \<Rightarrow>
               let changed = (status \<noteq> None \<and> status \<noteq> Some (le_status cur)) in
               (s\<lparr>sv_store := s2,
                  sv_hub := (if changed \<or> le_expires l < le_expires cur then hub_wake (sv_hub s) else sv_hub s)\<rparr>,
                Inr (public_lease l))))))"

definition service_release ::
  "'s lease_ops \<Rightarrow> (string \<Rightarrow> string) \<Rightarrow> principal option \<Rightarrow> string \<Rightarrow> instant \<Rightarrow> 's service \<Rightarrow> 's service \<times> (service_error + unit)" where
  "service_release ops sha who leaseID now s =
     (case lease_caller who of
        Inl e \<Rightarrow> (s, Inl e)
      | Inr p \<Rightarrow>
     (case check_lease_id leaseID of
        Some e \<Rightarrow> (s, Inl (Lease_Error (ErrInvalid e)))
      | None \<Rightarrow>
     (case op_release ops (sha leaseID) (identity sha p) now (sv_store s) of
        (s1, Inl e) \<Rightarrow> (s\<lparr>sv_store := s1\<rparr>, Inl (Lease_Error e))
      | (s1, Inr u) \<Rightarrow> (s\<lparr>sv_store := s1, sv_hub := hub_wake (sv_hub s)\<rparr>, Inr ()))))"

section \<open>Reads\<close>

definition service_get_readable ::
  "'s lease_ops \<Rightarrow> string list \<Rightarrow> instant \<Rightarrow> 's service \<Rightarrow> 's service \<times> (service_error + lease dict)" where
  "service_get_readable ops ids now s =
     (case op_get ops ids now (sv_store s) of
        (s1, Inl e) \<Rightarrow> (s\<lparr>sv_store := s1\<rparr>, Inl (Lease_Error e))
      | (s1, Inr got) \<Rightarrow> (s\<lparr>sv_store := s1\<rparr>, Inr (map (\<lambda>(i, l). (i, public_lease l)) got)))"

definition service_mine ::
  "'s lease_ops \<Rightarrow> (string \<Rightarrow> string) \<Rightarrow> gate \<Rightarrow> principal option \<Rightarrow> instant \<Rightarrow> 's service \<Rightarrow>
   's service \<times> (service_error + lease list)" where
  "service_mine ops sha g who now s =
     (case op_list_by_holder ops (identity sha (principal_from who)) now (sv_store s) of
        (s1, Inl e) \<Rightarrow> (s\<lparr>sv_store := s1\<rparr>, Inl (Lease_Error e))
      | (s1, Inr got) \<Rightarrow>
          if got = [] then (s\<lparr>sv_store := s1\<rparr>, Inr [])
          else (case ga_readable g (map le_id got) of
             Inl e \<Rightarrow> (s\<lparr>sv_store := s1\<rparr>, Inl e)
           | Inr readable \<Rightarrow>
               (s\<lparr>sv_store := s1\<rparr>, Inr (map public_lease (filter (\<lambda>l. le_id l \<in> set readable) got)))))"

section \<open>Hooks of the write path\<close>

text \<open>The wake-up is deferred: it happens whatever the store answers.\<close>

definition entity_renamed ::
  "'s lease_ops \<Rightarrow> string \<Rightarrow> string \<Rightarrow> instant \<Rightarrow> 's service \<Rightarrow> 's service \<times> (lease_error + unit)" where
  "entity_renamed ops old_id new_id now s =
     (case op_rekey ops old_id new_id now (sv_store s) of
        (s1, r) \<Rightarrow> (s\<lparr>sv_store := s1, sv_hub := hub_wake (sv_hub s)\<rparr>, r))"

definition entity_deleted :: "'s lease_ops \<Rightarrow> string \<Rightarrow> instant \<Rightarrow> 's service \<Rightarrow> 's service \<times> (lease_error + unit)" where
  "entity_deleted ops i now s =
     (case op_drop ops i now (sv_store s) of
        (s1, r) \<Rightarrow> (s\<lparr>sv_store := s1, sv_hub := hub_wake (sv_hub s)\<rparr>, r))"

definition entity_face_deleted :: "'s service \<Rightarrow> 's service" where
  "entity_face_deleted s = s\<lparr>sv_hub := hub_wake (sv_hub s)\<rparr>"

section \<open>The watcher\<close>

text \<open>
  \<open>Watch\<close> as its two events, the timer and the tick. \<open>timer\<close> is the instant the expiry timer will
  fire at, \<open>None\<close> when it is stopped.
\<close>

record watcher =
  wa_version :: "u64 option"
  wa_armed :: bool
  wa_from :: instant
  wa_target :: instant
  wa_timer :: "instant option"

definition watch_version :: "'s lease_ops \<Rightarrow> 's \<Rightarrow> 's \<times> u64 option" where
  "watch_version ops s = (case op_version ops s of (s1, Inl e) \<Rightarrow> (s1, None) | (s1, Inr v) \<Rightarrow> (s1, Some v))"

definition watch_arm :: "'s lease_ops \<Rightarrow> instant \<Rightarrow> watcher \<Rightarrow> 's \<Rightarrow> 's \<times> watcher" where
  "watch_arm ops now w s =
     (case op_next_expiry ops now s of
        (s1, Inl e) \<Rightarrow> (s1, w\<lparr>wa_timer := None, wa_armed := False\<rparr>)
      | (s1, Inr None) \<Rightarrow> (s1, w\<lparr>wa_timer := None, wa_armed := True, wa_from := now\<rparr>)
      | (s1, Inr (Some next_at)) \<Rightarrow>
          (s1, w\<lparr>wa_armed := True, wa_from := now, wa_target := next_at,
                wa_timer := Some (now + max (time_sub next_at now) 0)\<rparr>))"

definition watch_lapsed :: "'s lease_ops \<Rightarrow> instant \<Rightarrow> watcher \<Rightarrow> 's \<Rightarrow> 's \<times> bool" where
  "watch_lapsed ops now w s =
     (case op_next_expiry ops (wa_from w) s of
        (s1, Inl e) \<Rightarrow> (s1, True)
      | (s1, Inr n) \<Rightarrow> (s1, case n of None \<Rightarrow> False | Some e \<Rightarrow> e \<le> now))"

definition watch_start :: "'s lease_ops \<Rightarrow> instant \<Rightarrow> 's service \<Rightarrow> 's service \<times> watcher" where
  "watch_start ops now s =
     (let (s1, v) = watch_version ops (sv_store s);
          w = \<lparr>wa_version = v, wa_armed = False, wa_from = 0, wa_target = 0, wa_timer = None\<rparr>;
          (s2, w2) = watch_arm ops now w s1
      in (s\<lparr>sv_store := s2\<rparr>, w2))"

definition watch_timer :: "'s lease_ops \<Rightarrow> instant \<Rightarrow> watcher \<Rightarrow> 's service \<Rightarrow> 's service \<times> watcher" where
  "watch_timer ops now w s =
     (let at = (if now < wa_target w then wa_target w else now);
          (s1, gone) = watch_lapsed ops at w (sv_store s);
          (s2, w2) = watch_arm ops at (w\<lparr>wa_timer := None\<rparr>) s1
      in (s\<lparr>sv_store := s2, sv_hub := (if gone then hub_wake (sv_hub s) else sv_hub s)\<rparr>, w2))"

definition watch_tick :: "'s lease_ops \<Rightarrow> instant \<Rightarrow> watcher \<Rightarrow> 's service \<Rightarrow> 's service \<times> watcher" where
  "watch_tick ops now w s =
     (let (s1, v) = watch_version ops (sv_store s);
          changed = (v \<noteq> None \<and> wa_version w \<noteq> None \<and> v \<noteq> wa_version w);
          begun = (v \<noteq> None \<and> wa_version w = None);
          w1 = (if v \<noteq> None then w\<lparr>wa_version := v\<rparr> else w);
          hub1 = (if changed then hub_wake (sv_hub s) else sv_hub s)
      in if changed \<or> begun \<or> \<not> wa_armed w1
         then (let (s2, w2) = watch_arm ops now w1 s1 in (s\<lparr>sv_store := s2, sv_hub := hub1\<rparr>, w2))
         else (s\<lparr>sv_store := s1, sv_hub := hub1\<rparr>, w1))"

end
