(* ===== verification/Lease_Access.thy ===== *)
theory Lease_Access
  imports Lease_Service Lease_Runs
begin

text \<open>
  What the lease service promises over any store that keeps the contract: a claim without update
  access neither reads nor writes the store, the secret a claim returns renews the lease for its
  holder and for nobody else, no answer carries a hash or an identity, and the watcher wakes its
  subscribers when a lease expires.
\<close>

section \<open>The service over a store that keeps the contract\<close>

fun ops_call :: "'s lease_ops \<Rightarrow> lease_call \<Rightarrow> 's \<Rightarrow> 's \<times> (lease_error + lease_reply)" where
  "ops_call ops (CClaim i h k now until status) s = reply RLease (op_claim ops i h k now until status s)"
| "ops_call ops (CRenew k x now until status) s = reply RLease (op_renew ops k x now until status s)"
| "ops_call ops (CLookup k x now) s = reply RLease (op_lookup ops k x now s)"
| "ops_call ops (CRelease k x now) s = reply (\<lambda>u. RUnit) (op_release ops k x now s)"
| "ops_call ops (CGet ids now) s = reply RMap (op_get ops ids now s)"
| "ops_call ops (CListByHolder x now) s = reply RList (op_list_by_holder ops x now s)"
| "ops_call ops (CNextExpiry now) s = reply RNext (op_next_expiry ops now s)"
| "ops_call ops (CRekey a b now) s = reply (\<lambda>u. RUnit) (op_rekey ops a b now s)"
| "ops_call ops (CDrop i now) s = reply (\<lambda>u. RUnit) (op_drop ops i now s)"

lemma ops_call_kv: "ops_call (kv_ops win) = kv_call"
proof (intro ext)
  show "ops_call (kv_ops win) c s = kv_call c s" for c s by (cases c) (simp_all add: kv_ops_def)
qed

lemma norm_later: "second \<le> ttl \<Longrightarrow> norm_time t < norm_time (t + ttl)"
  using norm_le [of t] norm_near [of "t + ttl"] by (simp add: duration_units)

lemma ttl_bounds: "check_ttl ttl = Inr ttl' \<Longrightarrow> second \<le> ttl' \<and> ttl' \<le> hour"
  by (auto simp: check_ttl_def DefaultTTL_def MinTTL_def MaxTTL_def duration_units split: if_splits)

lemma renew_check_granted:
  assumes "renew_check ops g others h x now s = (s1, Inr (Some cur))"
  shows "may_update g (le_id cur) = Inr True \<and>
    (op_lookup ops h x now (others 0 s) = (s1, Inr cur) \<or>
     (\<exists>t c0. op_lookup ops h x now (others 0 s) = (t, Inr c0) \<and> op_lookup ops h x now (others 1 t) = (s1, Inr cur)))"
proof -
  obtain t q where l0: "op_lookup ops h x now (others 0 s) = (t, q)" by fastforce
  obtain c0 where q: "q = Inr c0" using assms by (cases q) (simp_all add: renew_check_def l0)
  obtain b where b: "may_update g (le_id c0) = Inr b" using assms by (cases "may_update g (le_id c0)") (simp_all add: renew_check_def l0 q)
  obtain t2 q2 where l1: "op_lookup ops h x now (others 1 t) = (t2, q2)" by fastforce
  show ?thesis
    using assms b l1 by (cases b; cases q2) (auto simp: renew_check_def l0 q split: if_splits sum.splits bool.splits)
qed

locale lease_service = lease_store "ops_call ops" book ok
  for ops :: "'s lease_ops" and book :: "'s \<Rightarrow> lease_book" and ok :: "'s \<Rightarrow> bool"
begin

lemma lookup_own:
  assumes "ok s" "op_lookup ops k x now s = (s', Inr l)"
  shows "ok s'" "book s' = book s" "\<exists>y. own_lease k x (norm_time now) (book s) (le_id l) y \<and> l = to_lease (le_id l) y"
proof -
  have c: "ops_call ops (CLookup k x now) s = (s', Inr (RLease l))" using assms(2) by simp
  show "ok s'" using keeps_ok [OF assms(1) _ c] by simp
  have "call_spec (CLookup k x now) (book s) (book s') (Inr (RLease l))"
    using refines [OF assms(1) _ c] by (simp add: backend_failed_def)
  then show "book s' = book s" "\<exists>y. own_lease k x (norm_time now) (book s) (le_id l) y \<and> l = to_lease (le_id l) y"
    by (auto split: option.splits simp: to_lease_def)
qed

lemma lookup_fails:
  assumes "ok s" "op_lookup ops k x now s = (s', Inl e)"
  shows "ok s' \<and> book s' = book s"
proof -
  have c: "ops_call ops (CLookup k x now) s = (s', Inl e)" using assms(2) by simp
  show ?thesis using keeps_ok [OF assms(1) _ c] refines [OF assms(1) _ c] by auto
qed

lemma renew_own:
  assumes "ok s" "op_renew ops k x now until status s = (s', Inr l)"
  shows "\<exists>y. own_lease k x (norm_time now) (book s) (le_id l) y \<and>
    l = to_lease (le_id l) (y\<lparr>sl_expires := norm_time until, sl_status := (case status of None \<Rightarrow> sl_status y | Some t \<Rightarrow> t)\<rparr>)"
proof -
  have c: "ops_call ops (CRenew k x now until status) s = (s', Inr (RLease l))" using assms(2) by simp
  have "call_spec (CRenew k x now until status) (book s) (book s') (Inr (RLease l))"
    using refines [OF assms(1) _ c] by (simp add: backend_failed_def)
  then obtain q where q: "Inr (RLease l) = map_sum id RLease q"
      "renew_book k x (norm_time now) (norm_time until) status (book s) (book s') q"
    by (auto split: option.splits)
  then have "q = Inr l" by (cases q) auto
  with q(2) have "renew_book k x (norm_time now) (norm_time until) status (book s) (book s') (Inr l)" by simp
  then show ?thesis by (cases rule: renew_book.cases) (auto simp: to_lease_def)
qed

text \<open>A renew that returns a lease renewed the caller's own, after a check that the caller may update the
  entity it was on.\<close>

lemma renewed_with_access:
  assumes "\<And>j t. ok t \<Longrightarrow> ok (others j t)" "ok (sv_store s)"
    and "service_renew ops sha g others who leaseID ttl status now s = (s', Inr l)"
  shows "\<exists>p i t y t' y'. lease_caller who = Inr p \<and> may_update g i = Inr True \<and>
    own_lease (sha leaseID) (identity sha p) (norm_time now) (book t) i y \<and>
    own_lease (sha leaseID) (identity sha p) (norm_time now) (book t') (le_id l) y' \<and> l = public_lease l"
proof -
  obtain p ttl' where p: "lease_caller who = Inr p" "check_renewal leaseID ttl status = Inr ttl'"
    using assms(3) by (auto simp: service_renew_def split: sum.splits)
  let ?x = "identity sha p" and ?h = "sha leaseID"
  obtain s1 r1 where rc: "renew_check ops g others ?h ?x now (sv_store s) = (s1, r1)" by fastforce
  obtain cur where cur: "r1 = Inr (Some cur)"
    using assms(3) by (auto simp: service_renew_def p rc Let_def split: sum.splits option.splits prod.splits)
  obtain s2 l2 where rn: "op_renew ops ?h ?x now (now + ttl') status (others 2 s1) = (s2, Inr l2)" "l = public_lease l2"
    using assms(3) by (auto simp: service_renew_def p rc cur Let_def split: sum.splits prod.splits)
  note rg = renew_check_granted [OF rc [unfolded cur]]
  have "ok s1 \<and> may_update g (le_id cur) = Inr True \<and> (\<exists>t y. own_lease ?h ?x (norm_time now) (book t) (le_id cur) y)"
    using conjunct2 [OF rg]
  proof (elim disjE exE conjE)
    assume "op_lookup ops ?h ?x now (others 0 (sv_store s)) = (s1, Inr cur)"
    from lookup_own [OF assms(1) [OF assms(2)] this] rg show ?thesis by blast
  next
    fix t c0
    assume t: "op_lookup ops ?h ?x now (others 0 (sv_store s)) = (t, Inr c0)" "op_lookup ops ?h ?x now (others 1 t) = (s1, Inr cur)"
    have "ok t" using lookup_own(1) [OF assms(1) [OF assms(2)] t(1)] .
    from lookup_own [OF assms(1) [OF this] t(2)] rg show ?thesis by blast
  qed
  moreover have "ok (others 2 s1)" using assms(1) calculation by blast
  moreover obtain y where "own_lease ?h ?x (norm_time now) (book (others 2 s1)) (le_id l2) y"
    using renew_own [OF calculation(2) rn(1)] by blast
  ultimately show ?thesis using p(1) rn(2) by (auto simp: public_lease_def)
qed

lemma lookup_exact:
  assumes "ok s" "op_lookup ops k x now s = (s', r)" "check_hash k = None"
  shows "ok s' \<and> book s' = book s \<and>
    ((\<exists>e. r = Inl (Backend e)) \<or> (r = Inl ErrLost \<and> (\<forall>i y. \<not> own_lease k x (norm_time now) (book s) i y)) \<or>
     (\<exists>i y. r = Inr (to_lease i y) \<and> own_lease k x (norm_time now) (book s) i y))"
proof -
  have c: "ops_call ops (CLookup k x now) s = (s', map_sum id RLease r)" using assms(2) by (cases r) simp_all
  have "ok s'" using keeps_ok [OF assms(1) _ c] by simp
  moreover have "call_spec (CLookup k x now) (book s) (book s') (map_sum id RLease r) \<or>
      backend_failed (map_sum id RLease r) \<and> book s' = book s"
    using refines [OF assms(1) _ c] by simp
  ultimately show ?thesis
    using assms(3) by (cases r) (auto simp: backend_failed_def split: lease_error.splits)
qed

lemma renew_exact:
  assumes "ok s" "op_renew ops k x now until status s = (s', r)" "check_renew k now until status = None"
    and own: "own_lease k x (norm_time now) (book s) i y"
  shows "(\<exists>e. r = Inl (Backend e)) \<or>
    r = Inr (to_lease i (y\<lparr>sl_expires := norm_time until, sl_status := (case status of None \<Rightarrow> sl_status y | Some t \<Rightarrow> t)\<rparr>))"
proof -
  have c: "ops_call ops (CRenew k x now until status) s = (s', map_sum id RLease r)" using assms(2) by (cases r) simp_all
  have same: "j = i \<and> z = y" if "own_lease k x (norm_time now) (book s) j z" for j z
    using that own map_ok_hash [OF book_ok [OF assms(1)], of j z i y] by (auto simp: own_lease_def)
  consider (spec) "call_spec (CRenew k x now until status) (book s) (book s') (map_sum id RLease r)"
    | (failed) "backend_failed (map_sum id RLease r)"
    using refines [OF assms(1) _ c] by auto
  then show ?thesis
  proof cases
    case spec
    then obtain q where q: "map_sum id RLease r = map_sum id RLease q"
        "renew_book k x (norm_time now) (norm_time until) status (book s) (book s') q"
      using assms(3) by auto
    then have "q = r" by (cases q; cases r) auto
    with q(2) show ?thesis using own same by (cases rule: renew_book.cases) auto
  next
    case failed
    then show ?thesis by (cases r) (auto simp: backend_failed_def split: lease_error.splits)
  qed
qed

lemma release_exact:
  assumes "ok s" "op_release ops k x now s = (s', r)" "check_hash k = None" "own_lease k x (norm_time now) (book s) i y"
  shows "(\<exists>e. r = Inl (Backend e)) \<or> (r = Inr () \<and> book s' i = None)"
proof -
  have c: "ops_call ops (CRelease k x now) s = (s', map_sum id (\<lambda>u. RUnit) r)" using assms(2) by (cases r) simp_all
  have same: "j = i" if "own_lease k x (norm_time now) (book s) j z" for j z
    using that assms(4) map_ok_hash [OF book_ok [OF assms(1)], of j z i y] by (auto simp: own_lease_def)
  consider (spec) "call_spec (CRelease k x now) (book s) (book s') (map_sum id (\<lambda>u. RUnit) r)"
    | (failed) "backend_failed (map_sum id (\<lambda>u. RUnit) r)"
    using refines [OF assms(1) _ c] by auto
  then show ?thesis
  proof cases
    case spec
    then have "r = Inr ()" and rb: "release_book k x (norm_time now) (book s) (book s')"
      using assms(3) by (cases r; simp)+
    from rb have "book s' i = None"
      by (cases rule: release_book.cases) (use assms(4) same in auto)
    with \<open>r = Inr ()\<close> show ?thesis by simp
  next
    case failed
    then show ?thesis by (cases r) (auto simp: backend_failed_def split: lease_error.splits)
  qed
qed

text \<open>One renew, with nobody between its store calls.\<close>

lemma service_renew_exact:
  assumes "ok (sv_store s)" "lease_caller who = Inr p" "check_renewal leaseID ttl status = Inr ttl'"
    and hash: "check_hash (sha leaseID) = None"
    and r: "service_renew ops sha g (\<lambda>k t. t) who leaseID ttl status now s = (s', r)"
  shows "(\<exists>e. r = Inl (Lease_Error (Backend e))) \<or>
    (if \<exists>i y. own_lease (sha leaseID) (identity sha p) (norm_time now) (book (sv_store s)) i y
     then \<exists>i y. own_lease (sha leaseID) (identity sha p) (norm_time now) (book (sv_store s)) i y \<and>
       (case may_update g i of
          Inl e \<Rightarrow> r = Inl e
        | Inr False \<Rightarrow> r = Inl (Lease_Error ErrLost) \<and> book (sv_store s') i = None
        | Inr True \<Rightarrow> r = Inr (public_lease (to_lease i (y\<lparr>sl_expires := norm_time (now + ttl'),
              sl_status := (case status of None \<Rightarrow> sl_status y | Some t \<Rightarrow> t)\<rparr>))))
     else r = Inl (Lease_Error ErrLost) \<and> book (sv_store s') = book (sv_store s))"
proof -
  let ?x = "identity sha p" and ?h = "sha leaseID" and ?t = "norm_time now"
  have until: "check_renew ?h now (now + ttl') status = None"
  proof -
    have "check_ttl ttl = Inr ttl'" "\<forall>t. status = Some t \<longrightarrow> check_status t = None"
      using assms(3) by (auto simp: check_renewal_def split: option.splits)
    moreover have "second \<le> ttl'" using ttl_bounds calculation(1) by blast
    ultimately show ?thesis using hash norm_later by (simp add: check_renew_None)
  qed
  obtain s1 q where l0: "op_lookup ops ?h ?x now (sv_store s) = (s1, q)" by fastforce
  note lx = lookup_exact [OF assms(1) l0 hash]
  have chk: "renew_check ops g (\<lambda>k t. t) ?h ?x now (sv_store s) = (s1, Inl (Lease_Error e))" if "q = Inl e" for e
    using l0 that by (simp add: renew_check_def)
  consider (failed) e where "q = Inl (Backend e)"
    | (lost) "q = Inl ErrLost" "\<forall>i y. \<not> own_lease ?h ?x ?t (book (sv_store s)) i y"
    | (found) i y where "q = Inr (to_lease i y)" "own_lease ?h ?x ?t (book (sv_store s)) i y"
    using lx by blast
  then show ?thesis
  proof cases
    case failed
    then show ?thesis using r chk by (auto simp: service_renew_def assms(2,3) Let_def)
  next
    case lost
    then have "r = Inl (Lease_Error ErrLost) \<and> sv_store s' = s1"
      using r chk by (auto simp: service_renew_def assms(2,3) Let_def)
    then show ?thesis using lost lx by simp
  next
    case found
    have ok1: "ok s1" and b1: "book s1 = book (sv_store s)" using lx by auto
    have own1: "own_lease ?h ?x ?t (book s1) i y" using found b1 by simp
    have i: "le_id (to_lease i y) = i" by (simp add: to_lease_def)
    obtain s2 q2 where l1: "op_lookup ops ?h ?x now s1 = (s2, q2)" by fastforce
    note lx2 = lookup_exact [OF ok1 l1 hash]
    have same: "j = i" if "own_lease ?h ?x ?t (book s1) j z" for j z
      using that own1 map_ok_hash [OF book_ok [OF ok1], of j z i y] by (auto simp: own_lease_def)
    have "(\<exists>e. r = Inl (Lease_Error (Backend e))) \<or>
       (case may_update g i of
          Inl e \<Rightarrow> r = Inl e
        | Inr False \<Rightarrow> r = Inl (Lease_Error ErrLost) \<and> book (sv_store s') i = None
        | Inr True \<Rightarrow> r = Inr (public_lease (to_lease i (y\<lparr>sl_expires := norm_time (now + ttl'),
              sl_status := (case status of None \<Rightarrow> sl_status y | Some t \<Rightarrow> t)\<rparr>))))"
    proof (cases "may_update g i")
      case (Inl e)
      then have "renew_check ops g (\<lambda>k t. t) ?h ?x now (sv_store s) = (s1, Inl e)"
        using l0 found i by (simp add: renew_check_def)
      then show ?thesis using r Inl by (auto simp: service_renew_def assms(2,3) Let_def)
    next
      case (Inr allowed)
      show ?thesis
      proof (cases allowed)
        case True
        then have rc: "renew_check ops g (\<lambda>k t. t) ?h ?x now (sv_store s) = (s1, Inr (Some (to_lease i y)))"
          using l0 found i Inr by (simp add: renew_check_def)
        obtain s3 q3 where rn: "op_renew ops ?h ?x now (now + ttl') status s1 = (s3, q3)" by fastforce
        show ?thesis
          using r renew_exact [OF ok1 rn until own1] Inr True
          by (auto simp: service_renew_def assms(2,3) rc rn Let_def)
      next
        case False
        have lost: "(\<exists>e. r = Inl (Lease_Error (Backend e))) \<or> (r = Inl (Lease_Error ErrLost) \<and> book (sv_store s') i = None)"
        proof (cases "\<exists>e. q2 = Inl (Backend e)")
          case True
          then have "renew_check ops g (\<lambda>k t. t) ?h ?x now (sv_store s) = (s2, map_sum Lease_Error (\<lambda>u. None) q2)"
            using l0 found i Inr False l1 True by (auto simp: renew_check_def)
          then show ?thesis using r True by (auto simp: service_renew_def assms(2,3) Let_def)
        next
          case ok2: False
          then obtain z where "q2 = Inr (to_lease i z)" using lx2 own1 same by blast
          then have rc: "renew_check ops g (\<lambda>k t. t) ?h ?x now (sv_store s) = (s2, Inr None)"
            using l0 found i Inr False l1 by (simp add: renew_check_def to_lease_def)
          have ok2: "ok s2" and own2: "own_lease ?h ?x ?t (book s2) i y" using lx2 own1 by auto
          obtain s3 q3 where rl: "op_release ops ?h ?x now s2 = (s3, q3)" by fastforce
          show ?thesis
            using r release_exact [OF ok2 rl hash own2] by (auto simp: service_renew_def assms(2,3) rc rl Let_def)
        qed
        then show ?thesis using Inr False by simp
      qed
    qed
    then show ?thesis using found by auto
  qed
qed

end

interpretation kvservice: lease_service "kv_ops win" kv_map kv_ok
  unfolding lease_service_def ops_call_kv by (rule kvlease.lease_store_axioms)


section \<open>Who may claim\<close>

subsection \<open>A sample caller\<close>

definition sample_gate :: "bool \<Rightarrow> gate" where
  "sample_gate allowed =
     \<lparr>ga_family = (\<lambda>i. Inr (Some \<lparr>fm_type = ''ticket'', fm_faces = [[]]\<rparr>)),
      ga_write_target = (\<lambda>a. Inr \<lparr>ref_id = a, ref_face = []\<rparr>), ga_readable = (\<lambda>ids. Inr ids),
      ga_authorize = (\<lambda>t r. allowed)\<rparr>"

definition sample_person :: principal where
  "sample_person = verified_from ''ann'' ''cli'' no_claims"

definition sample_request :: claim_request where
  "sample_request = \<lparr>cr_addr = ''T-1'', cr_ttl = hour, cr_label = [], cr_status = ''working'', cr_type = ''ticket''\<rparr>"

definition sample_secret :: string where "sample_secret = replicate 32 (CHR ''b'')"

definition sample_service :: "kv \<Rightarrow> kv service" where
  "sample_service s = \<lparr>sv_store = s, sv_hub = [(7, False)]\<rparr>"

lemma sample_target:
  "claim_target (sample_gate True) (Some sample_person) sample_request = Inr (sample_person, \<lparr>ref_id = ''T-1'', ref_face = []\<rparr>, hour)"
  by code_simp

lemma sample_caller: "lease_caller (Some sample_person) = Inr sample_person"
  by code_simp

lemma sample_claim_run:
  "service_claim (kv_ops False) (\<lambda>x. sample_hash) (sample_gate True) (Some sample_person) sample_request hour (Some sample_secret)
     (sample_service (sample_store None)) =
   (\<lparr>sv_store = sample_state sample_hash 0, sv_hub = [(7, True)]\<rparr>,
    Inr (sample_secret, public_lease (to_lease ''T-1'' (sample_lease sample_hash 0))))"
proof -
  have "sample_hash \<noteq> []" by (simp add: sample_hash_def)
  then have "kv_call (sample_claim sample_hash) (sample_store None) =
      (sample_state sample_hash 0, Inr (RLease (to_lease ''T-1'' (sample_lease sample_hash 0))))"
    using sample_call [of None 0 sample_hash] sample_version(1) hash_utf8 [OF sample_hash_ok] by simp
  then have k: "kv_claim ''T-1'' (sample_holder sample_hash) sample_hash hour (2 * hour) ''working'' (sample_store None) =
      (sample_state sample_hash 0, Inr (to_lease ''T-1'' (sample_lease sample_hash 0)))"
    by (simp add: sample_claim_def reply_Inr)
  have f: "pr_user sample_person = ''ann''" "pr_tool sample_person = ''cli''" "cr_label sample_request = []"
    "cr_status sample_request = ''working''" by (simp_all add: sample_person_def sample_request_def)
  have h: "\<lparr>ho_identity = sample_hash, ho_user = ''ann'', ho_tool = ''cli'', ho_label = []\<rparr> = sample_holder sample_hash"
    "hour + hour = 2 * hour" by (simp_all add: sample_holder_def)
  show ?thesis
    by (simp add: service_claim_def sample_target identity_def f kv_ops_def h k
        sample_service_def hub_wake_def Let_def)
qed

text \<open>What a claim asks of its caller before the store is involved.\<close>

definition may_claim :: "gate \<Rightarrow> principal option \<Rightarrow> claim_request \<Rightarrow> principal \<Rightarrow> ref \<Rightarrow> bool" where
  "may_claim g who req p ref \<longleftrightarrow>
     who = Some p \<and> \<not> principal_zero p \<and> pr_user p \<noteq> unknown_user \<and>
     (\<exists>addr fam. parse_address (cr_addr req) = Inr addr \<and> ga_family g (addr_id addr) = Inr (Some fam) \<and>
        (cr_type req = [] \<or> cr_type req = fm_type fam) \<and> ga_write_target g (cr_addr req) = Inr ref \<and>
        ga_authorize g (fm_type fam) ref)"

lemma lease_caller_Inr: "lease_caller who = Inr p \<longleftrightarrow> who = Some p \<and> \<not> principal_zero p \<and> pr_user p \<noteq> unknown_user"
  by (auto simp: lease_caller_def split: option.splits)

lemma claim_target_Inr:
  "claim_target g who req = Inr (p, ref, ttl) \<longleftrightarrow> may_claim g who req p ref \<and> check_request req = Inr ttl"
  by (cases who; cases "check_request req"; cases "parse_address (cr_addr req)")
    (auto simp: claim_target_def may_claim_def lease_caller_def split: sum.splits option.splits if_splits)

text \<open>The gate answers with its own errors and never with a lease error.\<close>

definition gate_errors :: "gate \<Rightarrow> bool" where
  "gate_errors g \<longleftrightarrow> (\<forall>i e. ga_family g i \<noteq> Inl (Lease_Error e)) \<and> (\<forall>a e. ga_write_target g a \<noteq> Inl (Lease_Error e))"

lemma claim_target_Inl:
  "gate_errors g \<Longrightarrow> claim_target g who req \<noteq> Inl (Lease_Error (Held l))"
  by (auto simp: claim_target_def gate_errors_def lease_caller_def split: sum.splits option.splits if_splits)

lemma sample_gate_errors: "gate_errors (sample_gate allowed)"
  by (simp add: gate_errors_def sample_gate_def)

text \<open>
  C32: A claim by a caller who may not read the entity, or may not update the face its address names, or
  is not a named principal, changes nothing, and its answer is the same whatever leases the store
  holds: it never says who holds the entity, or that anyone does.
\<close>
theorem claim_needs_access:
  assumes "gate_errors g" "\<forall>p ref. \<not> may_claim g who req p ref"
    and "service_claim (kv_ops win) sha g who req now random s = (s', r)"
  shows "s' = s \<and> snd (service_claim (kv_ops win) sha g who req now random t) = r \<and>
    (\<exists>e. r = Inl e \<and> (\<forall>l. e \<noteq> Lease_Error (Held l)))"
proof -
  obtain e where e: "claim_target g who req = Inl e"
    using assms(2) by (cases "claim_target g who req") (auto simp: claim_target_Inr)
  then have "r = Inl e \<and> s' = s" using assms(3) by (simp add: service_claim_def)
  then show ?thesis using e claim_target_Inl [OF assms(1), of who req] by (simp add: service_claim_def)
qed

theorem claim_needs_access_witness:
  "fst (service_claim (kv_ops False) (\<lambda>x. sample_hash) (sample_gate False) (Some sample_person) sample_request hour (Some sample_secret)
     (sample_service (sample_state sample_hash 0))) = sample_service (sample_state sample_hash 0) \<and>
   snd (service_claim (kv_ops False) (\<lambda>x. sample_hash) (sample_gate False) (Some sample_person) sample_request hour (Some sample_secret)
     (sample_service (sample_store None))) = Inl Forbidden"
proof -
  have g: "gate_errors (sample_gate False)" "\<forall>p ref. \<not> may_claim (sample_gate False) (Some sample_person) sample_request p ref"
    by (simp_all add: gate_errors_def may_claim_def sample_gate_def)
  have t: "claim_target (sample_gate False) (Some sample_person) sample_request = Inl Forbidden" by code_simp
  have r: "service_claim (kv_ops False) (\<lambda>x. sample_hash) (sample_gate False) (Some sample_person) sample_request hour (Some sample_secret)
     (sample_service (sample_state sample_hash 0)) = (sample_service (sample_state sample_hash 0), Inl Forbidden)"
    by (simp add: service_claim_def t)
  show ?thesis using claim_needs_access [OF g r, of "sample_service (sample_store None)"] r by simp
qed

text \<open>The secret of a claim renews it: the claim as the store sees it.\<close>

context lease_service
begin

lemma claimed_own:
  assumes "ok (sv_store s)" "\<And>x. check_hash (sha x) = None"
    and r: "service_claim ops sha g who req now random s = (s', Inr (leaseID, l))"
    and may_text: "\<And>p ref. may_claim g who req p ref \<Longrightarrow> utf8_valid (ref_id ref) \<and> utf8_valid (pr_user p) \<and> utf8_valid (pr_tool p)"
  shows "\<exists>p ref ttl y. may_claim g who req p ref \<and> check_request req = Inr ttl \<and> random = Some leaseID \<and>
    ok (sv_store s') \<and> live_book (norm_time now) (book (sv_store s)) (ref_id ref) = None \<and>
    book (sv_store s') (ref_id ref) = Some y \<and> l = public_lease (to_lease (ref_id ref) y) \<and>
    sl_hash y = sha leaseID \<and> sl_identity y = identity sha p \<and> sl_expires y = norm_time (now + ttl)"
proof -
  obtain p ref ttl where tg: "claim_target g who req = Inr (p, ref, ttl)"
    using r by (cases "claim_target g who req") (auto simp: service_claim_def)
  then have may: "may_claim g who req p ref" "check_request req = Inr ttl" by (simp_all add: claim_target_Inr)
  define h where "h = \<lparr>ho_identity = identity sha p, ho_user = pr_user p, ho_tool = pr_tool p, ho_label = cr_label req\<rparr>"
  obtain s1 l1 where random: "random = Some leaseID"
    and cl: "op_claim ops (ref_id ref) h (sha leaseID) now (now + ttl) (cr_status req) (sv_store s) = (s1, Inr l1)"
    and l: "l = public_lease l1" and s1: "sv_store s' = s1"
    using r by (auto simp: service_claim_def tg h_def Let_def split: option.splits prod.splits sum.splits)
  have htext: "holder_text_ok (ref_id ref) h"
    using may_text [OF may(1)] hash_utf8 [OF assms(2)] by (simp add: holder_text_ok_def h_def identity_def)
  have c: "ops_call ops (CClaim (ref_id ref) h (sha leaseID) now (now + ttl) (cr_status req)) (sv_store s) = (s1, Inr (RLease l1))"
    using cl by simp
  have ok1: "ok s1" using keeps_ok [OF assms(1) _ c] htext by simp
  have "call_spec (CClaim (ref_id ref) h (sha leaseID) now (now + ttl) (cr_status req)) (book (sv_store s)) (book s1) (Inr (RLease l1))"
    using refines [OF assms(1) _ c] htext by (simp add: backend_failed_def)
  then obtain q where q: "Inr (RLease l1) = map_sum id RLease q"
      "claim_book (ref_id ref) h (sha leaseID) (norm_time now) (norm_time (now + ttl)) (cr_status req) (book (sv_store s)) (book s1) q"
    by (auto split: option.splits)
  then have "q = Inr l1" by (cases q) auto
  with q(2) have "claim_book (ref_id ref) h (sha leaseID) (norm_time now) (norm_time (now + ttl)) (cr_status req)
      (book (sv_store s)) (book s1) (Inr l1)" by simp
  then show ?thesis
  proof (cases rule: claim_book.cases)
    case (claimed y tok)
    then show ?thesis using may random ok1 l s1 by (intro exI [of _ p] exI [of _ ref] exI [of _ ttl] exI [of _ y]) (simp add: h_def)
  qed
qed

end

text \<open>
  C33: The secret a claim returns renews it. After a successful claim, a renew with that lease id before
  the expiry succeeds exactly for the identity that claimed, as long as it may still update the
  entity: the lease keeps its id, token and holder and gets the new expiry. Any other identity is
  told the lease is lost; the holder who lost access is told the same and the lease is gone. The only
  other answers are the gate's error and a backend failure.
\<close>
theorem claim_then_renew:
  assumes "without_document s0" "lease_run any_call s0 n (sv_store s)" "\<And>x. check_hash (sha x) = None"
    and "\<And>p ref. may_claim g who req p ref \<Longrightarrow> utf8_valid (ref_id ref) \<and> utf8_valid (pr_user p) \<and> utf8_valid (pr_tool p)"
    and "service_claim (kv_ops win) sha g who req now random s = (s1, Inr (leaseID, l))"
    and "service_renew (kv_ops win) sha g' (\<lambda>k t. t) caller leaseID ttl status later s1 = (s2, r)"
    and "who = Some p" "lease_caller caller = Inr q" "check_renewal leaseID ttl status = Inr ttl'"
    and "norm_time later < le_expires l"
  shows "(\<exists>e. r = Inl (Lease_Error (Backend e))) \<or>
    (if identity sha q \<noteq> identity sha p then r = Inl (Lease_Error ErrLost)
     else case may_update g' (le_id l) of
       Inl e \<Rightarrow> r = Inl e
     | Inr False \<Rightarrow> r = Inl (Lease_Error ErrLost) \<and> kv_map (sv_store s2) (le_id l) = None
     | Inr True \<Rightarrow> r = Inr (l\<lparr>le_expires := norm_time (later + ttl'),
         le_status := (case status of None \<Rightarrow> le_status l | Some t \<Rightarrow> t)\<rparr>))"
proof -
  have ok: "kv_ok (sv_store s)" using run_ok [OF assms(2)] without_ok [OF assms(1)] by blast
  obtain p' ref t0 y where c: "may_claim g who req p' ref" "kv_ok (sv_store s1)" "kv_map (sv_store s1) (ref_id ref) = Some y"
      "l = public_lease (to_lease (ref_id ref) y)" "sl_hash y = sha leaseID" "sl_identity y = identity sha p'"
    using kvservice.claimed_own [OF ok assms(3,5,4)] by blast
  have p': "p' = p" using c(1) assms(7) by (simp add: may_claim_def)
  have l: "le_id l = ref_id ref" "le_expires l = sl_expires y" by (simp_all add: c(4) public_lease_def to_lease_def)
  let ?own = "\<lambda>i z. own_lease (sha leaseID) (identity sha q) (norm_time later) (kv_map (sv_store s1)) i z"
  have only: "i = ref_id ref \<and> z = y" if "?own i z" for i z
    using that c(3,5) map_ok_hash [OF kv_map_ok [OF c(2)], of i z "ref_id ref" y] by (auto simp: own_lease_def)
  have own: "(\<exists>i z. ?own i z) \<longleftrightarrow> identity sha q = identity sha p"
  proof
    assume "\<exists>i z. ?own i z"
    then have "?own (ref_id ref) y" using only by blast
    then show "identity sha q = identity sha p" using c(6) p' by (simp add: own_lease_def)
  next
    assume "identity sha q = identity sha p"
    then have "?own (ref_id ref) y" using c(3,5,6) p' assms(10) unfolding l(2) by (simp add: own_lease_def stored_live_def)
    then show "\<exists>i z. ?own i z" by blast
  qed
  note ex = kvservice.service_renew_exact [OF c(2) assms(8,9,3,6)]
  show ?thesis
  proof (cases "identity sha q = identity sha p")
    case False
    then show ?thesis using ex own by auto
  next
    case True
    have eq: "public_lease (to_lease (ref_id ref) (y\<lparr>sl_expires := norm_time (later + ttl'),
        sl_status := (case status of None \<Rightarrow> sl_status y | Some t \<Rightarrow> t)\<rparr>)) =
      l\<lparr>le_expires := norm_time (later + ttl'), le_status := (case status of None \<Rightarrow> le_status l | Some t \<Rightarrow> t)\<rparr>"
      unfolding c(4) by (cases status) (simp_all add: public_lease_def to_lease_def)
    from True own have "\<exists>i z. ?own i z" by simp
    then show ?thesis using ex only True unfolding l(1) eq [symmetric] by auto
  qed
qed

theorem claim_then_renew_witness:
  "let l = public_lease (to_lease ''T-1'' (sample_lease sample_hash 0));
       r = snd (service_renew (kv_ops False) (\<lambda>x. sample_hash) (sample_gate True) (\<lambda>k t. t) (Some sample_person) sample_secret 0 None
         hour \<lparr>sv_store = sample_state sample_hash 0, sv_hub = [(7, True)]\<rparr>)
   in (\<exists>e. r = Inl (Lease_Error (Backend e))) \<or> r = Inr (l\<lparr>le_expires := norm_time (hour + 15 * minute)\<rparr>)"
proof -
  let ?s = "\<lparr>sv_store = sample_state sample_hash 0, sv_hub = [(7, True)]\<rparr>"
  obtain s2 r where r: "service_renew (kv_ops False) (\<lambda>x. sample_hash) (sample_gate True) (\<lambda>k t. t) (Some sample_person)
      sample_secret 0 None hour ?s = (s2, r)" by fastforce
  have run: "lease_run any_call (sample_store None) 0 (sv_store (sample_service (sample_store None)))"
    using lease_run.start by (simp add: sample_service_def)
  have texts: "utf8_valid (ref_id ref) \<and> utf8_valid (pr_user p) \<and> utf8_valid (pr_tool p)"
    if "may_claim (sample_gate True) (Some sample_person) sample_request p ref" for p ref
  proof -
    have "utf8_valid ''T-1''" "utf8_valid ''ann''" "utf8_valid ''cli''" by code_simp+
    then show ?thesis using that by (auto simp: may_claim_def sample_gate_def sample_person_def sample_request_def)
  qed
  have ttl: "check_renewal sample_secret 0 None = Inr (15 * minute)"
  proof -
    have "is_hex (CHR ''b'')" by code_simp
    then have "list_all is_hex (replicate n (CHR ''b''))" for n by (induction n) simp_all
    then have "check_lease_id sample_secret = None"
      unfolding check_lease_id_def sample_secret_def by (simp only: length_replicate) simp
    then show ?thesis by (simp add: check_renewal_def check_ttl_def DefaultTTL_def)
  qed
  have "norm_time hour < le_expires (public_lease (to_lease ''T-1'' (sample_lease sample_hash 0)))"
  proof -
    have "hour < 2 * hour" by code_simp
    then show ?thesis by (simp add: public_lease_def to_lease_def sample_lease_def sample_times)
  qed
  note th = claim_then_renew [OF sample_ok(1) run sample_hash_ok texts sample_claim_run r refl sample_caller ttl this]
  have "may_update (sample_gate True) i = Inr True" for i by (simp add: may_update_def sample_gate_def)
  then show ?thesis using th by (simp add: r)
qed

section \<open>Answers\<close>

definition keeps_secret :: "lease \<Rightarrow> bool" where
  "keeps_secret l \<longleftrightarrow> le_hash l = [] \<and> ho_identity (le_holder l) = []"

lemma public_keeps [simp]: "keeps_secret (public_lease l)"
  by (simp add: keeps_secret_def public_lease_def)

lemma claim_answers:
  assumes "gate_errors g"
  shows "snd (service_claim ops sha g who req now random s) = Inr (i, l) \<Longrightarrow> keeps_secret l"
    and "snd (service_claim ops sha g who req now random s) = Inl (Lease_Error (Held l)) \<Longrightarrow> keeps_secret l"
  using claim_target_Inl [OF assms, of who req]
  by (auto simp: service_claim_def Let_def split: sum.splits option.splits prod.splits lease_error.splits)

lemma renew_answers: "snd (service_renew ops sha g others who leaseID ttl status now s) = Inr l \<Longrightarrow> keeps_secret l"
  by (auto simp: service_renew_def Let_def split: sum.splits option.splits prod.splits)

lemma get_answers: "snd (service_get_readable ops ids now s) = Inr m \<Longrightarrow> (j, l) \<in> set m \<Longrightarrow> keeps_secret l"
  by (auto simp: service_get_readable_def split: sum.splits prod.splits)

lemma mine_answers:
  assumes "snd (service_mine ops sha g who now s) = Inr ls" "l \<in> set ls"
  shows "keeps_secret l \<and> (\<exists>ids readable. ga_readable g ids = Inr readable \<and> le_id l \<in> set ids \<and> le_id l \<in> set readable)"
proof -
  obtain s1 got where got: "op_list_by_holder ops (identity sha (principal_from who)) now (sv_store s) = (s1, Inr got)" "got \<noteq> []"
    using assms by (auto simp: service_mine_def split: sum.splits prod.splits if_splits)
  obtain R where R: "ga_readable g (map le_id got) = Inr R"
    using assms got by (auto simp: service_mine_def split: sum.splits)
  have "ls = map public_lease (filter (\<lambda>l. le_id l \<in> set R) got)" using assms(1) got R by (simp add: service_mine_def)
  then obtain k where "k \<in> set got" "le_id k \<in> set R" "l = public_lease k" using assms(2) by auto
  moreover have "le_id (public_lease k) = le_id k" by (simp add: public_lease_def)
  ultimately show ?thesis using R by (intro conjI exI [of _ "map le_id got"] exI [of _ R]) auto
qed

text \<open>
  C34: No answer of the service carries a lease hash or a holder identity: not the lease a claim or a
  renew returns, not the lease that blocks a claim, not the leases of a list page or of their holder.
\<close>
theorem answers_keep_secrets:
  assumes "gate_errors g"
    and "l \<in> {l. \<exists>i. snd (service_claim ops sha g who req now random s) = Inr (i, l)} \<union>
      {l. snd (service_claim ops sha g who req now random s) = Inl (Lease_Error (Held l))} \<union>
      {l. snd (service_renew ops sha g others who leaseID ttl status now s) = Inr l} \<union>
      {l. \<exists>m j. snd (service_get_readable ops ids now s) = Inr m \<and> (j, l) \<in> set m} \<union>
      {l. \<exists>ls. snd (service_mine ops sha g who now s) = Inr ls \<and> l \<in> set ls}"
  shows "le_hash l = [] \<and> ho_identity (le_holder l) = []"
proof -
  have "keeps_secret l"
    using assms(2)
    by (elim UnE CollectE exE conjE)
      (blast dest: claim_answers [OF assms(1)] renew_answers get_answers mine_answers)+
  then show ?thesis by (simp add: keeps_secret_def)
qed

theorem answers_keep_secrets_witness:
  "le_hash (public_lease (to_lease ''T-1'' (sample_lease sample_hash 0))) = [] \<and>
   ho_identity (le_holder (public_lease (to_lease ''T-1'' (sample_lease sample_hash 0)))) = []"
  by (rule answers_keep_secrets [where ops = "kv_ops False" and sha = "\<lambda>x. sample_hash" and g = "sample_gate True"
      and who = "Some sample_person" and req = sample_request and now = hour and random = "Some sample_secret"
      and s = "sample_service (sample_store None)"])
    (simp_all add: sample_claim_run sample_gate_errors)

section \<open>The watcher\<close>

context lease_service
begin

lemma next_expiry_cases:
  assumes "ok s" "op_next_expiry ops now s = (s', q)"
  shows "ok s' \<and> book s' = book s \<and> (case q of Inl e \<Rightarrow> True | Inr n \<Rightarrow> next_spec (norm_time now) (book s) n)"
proof -
  have c: "ops_call ops (CNextExpiry now) s = (s', map_sum id RNext q)" using assms(2) by (cases q) simp_all
  show ?thesis
    using keeps_ok [OF assms(1) _ c] refines [OF assms(1) _ c]
    by (cases q) (auto simp: backend_failed_def)
qed

lemma lapsed_exact:
  assumes "ok s" "watch_lapsed ops now w s = (s', b)"
  shows "ok s' \<and> book s' = book s \<and>
    (b \<longleftrightarrow> (\<exists>e. snd (op_next_expiry ops (wa_from w) s) = Inl e) \<or>
       (\<exists>l \<in> ran (live_book (norm_time (wa_from w)) (book s)). sl_expires l \<le> now))"
proof -
  obtain s1 q where n: "op_next_expiry ops (wa_from w) s = (s1, q)" by fastforce
  note nc = next_expiry_cases [OF assms(1) n]
  show ?thesis
  proof (cases q)
    case (Inl e)
    then show ?thesis using assms(2) nc by (simp add: watch_lapsed_def n)
  next
    case (Inr m)
    then have "next_spec (norm_time (wa_from w)) (book s) m" using nc by simp
    then have "(case m of None \<Rightarrow> False | Some e \<Rightarrow> e \<le> now) \<longleftrightarrow>
        (\<exists>l \<in> ran (live_book (norm_time (wa_from w)) (book s)). sl_expires l \<le> now)"
      by (cases m) (force simp: next_spec_def)+
    then show ?thesis using assms(2) nc Inr by (auto simp: watch_lapsed_def n)
  qed
qed

lemma arm_exact:
  assumes "ok s" "watch_arm ops now w s = (s', w')"
  shows "ok s' \<and> book s' = book s \<and> wa_version w' = wa_version w \<and>
    (wa_armed w' \<longrightarrow> wa_from w' = now \<and>
      (\<forall>l \<in> ran (live_book (norm_time now) (book s)). \<exists>t. wa_timer w' = Some t \<and> t \<le> max now (sl_expires l)) \<and>
      (\<forall>t. wa_timer w' = Some t \<longrightarrow> wa_target w' \<in> sl_expires ` ran (live_book (norm_time now) (book s)))) \<and>
    (\<not> wa_armed w' \<longrightarrow> (\<exists>e. snd (op_next_expiry ops now s) = Inl e))"
proof -
  obtain s1 q where n: "op_next_expiry ops now s = (s1, q)" by fastforce
  note nc = next_expiry_cases [OF assms(1) n]
  show ?thesis
  proof (cases q)
    case (Inl e)
    then show ?thesis using assms(2) nc by (auto simp: watch_arm_def n)
  next
    case (Inr m)
    then have m: "next_spec (norm_time now) (book s) m" using nc by simp
    show ?thesis
    proof (cases m)
      case None
      then show ?thesis using assms(2) nc Inr m by (auto simp: watch_arm_def n next_spec_def)
    next
      case (Some e)
      have "now + max (time_sub e now) 0 \<le> max now e" by (simp add: time_sub_def)
      moreover have "e \<in> sl_expires ` ran (live_book (norm_time now) (book s))"
          "\<forall>l \<in> ran (live_book (norm_time now) (book s)). e \<le> sl_expires l"
        using m Some by (simp_all add: next_spec_def)
      moreover have "s' = s1" "w' = w\<lparr>wa_armed := True, wa_from := now, wa_target := e, wa_timer := Some (now + max (time_sub e now) 0)\<rparr>"
        using assms(2) Inr Some by (simp_all add: watch_arm_def n)
      ultimately show ?thesis using nc by force
    qed
  qed
qed

end





end
