(* ===== verification/Acl_Policy.thy ===== *)
theory Acl_Policy
  imports Principal
begin

text \<open>
  The access policy, from \<^verbatim>\<open>internal/acl\<close>: policy.go (roles, the policy, its validation), worldgrant.go
  (grants on faces and worlds), ceiling.go and ceilingcompile.go (the client ceiling),
  membershiprefusal.go. YAML decoding and the \<open>description\<close> texts are left out, and an error keeps its
  kind and the names it cites, not its wording. A slice whose nil and empty values differ is an
  \<open>option\<close>. Map iteration follows the list order of the dictionary.
\<close>

section \<open>Roles and grants\<close>

datatype op = OpCreate | OpUpdate | OpDelete | OpRename | OpConvert | OpOther string

definition op_valid :: "op \<Rightarrow> bool" where
  "op_valid p \<longleftrightarrow> p \<in> {OpCreate, OpUpdate, OpDelete, OpRename, OpConvert}"

record field_grant =
  fg_field :: string
  fg_when :: string

record option_grant =
  og_field :: string
  og_option :: string
  og_when :: string

record relation_grant =
  lg_relation :: string
  lg_create :: "bool option"
  lg_remove :: "bool option"
  lg_fields :: "field_grant list"
  lg_visible :: "field_grant list"
  lg_when :: string

record role_def =
  ro_create :: "string list"
  ro_update :: "string list"
  ro_delete :: "string list"
  ro_convert :: "string list"
  ro_rename :: "string list"
  ro_read :: "string list"
  ro_permissions :: "string list"
  ro_worlds :: "string list"
  ro_fields :: "field_grant list dict"
  ro_visible :: "field_grant list dict"
  ro_options :: "option_grant list dict"
  ro_relations :: "relation_grant list dict"

definition role_is_privileged :: "role_def \<Rightarrow> bool" where
  "role_is_privileged r \<longleftrightarrow> ro_create r \<noteq> [] \<or> ro_update r \<noteq> [] \<or> ro_delete r \<noteq> [] \<or> ro_rename r \<noteq> [] \<or>
     ro_convert r \<noteq> [] \<or> ro_permissions r \<noteq> []"

definition role_has_affordance_grants :: "role_def \<Rightarrow> bool" where
  "role_has_affordance_grants r \<longleftrightarrow> ro_fields r \<noteq> [] \<or> ro_visible r \<noteq> [] \<or> ro_options r \<noteq> [] \<or> ro_relations r \<noteq> []"

text \<open>A grant entry: a type, or one face of a type.\<close>

datatype grant_error = TwoFaces | BadFaceName face_error | NoGrantType

datatype state_grant = TypeGrant string | FaceGrant string face | BadGrant grant_error

definition parse_state_grant :: "string \<Rightarrow> state_grant" where
  "parse_state_grant s =
     (case cut (CHR ''@'') s of
        (t, ptr, found) \<Rightarrow>
          if \<not> found then TypeGrant s
          else if CHR ''@'' \<in> set ptr then BadGrant TwoFaces
          else case parse_face ptr of
            Inl e \<Rightarrow> BadGrant (BadFaceName e)
          | Inr f \<Rightarrow> if t = [] then BadGrant NoGrantType else FaceGrant t f)"

definition grant_type_of :: "string \<Rightarrow> string" where
  "grant_type_of s = fst (cut (CHR ''@'') s)"

definition is_state_grant :: "string \<Rightarrow> bool" where
  "is_state_grant s \<longleftrightarrow> CHR ''@'' \<in> set s"

definition star :: string where "star = ''*''"

definition grants_family_rename :: "role_def \<Rightarrow> string \<Rightarrow> bool" where
  "grants_family_rename r t \<longleftrightarrow> list_ex (\<lambda>x. x = star \<or> x = t) (ro_rename r)"

definition grants_family_convert :: "role_def \<Rightarrow> string \<Rightarrow> bool" where
  "grants_family_convert r t \<longleftrightarrow> list_ex (\<lambda>x. x = star \<or> x = t) (ro_convert r)"

text \<open>The loop of \<open>GrantsVerbOnState\<close> over a grant list.\<close>

definition entry_grants :: "string \<Rightarrow> face \<Rightarrow> string \<Rightarrow> bool" where
  "entry_grants t f x \<longleftrightarrow>
     (if x = star then is_implicit f
      else case parse_state_grant x of
        BadGrant e \<Rightarrow> False
      | TypeGrant u \<Rightarrow> u = t \<and> is_implicit f
      | FaceGrant u g \<Rightarrow> u = t \<and> g = f)"

definition grants_verb_on_state :: "role_def \<Rightarrow> op \<Rightarrow> string \<Rightarrow> face \<Rightarrow> bool" where
  "grants_verb_on_state r p t f =
     (case p of
        OpCreate \<Rightarrow> list_ex (entry_grants t f) (ro_create r)
      | OpConvert \<Rightarrow> is_implicit f \<and> grants_family_convert r t
      | OpUpdate \<Rightarrow> list_ex (entry_grants t f) (ro_update r)
      | OpRename \<Rightarrow> (is_implicit f \<and> grants_family_rename r t) \<or> list_ex (entry_grants t f) (ro_update r)
      | OpDelete \<Rightarrow> list_ex (entry_grants t f) (ro_delete r)
      | OpOther s \<Rightarrow> False)"

text \<open>\<open>grantsVerb\<close>, the question about a type alone: an entry that names a face is skipped.\<close>

definition op_list :: "role_def \<Rightarrow> op \<Rightarrow> string list" where
  "op_list r p =
     (case p of OpCreate \<Rightarrow> ro_create r | OpConvert \<Rightarrow> ro_convert r | OpUpdate \<Rightarrow> ro_update r | OpRename \<Rightarrow> ro_update r
      | OpDelete \<Rightarrow> ro_delete r | OpOther s \<Rightarrow> [])"

definition grants_verb :: "role_def \<Rightarrow> op \<Rightarrow> string \<Rightarrow> bool" where
  "grants_verb r p t \<longleftrightarrow> list_ex (\<lambda>x. \<not> is_state_grant x \<and> (x = star \<or> x = t)) (op_list r p)"

definition role_grants_read :: "role_def \<Rightarrow> string \<Rightarrow> bool" where
  "role_grants_read r t \<longleftrightarrow>
     list_ex (\<lambda>x. x = star \<or> x = t \<or> (case parse_state_grant x of FaceGrant u f \<Rightarrow> u = t | _ \<Rightarrow> False)) (ro_read r)"

text \<open>The faces of \<open>t\<close> a role reads; \<open>None\<close> is every face.\<close>

fun read_faces :: "string \<Rightarrow> string list \<Rightarrow> face list \<Rightarrow> face list option" where
  "read_faces t [] fs = Some fs"
| "read_faces t (x # xs) fs =
     (if x = star \<or> x = t then None
      else case parse_state_grant x of
        FaceGrant u f \<Rightarrow> read_faces t xs (if u = t then fs @ [f] else fs)
      | _ \<Rightarrow> read_faces t xs fs)"

definition role_read_faces :: "role_def \<Rightarrow> string \<Rightarrow> face list option" where
  "role_read_faces r t = read_faces t (ro_read r) []"

definition dedupe_faces :: "face list \<Rightarrow> face list" where
  "dedupe_faces fs = sort (remdups fs)"

section \<open>The policy\<close>

record restriction =
  re_read :: "string list option"
  re_create :: "string list option"
  re_update :: "string list option"
  re_delete :: "string list option"
  re_deny_read :: "string list"
  re_deny_create :: "string list"
  re_deny_update :: "string list"
  re_deny_delete :: "string list"
  re_deny_write :: "string list"
  re_visible :: "string list option dict"
  re_redact :: "string list dict"
  re_worlds :: "string list option"
  re_deny_worlds :: "string list"
  re_permissions :: "string list option"
  re_deny_permissions :: "string list"

record client_baseline =
  cb_applies_to :: "string list"
  cb_restriction :: restriction

record role_relation =
  rr_confers :: string
  rr_requires :: string

record relation_write_grant =
  wg_permission :: string
  wg_create :: string
  wg_update :: string
  wg_delete :: string

record policy =
  po_user_type :: string
  po_property :: string
  po_membership :: string
  po_roles :: "role_def dict"
  po_assignments :: "string dict"
  po_asserted :: "string list dict"
  po_role_relations :: "role_relation dict"
  po_inherit :: "string list"
  po_baselines :: "client_baseline dict"
  po_scope_grants :: "restriction dict"
  po_relation_grants :: "relation_write_grant dict"
  po_default_world :: string
  po_unmatched :: string

definition everyone_role :: string where "everyone_role = ''everyone''"
definition default_membership :: string where "default_membership = ''member-of''"
definition default_world_name :: string where "default_world_name = ''default''"
definition world_grant_prefix :: string where "world_grant_prefix = ''world:''"
definition perm_config_edit :: string where "perm_config_edit = ''config:edit''"
definition perm_comment_read :: string where "perm_comment_read = ''comment:read''"
definition mutating_comment_perms :: "string list" where
  "mutating_comment_perms = [''comment:update-own'', ''comment:update-any'', ''comment:delete-own'', ''comment:delete-any'']"

definition unmatched_anonymous :: string where "unmatched_anonymous = ''anonymous''"
definition unmatched_reject :: string where "unmatched_reject = ''reject''"
definition unmatched_provision :: string where "unmatched_provision = ''provision''"

definition is_blank :: "string \<Rightarrow> bool" where
  "is_blank s \<longleftrightarrow> list_all (\<lambda>c. code c \<in> {32, 9, 10, 13}) s"

definition membership_relation :: "policy \<Rightarrow> string" where
  "membership_relation p = (let t = trim_space (po_membership p) in if t \<noteq> [] then t else default_membership)"

definition default_world :: "policy \<Rightarrow> string" where
  "default_world p = (if po_default_world p = [] then default_world_name else po_default_world p)"

definition effective_unmatched :: "policy \<Rightarrow> string" where
  "effective_unmatched p = (if po_unmatched p = [] then unmatched_anonymous else po_unmatched p)"

definition lookup_enabled :: "policy \<Rightarrow> bool" where
  "lookup_enabled p \<longleftrightarrow> trim_space (po_user_type p) \<noteq> [] \<and> trim_space (po_property p) \<noteq> []"

definition reject_effective :: "policy \<Rightarrow> bool \<Rightarrow> bool" where
  "reject_effective p verified \<longleftrightarrow> effective_unmatched p = unmatched_reject \<and> verified \<and> lookup_enabled p"

text \<open>\<open>RelationWriteGrant.permissionFor\<close>: the permission that may stand for a grant on the tail's type.\<close>

definition permission_for :: "relation_write_grant \<Rightarrow> op \<Rightarrow> string option" where
  "permission_for g p =
     (if wg_permission g \<noteq> [] then (if p \<in> {OpCreate, OpUpdate, OpDelete} then Some (wg_permission g) else None)
      else
        let perm = (case p of OpCreate \<Rightarrow> wg_create g | OpUpdate \<Rightarrow> wg_update g | OpDelete \<Rightarrow> wg_delete g | _ \<Rightarrow> [])
        in if perm \<noteq> [] then Some perm else None)"

definition relation_permission_for :: "policy \<Rightarrow> string \<Rightarrow> op \<Rightarrow> string option" where
  "relation_permission_for p rel verb =
     (case dict_get (po_relation_grants p) rel of None \<Rightarrow> None | Some g \<Rightarrow> permission_for g verb)"

definition role_grants_world_read :: "role_def \<Rightarrow> string \<Rightarrow> string \<Rightarrow> bool" where
  "role_grants_world_read r world dflt \<longleftrightarrow>
     (if world = [] \<or> world = dflt then ro_read r \<noteq> [] else world \<in> set (ro_worlds r))"

section \<open>The client ceiling\<close>

record verb_ceiling =
  vc_allow :: "string list option"
  vc_deny :: "string list"
  vc_except :: "string list"

definition matches_type_list :: "string list \<Rightarrow> string \<Rightarrow> bool" where
  "matches_type_list xs t \<longleftrightarrow> list_ex (\<lambda>x. x = star \<or> x = t) xs"

definition vc_permits :: "verb_ceiling \<Rightarrow> string \<Rightarrow> bool" where
  "vc_permits v t \<longleftrightarrow>
     (if t \<in> set (vc_except v) then True
      else case vc_allow v of
        Some xs \<Rightarrow> matches_type_list xs t
      | None \<Rightarrow> if vc_deny v \<noteq> [] then \<not> matches_type_list (vc_deny v) t else True)"

definition vc_narrows :: "verb_ceiling \<Rightarrow> bool" where
  "vc_narrows v \<longleftrightarrow> vc_allow v \<noteq> None \<or> vc_deny v \<noteq> []"

text \<open>The permission axis has the same shape; it never passes \<open>config:edit\<close>.\<close>

definition pc_permits :: "verb_ceiling \<Rightarrow> string \<Rightarrow> bool" where
  "pc_permits v t \<longleftrightarrow> t \<noteq> perm_config_edit \<and> vc_permits v t"

definition reopen :: "string list option \<Rightarrow> verb_ceiling \<Rightarrow> verb_ceiling" where
  "reopen types v =
     (let ts = (case types of None \<Rightarrow> [] | Some xs \<Rightarrow> xs) in
      if ts = [] then v
      else v\<lparr>vc_allow := map_option (\<lambda>xs. xs @ ts) (vc_allow v),
             vc_except := (if vc_deny v \<noteq> [] then vc_except v @ ts else vc_except v)\<rparr>)"

record ceiling =
  ce_name :: string
  ce_active :: bool
  ce_baseline :: "client_baseline option"
  ce_read :: verb_ceiling
  ce_create :: verb_ceiling
  ce_update :: verb_ceiling
  ce_delete :: verb_ceiling
  ce_permissions :: verb_ceiling
  ce_default_world :: string
  ce_worlds :: verb_ceiling

definition no_verb_ceiling :: verb_ceiling where
  "no_verb_ceiling = \<lparr>vc_allow = None, vc_deny = [], vc_except = []\<rparr>"

definition no_ceiling :: ceiling where
  "no_ceiling = \<lparr>ce_name = [], ce_active = False, ce_baseline = None, ce_read = no_verb_ceiling, ce_create = no_verb_ceiling,
     ce_update = no_verb_ceiling, ce_delete = no_verb_ceiling, ce_permissions = no_verb_ceiling, ce_default_world = [],
     ce_worlds = no_verb_ceiling\<rparr>"

definition baseline_for :: "policy \<Rightarrow> string \<Rightarrow> (string \<times> client_baseline) option" where
  "baseline_for p ptype =
     (let t = trim_space ptype in
      if t = [] then None
      else find (\<lambda>(name, b). t \<in> set (cb_applies_to b))
        (map (\<lambda>name. (name, the (dict_get (po_baselines p) name))) (sort (map fst (po_baselines p)))))"

definition axis :: "string list option \<Rightarrow> string list \<Rightarrow> verb_ceiling" where
  "axis allow deny = \<lparr>vc_allow = allow, vc_deny = deny, vc_except = []\<rparr>"

definition compile_baseline :: "policy \<Rightarrow> string \<Rightarrow> client_baseline \<Rightarrow> ceiling" where
  "compile_baseline p name b =
     (let r = cb_restriction b in
      \<lparr>ce_name = name, ce_active = True, ce_baseline = Some b,
       ce_read = axis (re_read r) (re_deny_read r), ce_create = axis (re_create r) (re_deny_create r),
       ce_update = axis (re_update r) (re_deny_update r), ce_delete = axis (re_delete r) (re_deny_delete r),
       ce_permissions = axis (re_permissions r) (re_deny_permissions r), ce_default_world = default_world p,
       ce_worlds = axis (re_worlds r) (re_deny_worlds r)\<rparr>)"

definition reopen_scope :: "policy \<Rightarrow> string \<Rightarrow> ceiling \<Rightarrow> ceiling" where
  "reopen_scope p scope c =
     (case dict_get (po_scope_grants p) (trim_space scope) of
        None \<Rightarrow> c
      | Some g \<Rightarrow> c\<lparr>ce_read := reopen (re_read g) (ce_read c), ce_create := reopen (re_create g) (ce_create c),
          ce_update := reopen (re_update g) (ce_update c), ce_delete := reopen (re_delete g) (ce_delete c),
          ce_worlds := reopen (re_worlds g) (ce_worlds c), ce_permissions := reopen (re_permissions g) (ce_permissions c)\<rparr>)"

definition ceiling_for :: "policy \<Rightarrow> string \<Rightarrow> string list \<Rightarrow> ceiling" where
  "ceiling_for p ptype scopes =
     (case baseline_for p ptype of
        None \<Rightarrow> no_ceiling
      | Some (name, b) \<Rightarrow> fold (reopen_scope p) scopes (compile_baseline p name b))"

text \<open>\<open>filterTypes\<close>: under an allowlist the wildcard becomes the list; entries already there are skipped.\<close>

definition filter_types :: "string list \<Rightarrow> verb_ceiling \<Rightarrow> string list" where
  "filter_types xs v =
     (if \<not> vc_narrows v \<or> xs = [] then xs
      else
        let collapse = (vc_allow v \<noteq> None \<and> star \<in> set xs);
            start = (if collapse then the (vc_allow v) else [])
        in fold (\<lambda>t out.
             if t \<in> set out then out
             else if t = star then (if collapse then out else out @ [t])
             else if vc_permits v (grant_type_of t) then out @ [t] else out) xs start)"

definition filter_worlds :: "string list \<Rightarrow> verb_ceiling \<Rightarrow> string list" where
  "filter_worlds xs v = (if \<not> vc_narrows v \<or> xs = [] then xs else filter (vc_permits v) xs)"

definition filter_permissions :: "string list \<Rightarrow> verb_ceiling \<Rightarrow> string list" where
  "filter_permissions xs v =
     (if \<not> vc_narrows v \<or> xs = [] then xs
      else if vc_allow v \<noteq> None \<and> star \<in> set xs then the (vc_allow v)
      else filter (\<lambda>x. x = star \<or> pc_permits v x) xs)"

definition clamp :: "ceiling \<Rightarrow> role_def \<Rightarrow> role_def" where
  "clamp c r =
     (if \<not> ce_active c then r
      else r\<lparr>ro_read := filter_types (ro_read r) (ce_read c), ro_create := filter_types (ro_create r) (ce_create c),
             ro_update := filter_types (ro_update r) (ce_update c), ro_rename := filter_types (ro_rename r) (ce_update c),
             ro_convert := filter_types (filter_types (ro_convert r) (ce_update c)) (ce_delete c),
             ro_delete := filter_types (ro_delete r) (ce_delete c), ro_worlds := filter_worlds (ro_worlds r) (ce_worlds c),
             ro_permissions := filter_permissions (ro_permissions r) (ce_permissions c)\<rparr>)"

definition permits_verb :: "ceiling \<Rightarrow> op \<Rightarrow> string \<Rightarrow> bool" where
  "permits_verb c p t \<longleftrightarrow> \<not> ce_active c \<or>
     (case p of
        OpCreate \<Rightarrow> vc_permits (ce_create c) t
      | OpUpdate \<Rightarrow> vc_permits (ce_update c) t
      | OpRename \<Rightarrow> vc_permits (ce_update c) t
      | OpConvert \<Rightarrow> vc_permits (ce_update c) t \<and> vc_permits (ce_delete c) t
      | OpDelete \<Rightarrow> vc_permits (ce_delete c) t
      | OpOther s \<Rightarrow> True)"

definition permits_read :: "ceiling \<Rightarrow> string \<Rightarrow> bool" where
  "permits_read c t \<longleftrightarrow> \<not> ce_active c \<or> vc_permits (ce_read c) t"

definition permits_world :: "ceiling \<Rightarrow> string \<Rightarrow> bool" where
  "permits_world c w \<longleftrightarrow> \<not> ce_active c \<or> w = [] \<or> w = ce_default_world c \<or> vc_permits (ce_worlds c) w"

definition permits_permission :: "ceiling \<Rightarrow> string \<Rightarrow> bool" where
  "permits_permission c perm \<longleftrightarrow> \<not> ce_active c \<or> pc_permits (ce_permissions c) perm"

section \<open>The ceiling on fields\<close>

record field_ceiling =
  fc_baseline :: string
  fc_visible :: "string list option"
  fc_redact :: "string list"

definition no_field_ceiling :: field_ceiling where
  "no_field_ceiling = \<lparr>fc_baseline = [], fc_visible = None, fc_redact = []\<rparr>"

definition reopen_fields :: "policy \<Rightarrow> string \<Rightarrow> string \<Rightarrow> field_ceiling \<Rightarrow> field_ceiling" where
  "reopen_fields p t scope f =
     (case dict_get (po_scope_grants p) (trim_space scope) of
        None \<Rightarrow> f
      | Some g \<Rightarrow>
          let reopened = (case dict_get (re_visible g) t of Some (Some xs) \<Rightarrow> xs | _ \<Rightarrow> []) in
          if reopened = [] then f
          else f\<lparr>fc_visible := map_option (\<lambda>xs. xs @ reopened) (fc_visible f),
                 fc_redact := filter (\<lambda>x. x \<notin> set reopened) (fc_redact f)\<rparr>)"

definition field_ceiling_for :: "policy \<Rightarrow> ceiling \<Rightarrow> string list \<Rightarrow> string \<Rightarrow> field_ceiling" where
  "field_ceiling_for p c scopes t =
     (case ce_baseline c of
        None \<Rightarrow> no_field_ceiling
      | Some b \<Rightarrow>
          let r = cb_restriction b;
              f = \<lparr>fc_baseline = ce_name c,
                   fc_visible = (case dict_get (re_visible r) t of None \<Rightarrow> None | Some v \<Rightarrow> v),
                   fc_redact = (case dict_get (re_redact r) t of None \<Rightarrow> [] | Some v \<Rightarrow> v)\<rparr>
          in fold (reopen_fields p t) scopes f)"

definition hides_field :: "field_ceiling \<Rightarrow> string \<Rightarrow> bool" where
  "hides_field f prop \<longleftrightarrow>
     (if fc_visible f = None \<and> fc_redact f = [] then False
      else prop \<in> set (fc_redact f) \<or> (case fc_visible f of None \<Rightarrow> False | Some xs \<Rightarrow> prop \<notin> set xs))"

end
