(* ===== verification/Acl_Request.thy ===== *)
theory Acl_Request
  imports Acl_Policy Graph_Query "HOL-Library.Product_Lexorder"
begin

text \<open>
  Evaluating a policy for one principal, from \<^verbatim>\<open>internal/acl\<close>: identity.go (who the principal is and
  its groups), resolver.go and localroleprime.go (the roles it holds, one entity at a time or for a
  page), source.go, request.go, authz_write.go (writes), rolegrant.go, readquery.go and faceverdict.go
  (reads), access.go and localrole.go, declarative.go. The graph, the face matcher and the principal
  lookup are the interfaces \<open>Graph\<close>, \<open>FaceMatcher\<close> and \<open>PrincipalLookup\<close>, given as records of functions.
  The text of a denial is left out; its kind and its rule are kept.
\<close>

section \<open>Where a role comes from\<close>

datatype source =
    SourceGlobal
  | SourceGroup string
  | SourceLocal string
  | SourceLocalViaGroup string string
  | SourceLocalViaAncestor string string
  | SourceLocalViaGroupAndAncestor string string string
  | SourceAsserted string

text \<open>The fields of \<open>Source\<close>: priority of the kind, group, ancestor, relation, claim.\<close>

fun source_key :: "source \<Rightarrow> nat \<times> string \<times> string \<times> string \<times> string" where
  "source_key SourceGlobal = (0, [], [], [], [])"
| "source_key (SourceAsserted c) = (1, [], [], [], c)"
| "source_key (SourceGroup g) = (2, g, [], [], [])"
| "source_key (SourceLocal r) = (3, [], [], r, [])"
| "source_key (SourceLocalViaGroup g r) = (4, g, [], r, [])"
| "source_key (SourceLocalViaAncestor a r) = (5, [], a, r, [])"
| "source_key (SourceLocalViaGroupAndAncestor g a r) = (6, g, a, r, [])"

lemma source_key_inject [simp]: "source_key a = source_key b \<longleftrightarrow> a = b"
  by (cases a; cases b) auto

text \<open>\<open>lessSource\<close> is the order of these keys.\<close>

instantiation source :: linorder
begin

definition less_eq_source :: "source \<Rightarrow> source \<Rightarrow> bool" where
  "less_eq_source a b \<longleftrightarrow> source_key a \<le> source_key b"

definition less_source :: "source \<Rightarrow> source \<Rightarrow> bool" where
  "less_source a b \<longleftrightarrow> source_key a < source_key b"

instance
  by standard (auto simp: less_eq_source_def less_source_def dest: order_antisym)

end

text \<open>\<open>PrimarySource\<close>: a scan that keeps the smaller source.\<close>

definition primary_source :: "source list \<Rightarrow> source option" where
  "primary_source srcs =
     (case srcs of [] \<Rightarrow> None | s # ss \<Rightarrow> Some (fold (\<lambda>x best. if x < best then x else best) ss s))"

record attribution =
  at_role :: string
  at_source :: source

section \<open>The interfaces of the graph\<close>

datatype acl_error =
    UnstampedPrincipal
  | GraphFailed string
  | LookupFailed string
  | LookupMissing
  | AmbiguousPrincipal
  | NoIdentity
  | ForeignIdentity
  | IdentityMismatch
  | MatcherFailed graph_error
  | UnknownVerb string

record acl_graph =
  ag_has_edge :: "string \<Rightarrow> string \<Rightarrow> string \<Rightarrow> bool"
  ag_outgoing :: "string \<Rightarrow> string \<Rightarrow> acl_error + string list"

text \<open>The batch reads a graph may offer: the edges between two sets of ids, the targets per id.\<close>

record edge_batcher =
  eb_between :: "string \<Rightarrow> string list \<Rightarrow> string list \<Rightarrow> acl_error + (string \<times> string) list"
  eb_outgoing :: "string \<Rightarrow> string list \<Rightarrow> acl_error + string list dict"

type_synonym face_matcher = "graph_query \<Rightarrow> string list \<Rightarrow> graph_error + face list dict"

text \<open>The evaluator \<open>Declarative\<close>; \<open>de_lookup\<close> takes the user type, the property and the value.\<close>

record declarative =
  de_policy :: policy
  de_graph :: acl_graph
  de_matcher :: face_matcher
  de_lookup :: "(string \<Rightarrow> string \<Rightarrow> string \<Rightarrow> acl_error + string list) option"

section \<open>Walks\<close>

definition acl_depth_cap :: nat where "acl_depth_cap = 5"

text \<open>The visited set of a walk is the set of its order.\<close>

definition visit :: "string list \<Rightarrow> string list \<times> string list \<Rightarrow> string list \<times> string list" where
  "visit tos st = fold (\<lambda>t (order, next). if t \<in> set order then (order, next) else (order @ [t], next @ [t])) tos st"

text \<open>An error carries the order reached when it came.\<close>

fun walk_types ::
  "acl_graph \<Rightarrow> string \<Rightarrow> string list \<Rightarrow> string list \<times> string list \<Rightarrow> (acl_error \<times> string list) + string list \<times> string list" where
  "walk_types g n [] st = Inr st"
| "walk_types g n (rel # rels) st =
     (case ag_outgoing g n rel of Inl e \<Rightarrow> Inl (e, fst st) | Inr tos \<Rightarrow> walk_types g n rels (visit tos st))"

fun walk_level ::
  "acl_graph \<Rightarrow> string list \<Rightarrow> string list \<Rightarrow> string list \<times> string list \<Rightarrow> (acl_error \<times> string list) + string list \<times> string list" where
  "walk_level g rels [] st = Inr st"
| "walk_level g rels (n # ns) st =
     (case walk_types g n rels st of Inl e \<Rightarrow> Inl e | Inr st' \<Rightarrow> walk_level g rels ns st')"

fun walk_loop ::
  "acl_graph \<Rightarrow> string list \<Rightarrow> nat \<Rightarrow> string list \<Rightarrow> string list \<Rightarrow> (acl_error \<times> string list) + string list" where
  "walk_loop g rels 0 order frontier = Inr order"
| "walk_loop g rels (Suc d) order frontier =
     (if frontier = [] then Inr order
      else case walk_level g rels frontier (order, []) of
        Inl e \<Rightarrow> Inl e
      | Inr (order', next) \<Rightarrow> walk_loop g rels d order' next)"

definition walk_members :: "policy \<Rightarrow> acl_graph \<Rightarrow> string \<Rightarrow> acl_error + string list" where
  "walk_members p g user =
     (if user = [] then Inr []
      else case walk_loop g [membership_relation p] acl_depth_cap [user] [user] of
        Inl (e, order) \<Rightarrow> Inl e
      | Inr order \<Rightarrow> Inr order)"

definition ancestors :: "policy \<Rightarrow> acl_graph \<Rightarrow> string \<Rightarrow> string list" where
  "ancestors p g i =
     (if i = [] \<or> po_inherit p = [] then [i]
      else case walk_loop g (po_inherit p) acl_depth_cap [i] [i] of
        Inl (e, order) \<Rightarrow> order
      | Inr order \<Rightarrow> order)"

section \<open>Identities\<close>

record acl_identity =
  id_principal :: principal
  id_members :: "string list"
  id_unmatched :: bool
  id_verified :: bool

definition is_blank_or_unknown :: "string \<Rightarrow> bool" where
  "is_blank_or_unknown s \<longleftrightarrow> (let t = trim_space s in t = [] \<or> t = unknown_user)"

definition is_unstamped :: "principal \<Rightarrow> bool" where
  "is_unstamped p \<longleftrightarrow> is_blank_or_unknown (pr_user p) \<or> is_blank_or_unknown (pr_tool p)"

definition resolve_direct :: "declarative \<Rightarrow> principal \<Rightarrow> acl_error + acl_identity" where
  "resolve_direct d p =
     (if is_unstamped p then Inl UnstampedPrincipal
      else map_sum id (\<lambda>ms. \<lparr>id_principal = p, id_members = ms, id_unmatched = False, id_verified = False\<rparr>)
        (walk_members (de_policy d) (de_graph d) (pr_user p)))"

definition resolve_principal :: "declarative \<Rightarrow> string \<Rightarrow> acl_error + string" where
  "resolve_principal d raw =
     (let p = de_policy d in
      if \<not> lookup_enabled p \<or> trim_space raw = [] then Inr []
      else case de_lookup d of
        None \<Rightarrow> Inl LookupMissing
      | Some look \<Rightarrow> (case look (po_user_type p) (po_property p) raw of
          Inl e \<Rightarrow> Inl e
        | Inr ids \<Rightarrow> (case ids of [] \<Rightarrow> Inr [] | [i] \<Rightarrow> Inr i | _ \<Rightarrow> Inl AmbiguousPrincipal)))"

definition substitute_user :: "principal \<Rightarrow> string \<Rightarrow> principal" where
  "substitute_user p i =
     (verified_from i (pr_tool p) \<lparr>cl_org = pr_org p, cl_org_slug = pr_org_slug p, cl_roles = pr_roles p,
        cl_org_name = pr_org_name p, cl_type = principal_type p, cl_scopes = pr_scopes p, cl_email = pr_email p\<rparr>)
     \<lparr>pr_raw_user := pr_user p\<rparr>"

definition resolve :: "declarative \<Rightarrow> principal \<Rightarrow> acl_error + acl_identity" where
  "resolve d p =
     (if is_unstamped p then Inl UnstampedPrincipal
      else case (if lookup_enabled (de_policy d)
                 then (case resolve_principal d (pr_user p) of
                     Inl e \<Rightarrow> Inl (LookupFailed ''principal'')
                   | Inr i \<Rightarrow> Inr (if i = [] then (p, True) else if i \<noteq> pr_user p then (substitute_user p i, False) else (p, False)))
                 else Inr (p, False)) of
        Inl e \<Rightarrow> Inl e
      | Inr (q, unmatched) \<Rightarrow> map_sum id (\<lambda>x. x\<lparr>id_unmatched := unmatched\<rparr>) (resolve_direct d q))"

section \<open>Requests\<close>

record acl_request =
  aq_declarative :: declarative
  aq_principal :: principal
  aq_globals :: "attribution list"
  aq_members :: "string list"
  aq_ceiling :: ceiling
  aq_unmatched_verified :: bool

definition aq_policy :: "acl_request \<Rightarrow> policy" where
  "aq_policy r = de_policy (aq_declarative r)"

definition aq_graph :: "acl_request \<Rightarrow> acl_graph" where
  "aq_graph r = de_graph (aq_declarative r)"

text \<open>The \<open>add\<close> closure of \<open>globalRoles\<close> and of the walks below: no attribution twice.\<close>

definition add_attr :: "attribution \<Rightarrow> attribution list \<Rightarrow> attribution list" where
  "add_attr a xs = (if a \<in> set xs then xs else xs @ [a])"

definition attr :: "string \<Rightarrow> source \<Rightarrow> attribution" where
  "attr role src = \<lparr>at_role = role, at_source = src\<rparr>"

definition assigned_attrs :: "policy \<Rightarrow> principal \<Rightarrow> string list \<Rightarrow> attribution list" where
  "assigned_attrs p who members =
     concat (map (\<lambda>m. case dict_get (po_assignments p) m of
         None \<Rightarrow> []
       | Some role \<Rightarrow> if dict_get (po_roles p) role = None then []
           else [attr role (if m = pr_user who then SourceGlobal else SourceGroup m)]) members)"

definition asserted_attrs :: "policy \<Rightarrow> principal \<Rightarrow> attribution list" where
  "asserted_attrs p who =
     concat (map (\<lambda>c. let claim = trim_space c in
         map (\<lambda>role. attr role (SourceAsserted claim))
           (filter (\<lambda>role. dict_get (po_roles p) role \<noteq> None)
             (case dict_get (po_asserted p) claim of None \<Rightarrow> [] | Some rs \<Rightarrow> rs))) (pr_roles who))"

definition everyone_attrs :: "policy \<Rightarrow> attribution list" where
  "everyone_attrs p = (if dict_get (po_roles p) everyone_role = None then [] else [attr everyone_role SourceGlobal])"

definition global_roles :: "policy \<Rightarrow> principal \<Rightarrow> string list \<Rightarrow> attribution list" where
  "global_roles p who members =
     fold add_attr (assigned_attrs p who members @ asserted_attrs p who @ everyone_attrs p) []"

text \<open>\<open>origin\<close> is the resolver of the identity: none for the zero value, or whether it is this evaluator's.\<close>

definition for_identity :: "declarative \<Rightarrow> bool option \<Rightarrow> acl_identity \<Rightarrow> acl_error + acl_request" where
  "for_identity d origin x =
     (case origin of
        None \<Rightarrow> Inl NoIdentity
      | Some own \<Rightarrow>
          if \<not> own then Inl ForeignIdentity
          else
            let p = id_principal x in
            Inr \<lparr>aq_declarative = d, aq_principal = p, aq_globals = global_roles (de_policy d) p (id_members x),
              aq_members = id_members x, aq_ceiling = ceiling_for (de_policy d) (principal_type p) (pr_scopes p),
              aq_unmatched_verified = (id_unmatched x \<and> id_verified x)\<rparr>)"

definition open_request :: "declarative \<Rightarrow> principal \<Rightarrow> acl_error + acl_request" where
  "open_request d p = (case resolve_direct d p of Inl e \<Rightarrow> Inl e | Inr x \<Rightarrow> for_identity d (Some True) x)"

definition retool :: "acl_request \<Rightarrow> string \<Rightarrow> acl_request" where
  "retool r tool =
     (let p = (aq_principal r)\<lparr>pr_tool := tool\<rparr> in
      r\<lparr>aq_principal := p, aq_globals := global_roles (aq_policy r) p (aq_members r),
        aq_ceiling := ceiling_for (aq_policy r) (principal_type p) (pr_scopes p)\<rparr>)"

definition role_for :: "acl_request \<Rightarrow> string \<Rightarrow> role_def option" where
  "role_for r name = map_option (clamp (aq_ceiling r)) (dict_get (po_roles (aq_policy r)) name)"

section \<open>Local roles\<close>

definition conferring_relations :: "policy \<Rightarrow> string list" where
  "conferring_relations p =
     sort (map fst (filter (\<lambda>(rel, d). rr_confers d \<noteq> [] \<and> dict_get (po_roles p) (rr_confers d) \<noteq> None) (po_role_relations p)))"

definition confers :: "policy \<Rightarrow> string \<Rightarrow> string" where
  "confers p rel = (case dict_get (po_role_relations p) rel of None \<Rightarrow> [] | Some d \<Rightarrow> rr_confers d)"

definition local_source :: "string \<Rightarrow> string \<Rightarrow> string \<Rightarrow> string \<Rightarrow> string \<Rightarrow> source" where
  "local_source member user target i rel =
     (if target = i then (if member = user then SourceLocal rel else SourceLocalViaGroup member rel)
      else if member = user then SourceLocalViaAncestor target rel
      else SourceLocalViaGroupAndAncestor member target rel)"

definition local_roles ::
  "acl_request \<Rightarrow> string \<Rightarrow> string list \<Rightarrow> string list \<Rightarrow> (string \<Rightarrow> string \<Rightarrow> string \<Rightarrow> bool) \<Rightarrow> attribution list" where
  "local_roles r i chain members edge =
     fold add_attr
       (concat (map (\<lambda>rel. concat (map (\<lambda>m.
           map (\<lambda>t. attr (confers (aq_policy r) rel) (local_source m (pr_user (aq_principal r)) t i rel))
             (filter (edge m rel) chain)) members)) (conferring_relations (aq_policy r)))) []"

definition merge_attributions :: "attribution list \<Rightarrow> attribution list \<Rightarrow> attribution list" where
  "merge_attributions globals locals = fold add_attr locals globals"

text \<open>A prime answers the local roles of the entities it covers.\<close>

type_synonym prime = "string \<Rightarrow> attribution list option"

definition compute_for_entity :: "prime \<Rightarrow> acl_request \<Rightarrow> string \<Rightarrow> attribution list" where
  "compute_for_entity primed r i =
     (case primed i of
        Some locals \<Rightarrow> merge_attributions (aq_globals r) locals
      | None \<Rightarrow> merge_attributions (aq_globals r)
          (local_roles r i (ancestors (aq_policy r) (aq_graph r) i) (aq_members r) (ag_has_edge (aq_graph r))))"

definition for_entity :: "prime \<Rightarrow> acl_request \<Rightarrow> string \<Rightarrow> attribution list" where
  "for_entity primed r i = (if i = [] then aq_globals r else compute_for_entity primed r i)"

section \<open>Local roles of a page\<close>

text \<open>A walk of the batch: its chain, whose set is what it visited, and its frontier.\<close>

record ancestor_walk =
  aw_chain :: "string list"
  aw_frontier :: "string list"

definition loaded_targets :: "string list dict dict \<Rightarrow> string \<Rightarrow> string \<Rightarrow> string list" where
  "loaded_targets out n rel =
     (case dict_get out n of None \<Rightarrow> [] | Some m \<Rightarrow> (case dict_get m rel of None \<Rightarrow> [] | Some tos \<Rightarrow> tos))"

definition walk_step :: "string list \<Rightarrow> string list dict dict \<Rightarrow> ancestor_walk \<Rightarrow> ancestor_walk" where
  "walk_step inherit out w =
     (case fold (\<lambda>n st. fold (\<lambda>rel st. visit (loaded_targets out n rel) st) inherit st) (aw_frontier w) (aw_chain w, []) of
        (chain, next) \<Rightarrow> \<lparr>aw_chain = chain, aw_frontier = next\<rparr>)"

text \<open>The targets of one type are added to the nodes known.\<close>

definition put_targets :: "string \<Rightarrow> string \<times> string list \<Rightarrow> string list dict dict \<Rightarrow> string list dict dict" where
  "put_targets rel x out =
     (case dict_get out (fst x) of None \<Rightarrow> out | Some m \<Rightarrow> dict_set (fst x) (dict_set rel (snd x) m) out)"

fun load_types ::
  "edge_batcher \<Rightarrow> string list \<Rightarrow> string list \<Rightarrow> string list dict dict \<Rightarrow> acl_error + string list dict dict" where
  "load_types b nodes [] out = Inr out"
| "load_types b nodes (rel # rels) out =
     (case eb_outgoing b rel nodes of
        Inl e \<Rightarrow> Inl e
      | Inr tos \<Rightarrow> load_types b nodes rels (fold (put_targets rel) tos out))"

definition load_outgoing ::
  "edge_batcher \<Rightarrow> string list \<Rightarrow> ancestor_walk dict \<Rightarrow> string list dict dict \<Rightarrow> acl_error + string list dict dict" where
  "load_outgoing b inherit walks out =
     (let nodes = sort (remdups (filter (\<lambda>n. dict_get out n = None) (concat (map (aw_frontier \<circ> snd) walks)))) in
      if nodes = [] then Inr out
      else load_types b nodes inherit (fold (\<lambda>n o'. dict_set n [] o') nodes out))"

fun batch_levels ::
  "edge_batcher \<Rightarrow> string list \<Rightarrow> nat \<Rightarrow> ancestor_walk dict \<Rightarrow> string list dict dict \<Rightarrow> acl_error + ancestor_walk dict" where
  "batch_levels b inherit 0 walks out = Inr walks"
| "batch_levels b inherit (Suc d) walks out =
     (case load_outgoing b inherit walks out of
        Inl e \<Rightarrow> Inl e
      | Inr out' \<Rightarrow>
          let walks' = map (\<lambda>(i, w). (i, walk_step inherit out' w)) walks in
          if list_ex (\<lambda>(i, w). aw_frontier w \<noteq> []) walks' then batch_levels b inherit d walks' out' else Inr walks')"

definition batch_ancestors :: "policy \<Rightarrow> edge_batcher \<Rightarrow> string list \<Rightarrow> acl_error + string list dict" where
  "batch_ancestors p b ids =
     (if po_inherit p = [] then Inr (map (\<lambda>i. (i, [i])) ids)
      else map_sum id (map (\<lambda>(i, w). (i, aw_chain w)))
        (batch_levels b (po_inherit p) acl_depth_cap (map (\<lambda>i. (i, \<lparr>aw_chain = [i], aw_frontier = [i]\<rparr>)) ids) []))"

fun load_between ::
  "edge_batcher \<Rightarrow> string list \<Rightarrow> string list \<Rightarrow> string list \<Rightarrow> acl_error + (string \<times> string) list dict" where
  "load_between b members targets [] = Inr []"
| "load_between b members targets (rel # rels) =
     (case eb_between b rel members targets of
        Inl e \<Rightarrow> Inl e
      | Inr es \<Rightarrow> map_sum id (\<lambda>m. (rel, es) # m) (load_between b members targets rels))"

definition batch_local_roles :: "acl_request \<Rightarrow> edge_batcher \<Rightarrow> string list \<Rightarrow> acl_error + attribution list dict" where
  "batch_local_roles r b ids =
     (let rels = conferring_relations (aq_policy r) in
      if rels = [] \<or> aq_members r = [] then Inr (map (\<lambda>i. (i, [])) ids)
      else case batch_ancestors (aq_policy r) b ids of
        Inl e \<Rightarrow> Inl e
      | Inr found \<Rightarrow>
          let targets = sort (remdups (concat (map snd found))) in
          (case load_between b (aq_members r) targets rels of
             Inl e \<Rightarrow> Inl e
           | Inr edges \<Rightarrow> Inr (map (\<lambda>i. (i, local_roles r i (case dict_get found i of None \<Rightarrow> [] | Some c \<Rightarrow> c) (aq_members r)
               (\<lambda>m rel t. case dict_get edges rel of None \<Rightarrow> False | Some es \<Rightarrow> (m, t) \<in> set es))) ids)))"

text \<open>\<open>PrimeLocalRoles\<close> on a primed context: ids already primed, blank or repeated are skipped.\<close>

definition prime_local_roles :: "acl_request \<Rightarrow> edge_batcher option \<Rightarrow> string list \<Rightarrow> prime \<Rightarrow> prime" where
  "prime_local_roles r batcher ids parent =
     (case batcher of
        None \<Rightarrow> parent
      | Some b \<Rightarrow>
          let todo = filter (\<lambda>i. parent i = None) (first_seen (filter (\<lambda>i. i \<noteq> []) ids)) in
          if todo = [] then parent
          else (case batch_local_roles r b todo of
             Inl e \<Rightarrow> parent
           | Inr by_id \<Rightarrow> (\<lambda>i. case dict_get by_id i of Some xs \<Rightarrow> Some xs | None \<Rightarrow> parent i)))"

section \<open>Permissions\<close>

definition grants_permission :: "acl_request \<Rightarrow> attribution list \<Rightarrow> string \<Rightarrow> bool" where
  "grants_permission r attrs perm \<longleftrightarrow>
     permits_permission (aq_ceiling r) perm \<and>
     list_ex (\<lambda>a. case role_for r (at_role a) of None \<Rightarrow> False | Some role \<Rightarrow> perm \<in> set (ro_permissions role)) attrs"

definition holds_permission :: "acl_request \<Rightarrow> string \<Rightarrow> bool" where
  "holds_permission r perm \<longleftrightarrow> grants_permission r (aq_globals r) perm"

definition holds_permission_for_entity :: "prime \<Rightarrow> acl_request \<Rightarrow> string \<Rightarrow> string \<Rightarrow> bool" where
  "holds_permission_for_entity primed r i perm \<longleftrightarrow> grants_permission r (compute_for_entity primed r i) perm"

section \<open>Writes\<close>

datatype rule_kind = RoleGrant | ClientCeiling | DelegatePermission | RelationGrant | UnmatchedPrincipal

record acl_decision =
  dn_allow :: bool
  dn_kind :: rule_kind
  dn_rule :: string
  dn_attributions :: "attribution list"
  dn_cause :: "acl_error option"

definition decided_by :: "bool \<Rightarrow> rule_kind \<Rightarrow> string \<Rightarrow> attribution list \<Rightarrow> acl_decision" where
  "decided_by allow kind rule attrs =
     \<lparr>dn_allow = allow, dn_kind = kind, dn_rule = rule, dn_attributions = attrs, dn_cause = None\<rparr>"

record entity_subject =
  es_type :: string
  es_id :: string
  es_face :: face
  es_family :: bool
  es_convert_to :: string

record relation_subject =
  rs_type :: string
  rs_from_type :: string
  rs_from_id :: string
  rs_from_face :: face
  rs_family_faces :: "face list"

datatype subject = EntitySubject entity_subject | RelationSubject relation_subject

text \<open>The first attribution whose role passes a test; a role the policy does not declare is skipped.\<close>

definition granting_role :: "acl_request \<Rightarrow> (role_def \<Rightarrow> bool) \<Rightarrow> attribution list \<Rightarrow> attribution option" where
  "granting_role r test attrs =
     find (\<lambda>a. case role_for r (at_role a) of None \<Rightarrow> False | Some role \<Rightarrow> test role) attrs"

definition ceiling_denial :: "acl_request \<Rightarrow> attribution list \<Rightarrow> op \<Rightarrow> string \<Rightarrow> acl_decision option" where
  "ceiling_denial r attrs p t =
     (if permits_verb (aq_ceiling r) p t then None
      else Some (decided_by False ClientCeiling (ce_name (aq_ceiling r)) attrs))"

definition conversion_denial :: "acl_request \<Rightarrow> attribution list \<Rightarrow> string \<Rightarrow> acl_decision option" where
  "conversion_denial r attrs dest =
     (if \<not> ce_active (aq_ceiling r) then None
      else if dest \<noteq> [] \<and> permits_verb (aq_ceiling r) OpCreate dest then None
      else Some (decided_by False ClientCeiling (ce_name (aq_ceiling r)) attrs))"

definition decide_roles :: "acl_request \<Rightarrow> (role_def \<Rightarrow> bool) \<Rightarrow> attribution list \<Rightarrow> acl_decision" where
  "decide_roles r test attrs =
     (case granting_role r test attrs of
        Some a \<Rightarrow> decided_by True RoleGrant (at_role a) attrs
      | None \<Rightarrow> decided_by False RoleGrant ''-'' attrs)"

definition decide_from_attrs :: "acl_request \<Rightarrow> attribution list \<Rightarrow> op \<Rightarrow> string \<Rightarrow> face \<Rightarrow> acl_decision" where
  "decide_from_attrs r attrs p t f =
     (case ceiling_denial r attrs p t of
        Some d \<Rightarrow> d
      | None \<Rightarrow> decide_roles r (\<lambda>role. grants_verb_on_state role p t f) attrs)"

definition decide_family_write :: "acl_request \<Rightarrow> attribution list \<Rightarrow> op \<Rightarrow> string \<Rightarrow> string \<Rightarrow> acl_decision" where
  "decide_family_write r attrs p t dest =
     (case ceiling_denial r attrs p t of
        Some d \<Rightarrow> d
      | None \<Rightarrow>
     (case (if p = OpConvert then conversion_denial r attrs dest else None) of
        Some d \<Rightarrow> d
      | None \<Rightarrow>
          if p = OpRename then decide_roles r (\<lambda>role. grants_family_rename role t) attrs
          else if p = OpConvert then decide_roles r (\<lambda>role. grants_family_convert role t) attrs
          else decided_by False RoleGrant ''-'' attrs))"

definition authorize_entity_write :: "prime \<Rightarrow> acl_request \<Rightarrow> op \<Rightarrow> entity_subject \<Rightarrow> acl_decision" where
  "authorize_entity_write primed r p s =
     (let attrs = (if es_id s \<noteq> [] then compute_for_entity primed r (es_id s) else aq_globals r) in
      if es_family s then decide_family_write r attrs p (es_type s) (es_convert_to s)
      else decide_from_attrs r attrs p (es_type s) (es_face s))"

definition can_update_tail :: "acl_request \<Rightarrow> attribution list \<Rightarrow> relation_subject \<Rightarrow> bool" where
  "can_update_tail r attrs s \<longleftrightarrow>
     is_implicit (rs_from_face s) \<or> dn_allow (decide_from_attrs r attrs OpUpdate (rs_from_type s) (rs_from_face s))"

text \<open>Every face in turn, up to the first denial.\<close>

fun decide_faces :: "acl_request \<Rightarrow> attribution list \<Rightarrow> op \<Rightarrow> string \<Rightarrow> face \<Rightarrow> face list \<Rightarrow> acl_decision" where
  "decide_faces r attrs p t f [] = decide_from_attrs r attrs p t f"
| "decide_faces r attrs p t f (g # gs) =
     (let d = decide_from_attrs r attrs p t f in if dn_allow d then decide_faces r attrs p t g gs else d)"

definition authorize_relation_write :: "acl_request \<Rightarrow> op \<Rightarrow> relation_subject \<Rightarrow> acl_decision" where
  "authorize_relation_write r p s =
     (let required = (case dict_get (po_role_relations (aq_policy r)) (rs_type s) of None \<Rightarrow> [] | Some d \<Rightarrow> rr_requires d) in
      if required \<noteq> [] \<and> \<not> holds_permission r required then decided_by False DelegatePermission required []
      else
        let attrs = aq_globals r in
        case ceiling_denial r attrs p (rs_from_type s) of
          Some d \<Rightarrow> d
        | None \<Rightarrow>
            let perm = (if rs_from_type s = [] then None else relation_permission_for (aq_policy r) (rs_type s) p) in
            if (case perm of None \<Rightarrow> False | Some x \<Rightarrow> grants_permission r attrs x) \<and> can_update_tail r attrs s
            then decided_by True RelationGrant (the perm) attrs
            else (case rs_family_faces s of
                [] \<Rightarrow> decide_faces r attrs p (rs_from_type s) (rs_from_face s) []
              | f # fs \<Rightarrow> decide_faces r attrs p (rs_from_type s) f fs))"

definition authorize_write :: "prime \<Rightarrow> acl_request \<Rightarrow> op \<Rightarrow> subject \<Rightarrow> acl_decision" where
  "authorize_write primed r p s =
     (case s of
        EntitySubject es \<Rightarrow> authorize_entity_write primed r p es
      | RelationSubject rs \<Rightarrow> authorize_relation_write r p rs)"

text \<open>
  \<open>Declarative.AuthorizeWrite\<close>, the gate of every write: the request attached to the context, if any,
  whether it belongs to this evaluator, and the principal of the context.
\<close>

definition request_from :: "(acl_request \<times> bool) option \<Rightarrow> principal option \<Rightarrow> acl_error + acl_request" where
  "request_from attached who =
     (case attached of
        None \<Rightarrow> Inl NoIdentity
      | Some (r, own) \<Rightarrow>
          if \<not> own then Inl ForeignIdentity
          else if aq_principal r \<noteq> principal_from who then Inl IdentityMismatch else Inr r)"

definition declarative_authorize ::
  "prime \<Rightarrow> (acl_request \<times> bool) option \<Rightarrow> principal option \<Rightarrow> op \<Rightarrow> subject \<Rightarrow> acl_decision" where
  "declarative_authorize primed attached who p s =
     (case request_from attached who of
        Inl e \<Rightarrow> (decided_by False RoleGrant ''-'' [])\<lparr>dn_cause := Some e\<rparr>
      | Inr r \<Rightarrow>
          if aq_unmatched_verified r \<and> effective_unmatched (aq_policy r) = unmatched_reject
          then decided_by False UnmatchedPrincipal unmatched_reject []
          else authorize_write primed r p s)"

section \<open>Reads\<close>

text \<open>\<open>ReadQueryResult\<close>; an empty face list is every face.\<close>

datatype read_plan = DenyAll | AllowAll "face list" | ReadQuery graph_query "face list"

definition conferred_edge :: "policy \<Rightarrow> string list \<Rightarrow> string list \<Rightarrow> relation_predicate option" where
  "conferred_edge p members rels =
     (if members = [] then None
      else Some (RelationPredicate members rels False [] 0 (po_inherit p)
        (if po_inherit p \<noteq> [] then int acl_depth_cap else 0) None))"

definition read_template :: "string \<Rightarrow> relation_predicate \<Rightarrow> graph_query" where
  "read_template t edge = \<lparr>gq_type = t, gq_props = [], gq_inbound = Some edge, gq_outbound = None, gq_faces = SelectUnset,
     gq_face_in = [], gq_any = [], gq_skip_unreadable = True, gq_narrowing = [], gq_related = [], gq_order = [],
     gq_limit = 0, gq_offset = 0\<rparr>"

text \<open>The faces of a type that some roles read together, \<open>None\<close> when one of them reads every face.\<close>

definition faces_union :: "face list option list \<Rightarrow> face list option" where
  "faces_union fss = (if None \<in> set fss then None else Some (dedupe_faces (concat (map the fss))))"

definition plan_faces :: "face list option \<Rightarrow> face list" where
  "plan_faces fs = (case fs of None \<Rightarrow> [] | Some xs \<Rightarrow> xs)"

definition reading_roles :: "acl_request \<Rightarrow> string \<Rightarrow> string list \<Rightarrow> role_def list" where
  "reading_roles r t names =
     concat (map (\<lambda>name. case role_for r name of None \<Rightarrow> [] | Some role \<Rightarrow> if role_grants_read role t then [role] else []) names)"

definition reading_relations :: "acl_request \<Rightarrow> string \<Rightarrow> string list" where
  "reading_relations r t =
     sort (map fst (filter (\<lambda>(rel, d). reading_roles r t [rr_confers d] \<noteq> []) (po_role_relations (aq_policy r))))"

definition relation_faces :: "acl_request \<Rightarrow> string \<Rightarrow> string \<Rightarrow> face list option" where
  "relation_faces r t rel =
     (case role_for r (confers (aq_policy r) rel) of None \<Rightarrow> Some [] | Some role \<Rightarrow> role_read_faces role t)"

definition read_branch :: "acl_request \<Rightarrow> string \<Rightarrow> string \<Rightarrow> graph_branch" where
  "read_branch r t rel =
     \<lparr>gb_inbound = conferred_edge (aq_policy r) (aq_members r) [rel],
      gb_face_in = plan_faces (map_option dedupe_faces (relation_faces r t rel))\<rparr>"

definition read_query :: "acl_request \<Rightarrow> string \<Rightarrow> read_plan" where
  "read_query r t =
     (if \<not> permits_read (aq_ceiling r) t then DenyAll
      else
        let globals = reading_roles r t (map at_role (aq_globals r)) in
        if globals \<noteq> [] then AllowAll (plan_faces (faces_union (map (\<lambda>role. role_read_faces role t) globals)))
        else
          let rels = reading_relations r t in
          if rels = [] then DenyAll
          else case conferred_edge (aq_policy r) (aq_members r) rels of
            None \<Rightarrow> DenyAll
          | Some edge \<Rightarrow>
              let faces = map (relation_faces r t) rels in
              if list_all (\<lambda>f. f = None) faces then ReadQuery (read_template t edge) []
              else ReadQuery ((read_template t edge)\<lparr>gq_any := map (read_branch r t) rels\<rparr>) (plan_faces (faces_union faces)))"

datatype face_verdict = AllFaces | OnlyFaces "face list"

definition verdict_none :: "face_verdict \<Rightarrow> bool" where
  "verdict_none v \<longleftrightarrow> v = OnlyFaces []"

definition verdict_contains :: "face_verdict \<Rightarrow> face \<Rightarrow> bool" where
  "verdict_contains v f \<longleftrightarrow> (case v of AllFaces \<Rightarrow> True | OnlyFaces fs \<Rightarrow> f \<in> set fs)"

definition faces_verdict :: "face list \<Rightarrow> face_verdict" where
  "faces_verdict fs = OnlyFaces (sorted_faces_of fs)"

datatype face_verdicts = UniformVerdict face_verdict | PerEntity "face_verdict dict"

definition verdict_for :: "face_verdicts \<Rightarrow> string \<Rightarrow> face_verdict" where
  "verdict_for vs i =
     (case vs of
        UniformVerdict v \<Rightarrow> v
      | PerEntity m \<Rightarrow> (case dict_get m i of None \<Rightarrow> OnlyFaces [] | Some v \<Rightarrow> v))"

definition readable_faces_many :: "acl_request \<Rightarrow> string \<Rightarrow> string list \<Rightarrow> acl_error + face_verdicts" where
  "readable_faces_many r t ids =
     (case read_query r t of
        DenyAll \<Rightarrow> Inr (UniformVerdict (OnlyFaces []))
      | AllowAll fs \<Rightarrow> Inr (UniformVerdict (if fs = [] then AllFaces else faces_verdict fs))
      | ReadQuery q fs \<Rightarrow>
          (case de_matcher (aq_declarative r) (q\<lparr>gq_faces := all_faces, gq_face_in := fs\<rparr>) ids of
             Inl e \<Rightarrow> Inl (MatcherFailed e)
           | Inr matched \<Rightarrow> Inr (PerEntity (filter (\<lambda>(i, v). \<not> verdict_none v) (map (\<lambda>(i, gs). (i, faces_verdict gs)) matched)))))"

definition permits_read_entity :: "acl_request \<Rightarrow> string \<Rightarrow> string \<Rightarrow> acl_error + bool" where
  "permits_read_entity r t i = map_sum id (\<lambda>vs. \<not> verdict_none (verdict_for vs i)) (readable_faces_many r t [i])"

definition permits_read_face :: "acl_request \<Rightarrow> string \<Rightarrow> string \<Rightarrow> face \<Rightarrow> acl_error + bool" where
  "permits_read_face r t i f = map_sum id (\<lambda>vs. verdict_contains (verdict_for vs i) f) (readable_faces_many r t [i])"

section \<open>Worlds\<close>

fun any_outgoing :: "acl_graph \<Rightarrow> string \<Rightarrow> string list \<Rightarrow> acl_error + bool" where
  "any_outgoing g rel [] = Inr False"
| "any_outgoing g rel (m # ms) =
     (case ag_outgoing g m rel of Inl e \<Rightarrow> Inl e | Inr tos \<Rightarrow> if tos \<noteq> [] then Inr True else any_outgoing g rel ms)"

fun world_through :: "acl_request \<Rightarrow> string \<Rightarrow> string list \<Rightarrow> acl_error + bool" where
  "world_through r world [] = Inr False"
| "world_through r world (rel # rels) =
     (case role_for r (confers (aq_policy r) rel) of
        None \<Rightarrow> world_through r world rels
      | Some role \<Rightarrow>
          if \<not> role_grants_world_read role world (default_world (aq_policy r)) then world_through r world rels
          else (case any_outgoing (aq_graph r) rel (aq_members r) of
              Inl e \<Rightarrow> Inl e
            | Inr b \<Rightarrow> if b then Inr True else world_through r world rels))"

definition request_permits_world :: "acl_request \<Rightarrow> string \<Rightarrow> acl_error + bool" where
  "request_permits_world r world =
     (if \<not> permits_world (aq_ceiling r) world then Inr False
      else if granting_role r (\<lambda>role. role_grants_world_read role world (default_world (aq_policy r))) (aq_globals r) \<noteq> None
      then Inr True
      else world_through r world (sort (map fst (po_role_relations (aq_policy r)))))"

section \<open>Reports\<close>

datatype verb = VerbRead | VerbOp op

definition verb_op :: "verb \<Rightarrow> op option" where
  "verb_op v = (case v of VerbRead \<Rightarrow> None | VerbOp p \<Rightarrow> if op_valid p then Some p else None)"

definition ceiling_permits_verb :: "acl_request \<Rightarrow> verb \<Rightarrow> string \<Rightarrow> bool" where
  "ceiling_permits_verb r v t =
     (case v of VerbRead \<Rightarrow> permits_read (aq_ceiling r) t
      | VerbOp p \<Rightarrow> op_valid p \<and> permits_verb (aq_ceiling r) p t)"

definition grants_verb_on_face :: "role_def \<Rightarrow> verb \<Rightarrow> string \<Rightarrow> face \<Rightarrow> bool" where
  "grants_verb_on_face role v t f =
     (case v of
        VerbRead \<Rightarrow> (case role_read_faces role t of None \<Rightarrow> True | Some fs \<Rightarrow> f \<in> set fs)
      | VerbOp p \<Rightarrow> op_valid p \<and> grants_verb_on_state role p t f)"

definition role_grants_verb_on_face :: "acl_request \<Rightarrow> string \<Rightarrow> verb \<Rightarrow> string \<Rightarrow> face \<Rightarrow> bool" where
  "role_grants_verb_on_face r name v t f \<longleftrightarrow>
     ceiling_permits_verb r v t \<and>
     (case role_for r name of None \<Rightarrow> False | Some role \<Rightarrow> grants_verb_on_face role v t f)"

definition granting_attributions :: "prime \<Rightarrow> acl_request \<Rightarrow> verb \<Rightarrow> string \<Rightarrow> string \<Rightarrow> attribution list" where
  "granting_attributions primed r v t i =
     (if (case verb_op v of Some p \<Rightarrow> \<not> permits_verb (aq_ceiling r) p t | None \<Rightarrow> \<not> permits_read (aq_ceiling r) t) then []
      else filter (\<lambda>a. at_role a \<noteq> everyone_role \<and>
          (case role_for r (at_role a) of
             None \<Rightarrow> False
           | Some role \<Rightarrow> (case verb_op v of Some p \<Rightarrow> grants_verb role p t | None \<Rightarrow> role_grants_read role t)))
        (for_entity primed r i))"

definition access_routes :: "prime \<Rightarrow> acl_request \<Rightarrow> verb \<Rightarrow> string \<Rightarrow> string \<Rightarrow> acl_error + attribution list" where
  "access_routes primed r v t i =
     (case v of
        VerbRead \<Rightarrow> (case permits_read_entity r t i of
            Inl e \<Rightarrow> Inl e
          | Inr ok \<Rightarrow> Inr (if ok then granting_attributions primed r v t i else []))
      | VerbOp p \<Rightarrow> if op_valid p then Inr (granting_attributions primed r v t i) else Inl (UnknownVerb ''verb''))"

end
