(* ===== verification/Acl_Walk.thy ===== *)
theory Acl_Walk
  imports Acl_Request Graph_Mem
begin

text \<open>
  The graph the policy is evaluated on. The interface \<open>Graph\<close> is the locale \<open>acl_source\<close>: a state, its
  edges by type, and what the two reads answer of them. Over it the membership walk and the ancestor
  walk are reachability in at most five steps. The batch reads extend it (\<open>acl_batch\<close>), and priming a
  page with them changes no answer. The adapter of \<^verbatim>\<open>internal/aclstore/graph.go\<close> on the in-memory store
  satisfies both.
\<close>

section \<open>The interface\<close>

text \<open>\<open>plain\<close> are the ids and \<open>scoped\<close> the relation types for which a key lookup is exact.\<close>

locale acl_source =
  fixes graph :: "'s \<Rightarrow> acl_graph" and inv :: "'s \<Rightarrow> bool" and edge :: "'s \<Rightarrow> string \<Rightarrow> (string \<times> string) set"
    and plain :: "string \<Rightarrow> bool" and scoped :: "'s \<Rightarrow> string \<Rightarrow> bool"
  assumes outgoing: "inv s \<Longrightarrow> n \<noteq> [] \<Longrightarrow> rel \<noteq> [] \<Longrightarrow> \<exists>ts. ag_outgoing (graph s) n rel = Inr ts \<and> set ts = edge s rel `` {n}"
    and has_edge: "inv s \<Longrightarrow> scoped s rel \<Longrightarrow> plain n \<Longrightarrow> plain t \<Longrightarrow> ag_has_edge (graph s) n rel t \<longleftrightarrow> (n, t) \<in> edge s rel"
    and edge_plain: "inv s \<Longrightarrow> (n, t) \<in> edge s rel \<Longrightarrow> plain t"
    and plain_nonempty: "plain n \<Longrightarrow> n \<noteq> []"

section \<open>Walks\<close>

lemma visit_ok:
  assumes "distinct order"
  shows "\<exists>order' next'. visit tos (order, next) = (order', next') \<and> distinct order' \<and>
    set order' = set order \<union> (set tos - set order) \<and> set next' = set next \<union> (set tos - set order)"
  using assms
proof (induction tos arbitrary: order "next")
  case (Cons t tos)
  show ?case
  proof (cases "t \<in> set order")
    case True
    then show ?thesis using Cons.IH [OF Cons.prems, of "next"] by (auto simp: visit_def)
  next
    case False
    have "distinct (order @ [t])" using False Cons.prems by simp
    from Cons.IH [OF this, of "next @ [t]"] False show ?thesis by (fastforce simp: visit_def)
  qed
qed (simp add: visit_def)

context acl_source
begin

definition links_of :: "'s \<Rightarrow> string list \<Rightarrow> (string \<times> string) set" where
  "links_of s types = (\<Union>rel\<in>set types. edge s rel)"

lemma links_plain: "inv s \<Longrightarrow> (n, t) \<in> links_of s types \<Longrightarrow> plain t"
  by (auto simp: links_of_def intro: edge_plain)

lemma walk_types_ok:
  assumes "inv s" "n \<noteq> []" "\<forall>rel\<in>set types. rel \<noteq> []" "distinct order"
  shows "\<exists>order' next'. walk_types (graph s) n types (order, next) = Inr (order', next') \<and> distinct order' \<and>
    set order' = set order \<union> (links_of s types `` {n} - set order) \<and>
    set next' = set next \<union> (links_of s types `` {n} - set order)"
  using assms(3,4)
proof (induction types arbitrary: order "next")
  case (Cons rel types)
  obtain ts where ts: "ag_outgoing (graph s) n rel = Inr ts" "set ts = edge s rel `` {n}"
    using outgoing assms(1,2) Cons.prems(1) by (metis list.set_intros(1))
  obtain order1 next1 where 1: "visit ts (order, next) = (order1, next1)" "distinct order1"
    "set order1 = set order \<union> (set ts - set order)" "set next1 = set next \<union> (set ts - set order)"
    using visit_ok [OF Cons.prems(2)] by blast
  obtain order2 next2 where 2: "walk_types (graph s) n types (order1, next1) = Inr (order2, next2)" "distinct order2"
    "set order2 = set order1 \<union> (links_of s types `` {n} - set order1)"
    "set next2 = set next1 \<union> (links_of s types `` {n} - set order1)"
    using Cons.IH [OF _ 1(2)] Cons.prems(1) by (metis list.set_intros(2))
  have "walk_types (graph s) n (rel # types) (order, next) = Inr (order2, next2)" by (simp add: ts(1) 1(1) 2(1))
  moreover have "links_of s (rel # types) `` {n} = edge s rel `` {n} \<union> links_of s types `` {n}"
    by (auto simp: links_of_def)
  ultimately show ?case using 1(3,4) 2(2,3,4) ts(2) by auto
qed (simp add: links_of_def)

lemma walk_level_ok:
  assumes "inv s" "\<forall>rel\<in>set types. rel \<noteq> []" "\<forall>n\<in>set ns. n \<noteq> []" "distinct order"
  shows "\<exists>order' next'. walk_level (graph s) types ns (order, next) = Inr (order', next') \<and> distinct order' \<and>
    set order' = set order \<union> (links_of s types `` set ns - set order) \<and>
    set next' = set next \<union> (links_of s types `` set ns - set order)"
  using assms(3,4)
proof (induction ns arbitrary: order "next")
  case (Cons n ns)
  obtain order1 next1 where 1: "walk_types (graph s) n types (order, next) = Inr (order1, next1)" "distinct order1"
    "set order1 = set order \<union> (links_of s types `` {n} - set order)" "set next1 = set next \<union> (links_of s types `` {n} - set order)"
    using walk_types_ok [OF assms(1) _ assms(2) Cons.prems(2)] Cons.prems(1) by (metis list.set_intros(1))
  obtain order2 next2 where 2: "walk_level (graph s) types ns (order1, next1) = Inr (order2, next2)" "distinct order2"
    "set order2 = set order1 \<union> (links_of s types `` set ns - set order1)"
    "set next2 = set next1 \<union> (links_of s types `` set ns - set order1)"
    using Cons.IH [OF _ 1(2)] Cons.prems(1) by (metis list.set_intros(2))
  have "walk_level (graph s) types (n # ns) (order, next) = Inr (order2, next2)" by (simp add: 1(1) 2(1))
  moreover have "links_of s types `` set (n # ns) = links_of s types `` {n} \<union> links_of s types `` set ns" by auto
  ultimately show ?case using 1(3,4) 2(2,3,4) by auto
qed simp

lemma walk_loop_ok:
  assumes i: "inv s" and r: "\<forall>rel\<in>set types. rel \<noteq> []"
  shows "distinct order \<Longrightarrow> set frontier \<subseteq> set order \<Longrightarrow> \<forall>n\<in>set frontier. plain n \<Longrightarrow>
    \<forall>x\<in>set order - set frontier. links_of s types `` {x} \<subseteq> set order \<Longrightarrow>
    \<exists>out. walk_loop (graph s) types d order frontier = Inr out \<and> distinct out \<and>
      set out = set order \<union> reach_within (links_of s types) d (set frontier)"
proof (induction d arbitrary: order frontier)
  case 0
  then show ?case by (auto simp: reach_within_0)
next
  case (Suc d)
  show ?case
  proof (cases "frontier = []")
    case True
    then show ?thesis using Suc.prems by (simp add: reach_within_def)
  next
    case False
    have n: "\<forall>n\<in>set frontier. n \<noteq> []" using Suc.prems(3) plain_nonempty by blast
    obtain order' next' where 1: "walk_level (graph s) types frontier (order, []) = Inr (order', next')" "distinct order'"
      "set order' = set order \<union> (links_of s types `` set frontier - set order)" "set next' = links_of s types `` set frontier - set order"
      using walk_level_ok [OF i r n Suc.prems(1), of "[]"] by auto
    note step = reach_step [OF Suc.prems(2,4) 1(3,4)]
    have "\<forall>n\<in>set next'. plain n" using 1(4) links_plain [OF i] by auto
    from Suc.IH [OF 1(2) step(1) this step(2)] 1(1) False step(3) show ?thesis by auto
  qed
qed

text \<open>The two walks of an evaluation.\<close>

lemma members_reach:
  assumes "inv s" "plain user"
  shows "\<exists>ms. walk_members p (graph s) user = Inr ms \<and> distinct ms \<and> (\<forall>m\<in>set ms. plain m) \<and>
    set ms = reach_within (edge s (membership_relation p)) acl_depth_cap {user}"
proof -
  have r: "\<forall>rel\<in>set [membership_relation p]. rel \<noteq> []"
    by (simp add: membership_relation_def default_membership_def Let_def)
  obtain ms where ms: "walk_loop (graph s) [membership_relation p] acl_depth_cap [user] [user] = Inr ms" "distinct ms"
    "set ms = {user} \<union> reach_within (links_of s [membership_relation p]) acl_depth_cap {user}"
    using walk_loop_ok [OF assms(1) r, of "[user]" "[user]" acl_depth_cap] assms(2) by auto
  have "plain m" if "(user, m) \<in> edge s rel ^^ n" for m n rel
    using that assms by (induction n arbitrary: m) (auto dest: edge_plain)
  then have "\<forall>m\<in>reach_within (edge s (membership_relation p)) acl_depth_cap {user}. plain m" by (auto simp: reach_within_def)
  moreover have "set ms = reach_within (edge s (membership_relation p)) acl_depth_cap {user}"
    using ms(3) reach_within_self [of "{user}" "edge s (membership_relation p)" acl_depth_cap] by (auto simp: links_of_def)
  ultimately show ?thesis using ms(1,2) plain_nonempty [OF assms(2)] by (auto simp: walk_members_def)
qed

lemma ancestors_reach:
  assumes "inv s" "plain i" "\<forall>rel\<in>set (po_inherit p). rel \<noteq> []"
  shows "distinct (ancestors p (graph s) i) \<and> (\<forall>m\<in>set (ancestors p (graph s) i). plain m) \<and>
    set (ancestors p (graph s) i) = reach_within (links_of s (po_inherit p)) acl_depth_cap {i}"
proof (cases "po_inherit p = []")
  case True
  then have "links_of s (po_inherit p) = {}" by (simp add: links_of_def)
  then have "reach_within (links_of s (po_inherit p)) acl_depth_cap {i} = {i}"
    by (auto simp: reach_within_def elim: relpow_E2)
  then show ?thesis using True assms(2) by (simp add: ancestors_def)
next
  case False
  obtain ms where ms: "walk_loop (graph s) (po_inherit p) acl_depth_cap [i] [i] = Inr ms" "distinct ms"
    "set ms = {i} \<union> reach_within (links_of s (po_inherit p)) acl_depth_cap {i}"
    using walk_loop_ok [OF assms(1,3), of "[i]" "[i]" acl_depth_cap] assms(2) by auto
  have a: "ancestors p (graph s) i = ms" using False plain_nonempty [OF assms(2)] ms(1) by (simp add: ancestors_def)
  have "plain m" if "(i, m) \<in> links_of s (po_inherit p) ^^ n" for m n
    using that assms by (induction n arbitrary: m) (auto dest: links_plain)
  then have "\<forall>m\<in>reach_within (links_of s (po_inherit p)) acl_depth_cap {i}. plain m" by (auto simp: reach_within_def)
  then show ?thesis unfolding a using ms(2,3) reach_within_self [of "{i}" "links_of s (po_inherit p)" acl_depth_cap] assms(2) by auto
qed

end

section \<open>The roles held\<close>

text \<open>The roles of a principal on an entity: members are its groups and itself, chain the entity and its ancestors.\<close>

definition held_roles :: "policy \<Rightarrow> principal \<Rightarrow> string set \<Rightarrow> string set \<Rightarrow> (string \<Rightarrow> (string \<times> string) set) \<Rightarrow> string set" where
  "held_roles p who members chain edge = {name. dict_get (po_roles p) name \<noteq> None \<and>
     (name = everyone_role \<or>
      (\<exists>m\<in>members. dict_get (po_assignments p) m = Some name) \<or>
      (\<exists>c\<in>set (pr_roles who). \<exists>rs. dict_get (po_asserted p) (trim_space c) = Some rs \<and> name \<in> set rs) \<or>
      (\<exists>rel d. dict_get (po_role_relations p) rel = Some d \<and> rr_confers d = name \<and> name \<noteq> [] \<and>
         edge rel \<inter> members \<times> chain \<noteq> {}))}"

lemma set_add_attr [simp]: "set (fold add_attr xs ys) = set ys \<union> set xs"
  by (induction xs arbitrary: ys) (auto simp: add_attr_def)

lemma set_merge [simp]: "set (merge_attributions xs ys) = set xs \<union> set ys"
  by (simp add: merge_attributions_def)

lemma assigned_names:
  "at_role ` set (assigned_attrs p who members) =
     {name. dict_get (po_roles p) name \<noteq> None \<and> (\<exists>m\<in>set members. dict_get (po_assignments p) m = Some name)}"
proof -
  have "at_role ` set (case dict_get (po_assignments p) m of None \<Rightarrow> [] | Some role \<Rightarrow>
      if dict_get (po_roles p) role = None then [] else [attr role (if m = pr_user who then SourceGlobal else SourceGroup m)]) =
    {name. dict_get (po_roles p) name \<noteq> None \<and> dict_get (po_assignments p) m = Some name}" for m
    by (cases "dict_get (po_assignments p) m") (auto simp: attr_def)
  then show ?thesis unfolding assigned_attrs_def set_concat set_map image_UN image_image by blast
qed

lemma asserted_names:
  "at_role ` set (asserted_attrs p who) = {name. dict_get (po_roles p) name \<noteq> None \<and>
     (\<exists>c\<in>set (pr_roles who). \<exists>rs. dict_get (po_asserted p) (trim_space c) = Some rs \<and> name \<in> set rs)}"
  by (auto simp: asserted_attrs_def Let_def attr_def image_image image_UN split: option.splits) (metis option.sel)

lemma everyone_names: "at_role ` set (everyone_attrs p) = {name. dict_get (po_roles p) name \<noteq> None \<and> name = everyone_role}"
  by (auto simp: everyone_attrs_def attr_def)

lemma global_names: "at_role ` set (global_roles p who members) = held_roles p who (set members) {} edge"
  unfolding global_roles_def set_add_attr set_append image_Un assigned_names asserted_names everyone_names
  by (auto simp: held_roles_def)

lemma conferring_set:
  "dict_ok (po_role_relations p) \<Longrightarrow> set (conferring_relations p) =
     {rel. confers p rel \<noteq> [] \<and> dict_get (po_roles p) (confers p rel) \<noteq> None}"
  unfolding conferring_relations_def confers_def
  by (force simp: dict_in_get dict_get_in split: option.splits)

lemma local_names:
  assumes "dict_ok (po_role_relations (aq_policy r))"
  shows "at_role ` set (local_roles r i chain members edge) =
    {name. dict_get (po_roles (aq_policy r)) name \<noteq> None \<and> name \<noteq> [] \<and>
       (\<exists>rel m t. confers (aq_policy r) rel = name \<and> m \<in> set members \<and> t \<in> set chain \<and> edge m rel t)}"
  unfolding local_roles_def set_add_attr
  by (force simp: conferring_set [OF assms] attr_def)

lemma confers_iff: "confers p rel = name \<and> name \<noteq> [] \<longleftrightarrow> (\<exists>d. dict_get (po_role_relations p) rel = Some d \<and> rr_confers d = name \<and> name \<noteq> [])"
  by (auto simp: confers_def split: option.splits)

lemma held_split:
  "held_roles p who members chain edge = held_roles p who members {} edge \<union>
     {name. dict_get (po_roles p) name \<noteq> None \<and> (\<exists>rel d. dict_get (po_role_relations p) rel = Some d \<and> rr_confers d = name \<and>
        name \<noteq> [] \<and> edge rel \<inter> members \<times> chain \<noteq> {})}"
  by (simp only: held_roles_def Sigma_empty2 Int_empty_right) blast

lemma compute_names:
  assumes "dict_ok (po_role_relations (aq_policy r))" and "primed i = None"
    and "aq_globals r = global_roles (aq_policy r) who (aq_members r)"
    and "\<And>rel m t. confers (aq_policy r) rel \<noteq> [] \<Longrightarrow> m \<in> set (aq_members r) \<Longrightarrow> t \<in> set (ancestors (aq_policy r) (aq_graph r) i) \<Longrightarrow>
      ag_has_edge (aq_graph r) m rel t \<longleftrightarrow> (m, t) \<in> edge rel"
  shows "at_role ` set (compute_for_entity primed r i) =
    held_roles (aq_policy r) who (set (aq_members r)) (set (ancestors (aq_policy r) (aq_graph r) i)) edge"
proof -
  let ?p = "aq_policy r" and ?c = "ancestors (aq_policy r) (aq_graph r) i"
  have l: "name \<noteq> [] \<and> (\<exists>rel m t. confers ?p rel = name \<and> m \<in> set (aq_members r) \<and> t \<in> set ?c \<and> ag_has_edge (aq_graph r) m rel t) \<longleftrightarrow>
      (\<exists>rel d. dict_get (po_role_relations ?p) rel = Some d \<and> rr_confers d = name \<and> name \<noteq> [] \<and>
         edge rel \<inter> set (aq_members r) \<times> set ?c \<noteq> {})" (is "?L \<longleftrightarrow> ?R") for name
  proof -
    have "?L \<longleftrightarrow> (\<exists>rel m t. confers ?p rel = name \<and> name \<noteq> [] \<and> m \<in> set (aq_members r) \<and> t \<in> set ?c \<and> (m, t) \<in> edge rel)"
      using assms(4) by blast
    also have "\<dots> \<longleftrightarrow> ?R" using confers_iff [of ?p _ name] by fast
    finally show ?thesis .
  qed
  have "{name. dict_get (po_roles ?p) name \<noteq> None \<and> name \<noteq> [] \<and>
      (\<exists>rel m t. confers ?p rel = name \<and> m \<in> set (aq_members r) \<and> t \<in> set ?c \<and> ag_has_edge (aq_graph r) m rel t)} =
    {name. dict_get (po_roles ?p) name \<noteq> None \<and> (\<exists>rel d. dict_get (po_role_relations ?p) rel = Some d \<and> rr_confers d = name \<and>
      name \<noteq> [] \<and> edge rel \<inter> set (aq_members r) \<times> set ?c \<noteq> {})}" (is "_ = ?local")
    unfolding l ..
  note l' = this
  have "at_role ` set (compute_for_entity primed r i) = at_role ` set (aq_globals r) \<union>
      at_role ` set (local_roles r i ?c (aq_members r) (ag_has_edge (aq_graph r)))"
    by (simp add: compute_for_entity_def assms(2) image_Un)
  also have "\<dots> = held_roles ?p who (set (aq_members r)) {} edge \<union> ?local"
    unfolding assms(3) global_names [where edge = edge] local_names [OF assms(1)] l' ..
  also have "\<dots> = held_roles ?p who (set (aq_members r)) (set ?c) edge"
    by (rule held_split [symmetric])
  finally show ?thesis .
qed

end
