(* ===== verification/Acl_Prime.thy ===== *)
theory Acl_Prime
  imports Acl_Walk
begin

text \<open>
  Local roles of a page. A graph that offers batch reads answers them as its single reads do (locale
  \<open>acl_batch\<close>); the batch then walks the ancestors of every entity in the order the single walk visits them,
  and computes the same attributions in the same order.
\<close>

locale acl_batch = acl_source graph inv edge plain scoped
  for graph :: "'s \<Rightarrow> acl_graph" and inv edge plain scoped +
  fixes batcher :: "'s \<Rightarrow> edge_batcher"
  assumes between: "inv s \<Longrightarrow> scoped s rel \<Longrightarrow> \<exists>es. eb_between (batcher s) rel ms ts = Inr es \<and>
      (\<forall>m t. (m, t) \<in> set es \<longleftrightarrow> m \<in> set ms \<and> t \<in> set ts \<and> (m, t) \<in> edge s rel)"
    and between_any: "inv s \<Longrightarrow> \<exists>es. eb_between (batcher s) rel ms ts = Inr es"
    and outgoing_from: "inv s \<Longrightarrow> rel \<noteq> [] \<Longrightarrow> \<exists>d. eb_outgoing (batcher s) rel ns = Inr d \<and> dict_ok d \<and> dict_keys d \<subseteq> set ns \<and>
      (\<forall>n\<in>set ns. n \<noteq> [] \<longrightarrow> ag_outgoing (graph s) n rel = Inr (case dict_get d n of None \<Rightarrow> [] | Some ts \<Rightarrow> ts))"

section \<open>What the batch has loaded\<close>

definition targets_in :: "string list dict \<Rightarrow> string \<Rightarrow> string list" where
  "targets_in m rel = (case dict_get m rel of None \<Rightarrow> [] | Some ts \<Rightarrow> ts)"

text \<open>A node is known for some types when it holds their targets, as the single read lists them, and nothing else.\<close>

definition known :: "acl_graph \<Rightarrow> string set \<Rightarrow> string list dict dict \<Rightarrow> string \<Rightarrow> bool" where
  "known g types out n \<longleftrightarrow> (\<exists>m. dict_get out n = Some m \<and>
     (\<forall>rel. if rel \<in> types then ag_outgoing g n rel = Inr (targets_in m rel) else dict_get m rel = None))"

lemma put_targets_get:
  "dict_get (put_targets rel x out) n =
     (case dict_get out n of None \<Rightarrow> None | Some m \<Rightarrow> Some (if n = fst x then dict_set rel (snd x) m else m))"
  by (auto simp: put_targets_def dict_simps split: option.split)

lemma put_all_get:
  "dict_ok tos \<Longrightarrow> dict_get (fold (put_targets rel) tos out) n =
     (case dict_get out n of None \<Rightarrow> None
      | Some m \<Rightarrow> Some (case dict_get tos n of None \<Rightarrow> m | Some ts \<Rightarrow> dict_set rel ts m))"
proof (induction tos arbitrary: out n)
  case (Cons x tos)
  have ok: "dict_ok tos" "dict_get tos (fst x) = None" using Cons.prems by (auto simp: dict_ok_def map_of_eq_None_iff)
  show ?case
    using ok(2) by (cases "dict_get out n"; cases "n = fst x") (auto simp: Cons.IH [OF ok(1)] put_targets_get split: option.split)
qed (simp split: option.split)

lemma new_nodes_get: "dict_get (fold (\<lambda>n o'. dict_set n [] o') ns out) n = (if n \<in> set ns then Some [] else dict_get out n)"
  by (induction ns arbitrary: out) (auto simp: dict_simps)

lemma known_put:
  assumes k: "known g done_types out n" and d: "dict_ok d"
    and t: "ag_outgoing g n rel = Inr (case dict_get d n of None \<Rightarrow> [] | Some ts \<Rightarrow> ts)"
  shows "known g (insert rel done_types) (fold (put_targets rel) d out) n"
proof -
  obtain m where m: "dict_get out n = Some m"
    "\<forall>rel. if rel \<in> done_types then ag_outgoing g n rel = Inr (targets_in m rel) else dict_get m rel = None"
    using k by (auto simp: known_def)
  have r: "targets_in m rel = [] \<or> ag_outgoing g n rel = Inr (targets_in m rel)"
    using m(2) by (auto simp: targets_in_def split: if_splits)
  let ?m = "case dict_get d n of None \<Rightarrow> m | Some ts \<Rightarrow> dict_set rel ts m"
  have "dict_get (fold (put_targets rel) d out) n = Some ?m" by (simp add: put_all_get [OF d] m(1))
  moreover have "if q \<in> insert rel done_types then ag_outgoing g n q = Inr (targets_in ?m q) else dict_get ?m q = None" for q
    using m(2) [rule_format, of q] r t by (cases "dict_get d n"; cases "q = rel") (auto simp: targets_in_def dict_simps split: if_splits)
  ultimately show ?thesis unfolding known_def by blast
qed

context acl_batch
begin

lemma load_types_ok:
  assumes i: "inv s" and n: "\<forall>n\<in>set ns. n \<noteq> []"
  shows "\<forall>rel\<in>set types. rel \<noteq> [] \<Longrightarrow> \<forall>n\<in>set ns. known (graph s) done_types out n \<Longrightarrow>
    \<exists>out'. load_types (batcher s) ns types out = Inr out' \<and>
      (\<forall>n\<in>set ns. known (graph s) (done_types \<union> set types) out' n) \<and>
      (\<forall>n. n \<notin> set ns \<longrightarrow> dict_get out' n = dict_get out n)"
proof (induction types arbitrary: done_types out)
  case (Cons rel types)
  obtain d where d: "eb_outgoing (batcher s) rel ns = Inr d" "dict_ok d" "dict_keys d \<subseteq> set ns"
    "\<forall>n\<in>set ns. n \<noteq> [] \<longrightarrow> ag_outgoing (graph s) n rel = Inr (case dict_get d n of None \<Rightarrow> [] | Some ts \<Rightarrow> ts)"
    using outgoing_from [OF i, of rel ns] Cons.prems(1) by auto
  let ?out = "fold (put_targets rel) d out"
  have "\<forall>n\<in>set ns. known (graph s) (insert rel done_types) ?out n"
    using known_put [OF _ d(2)] d(4) n Cons.prems(2) by blast
  from Cons.IH [OF _ this] Cons.prems(1) obtain out' where o: "load_types (batcher s) ns types ?out = Inr out'"
    "\<forall>n\<in>set ns. known (graph s) (insert rel done_types \<union> set types) out' n"
    "\<forall>n. n \<notin> set ns \<longrightarrow> dict_get out' n = dict_get ?out n" by auto
  have "dict_get ?out n = dict_get out n" if "n \<notin> set ns" for n
  proof -
    have "dict_get d n = None" using d(3) that by (auto simp: dict_get_None)
    then show ?thesis by (simp add: put_all_get [OF d(2)] split: option.split)
  qed
  with o show ?case by (simp add: d(1) insert_commute)
qed simp

text \<open>Loading a level: afterwards every frontier node is known, and what was known stays.\<close>

definition all_known :: "'s \<Rightarrow> string list \<Rightarrow> string list dict dict \<Rightarrow> bool" where
  "all_known s types out \<longleftrightarrow> (\<forall>n. dict_get out n \<noteq> None \<longrightarrow> known (graph s) (set types) out n)"

lemma load_outgoing_ok:
  assumes i: "inv s" and r: "\<forall>rel\<in>set types. rel \<noteq> []" and k: "all_known s types out"
    and f: "\<forall>w\<in>snd ` set walks. \<forall>n\<in>set (aw_frontier w). n \<noteq> []"
  shows "\<exists>out'. load_outgoing (batcher s) types walks out = Inr out' \<and> all_known s types out' \<and>
    (\<forall>w\<in>snd ` set walks. \<forall>n\<in>set (aw_frontier w). dict_get out' n \<noteq> None)"
proof -
  define ns where "ns = sort (remdups (filter (\<lambda>n. dict_get out n = None) (concat (map (aw_frontier \<circ> snd) walks))))"
  have mem: "n \<in> set ns \<longleftrightarrow> dict_get out n = None \<and> (\<exists>w\<in>snd ` set walks. n \<in> set (aw_frontier w))" for n
    by (auto simp: ns_def)
  have l: "load_outgoing (batcher s) types walks out =
      (if ns = [] then Inr out else load_types (batcher s) ns types (fold (\<lambda>n o'. dict_set n [] o') ns out))"
    by (simp add: load_outgoing_def ns_def Let_def)
  show ?thesis
  proof (cases "ns = []")
    case True
    then have "\<forall>w\<in>snd ` set walks. \<forall>n\<in>set (aw_frontier w). dict_get out n \<noteq> None" using mem by auto
    then show ?thesis using True k unfolding l by simp
  next
    case False
    let ?out = "fold (\<lambda>n o'. dict_set n [] o') ns out"
    have n: "\<forall>n\<in>set ns. n \<noteq> []" using f mem by blast
    have "\<forall>n\<in>set ns. known (graph s) {} ?out n" unfolding known_def new_nodes_get by auto
    from load_types_ok [OF i n r this] obtain out' where o: "load_types (batcher s) ns types ?out = Inr out'"
      "\<forall>n\<in>set ns. known (graph s) (set types) out' n" "\<forall>n. n \<notin> set ns \<longrightarrow> dict_get out' n = dict_get ?out n" by auto
    have eq: "dict_get out' n = dict_get out n" if "n \<notin> set ns" for n
      using o(3) that by (simp add: new_nodes_get)
    have "all_known s types out'" unfolding all_known_def
    proof (intro allI impI)
      fix n assume a: "dict_get out' n \<noteq> None"
      show "known (graph s) (set types) out' n"
      proof (cases "n \<in> set ns")
        case False
        then show ?thesis using a k eq [OF False] by (simp add: all_known_def known_def)
      qed (use o(2) in blast)
    qed
    moreover have "dict_get out' n \<noteq> None" if "w \<in> snd ` set walks" "n \<in> set (aw_frontier w)" for w n
    proof (cases "n \<in> set ns")
      case True
      then show ?thesis using o(2) by (auto simp: known_def)
    next
      case False
      then show ?thesis using that mem unfolding eq [OF False] by auto
    qed
    moreover have "load_outgoing (batcher s) types walks out = Inr out'" unfolding l using False o(1) by simp
    ultimately show ?thesis by blast
  qed
qed

text \<open>One step of a batch walk is one level of the single walk.\<close>

lemma walk_types_known:
  assumes "all_known s types out" "dict_get out n \<noteq> None" "set rest \<subseteq> set types"
  shows "walk_types (graph s) n rest st = Inr (fold (\<lambda>rel st. visit (loaded_targets out n rel) st) rest st)"
  using assms(3)
proof (induction rest arbitrary: st)
  case (Cons rel rest)
  obtain m where m: "dict_get out n = Some m" using assms(2) by auto
  then have "ag_outgoing (graph s) n rel = Inr (loaded_targets out n rel)"
    using assms(1) Cons.prems unfolding all_known_def known_def by (fastforce simp: loaded_targets_def targets_in_def split: if_splits)
  then show ?case using Cons by simp
qed simp

lemma walk_level_known:
  assumes "all_known s types out"
  shows "\<forall>n\<in>set ns. dict_get out n \<noteq> None \<Longrightarrow>
    walk_level (graph s) types ns st = Inr (fold (\<lambda>n st. fold (\<lambda>rel st. visit (loaded_targets out n rel) st) types st) ns st)"
proof (induction ns arbitrary: st)
  case (Cons n ns)
  then show ?case using walk_types_known [OF assms, of n types] by auto
qed simp

definition walks_plain :: "ancestor_walk dict \<Rightarrow> bool" where
  "walks_plain walks \<longleftrightarrow> (\<forall>w\<in>snd ` set walks. distinct (aw_chain w) \<and> (\<forall>n\<in>set (aw_frontier w). plain n))"

lemma step_level:
  assumes i: "inv s" and r: "\<forall>rel\<in>set types. rel \<noteq> []" and k: "all_known s types out"
    and n: "\<forall>n\<in>set (aw_frontier w). dict_get out n \<noteq> None \<and> plain n" and d: "distinct (aw_chain w)"
  shows "walk_level (graph s) types (aw_frontier w) (aw_chain w, []) =
      Inr (aw_chain (walk_step types out w), aw_frontier (walk_step types out w))"
    and "distinct (aw_chain (walk_step types out w))" and "\<forall>n\<in>set (aw_frontier (walk_step types out w)). plain n"
proof -
  have f: "\<forall>n\<in>set (aw_frontier w). n \<noteq> []" using n plain_nonempty by blast
  obtain order' next' where o: "walk_level (graph s) types (aw_frontier w) (aw_chain w, []) = Inr (order', next')"
    "distinct order'" "set next' = links_of s types `` set (aw_frontier w) - set (aw_chain w)"
    using walk_level_ok [OF i r f d, of "[]"] by auto
  have "fold (\<lambda>n st. fold (\<lambda>rel st. visit (loaded_targets out n rel) st) types st) (aw_frontier w) (aw_chain w, []) = (order', next')"
    using walk_level_known [OF k, of "aw_frontier w" "(aw_chain w, [])"] n o(1) by simp
  then have "walk_step types out w = \<lparr>aw_chain = order', aw_frontier = next'\<rparr>" by (simp add: walk_step_def)
  then show "walk_level (graph s) types (aw_frontier w) (aw_chain w, []) =
      Inr (aw_chain (walk_step types out w), aw_frontier (walk_step types out w))"
    and "distinct (aw_chain (walk_step types out w))" and "\<forall>n\<in>set (aw_frontier (walk_step types out w)). plain n"
    using o links_plain [OF i] by auto
qed

lemma walk_loop_done: "walk_loop g types d order [] = Inr order"
  by (cases d) simp_all

lemma batch_levels_ok:
  assumes i: "inv s" and r: "\<forall>rel\<in>set types. rel \<noteq> []"
  shows "walks_plain walks \<Longrightarrow> all_known s types out \<Longrightarrow>
    \<exists>walks'. batch_levels (batcher s) types d walks out = Inr walks' \<and>
      list_all2 (\<lambda>(i, w) (j, w'). i = j \<and> walk_loop (graph s) types d (aw_chain w) (aw_frontier w) = Inr (aw_chain w')) walks walks'"
proof (induction d arbitrary: walks out)
  case 0
  then show ?case by (auto simp: list_all2_same)
next
  case (Suc d)
  have f: "\<forall>w\<in>snd ` set walks. \<forall>n\<in>set (aw_frontier w). n \<noteq> []"
    using Suc.prems(1) plain_nonempty unfolding walks_plain_def by blast
  obtain out' where o: "load_outgoing (batcher s) types walks out = Inr out'" "all_known s types out'"
    "\<forall>w\<in>snd ` set walks. \<forall>n\<in>set (aw_frontier w). dict_get out' n \<noteq> None"
    using load_outgoing_ok [OF i r Suc.prems(2) f] by blast
  let ?step = "\<lambda>(i, w). (i, walk_step types out' w)"
  note step = step_level [OF i r o(2)]
  have "distinct (aw_chain (walk_step types out' w)) \<and> (\<forall>n\<in>set (aw_frontier (walk_step types out' w)). plain n)"
    if "(j, w) \<in> set walks" for j w
  proof -
    have "w \<in> snd ` set walks" using that by force
    then show ?thesis using step(2,3) [of w] Suc.prems(1) o(3) unfolding walks_plain_def by blast
  qed
  then have pl: "walks_plain (map ?step walks)" unfolding walks_plain_def by auto
  have one: "walk_loop (graph s) types (Suc d) (aw_chain w) (aw_frontier w) =
      walk_loop (graph s) types d (aw_chain (walk_step types out' w)) (aw_frontier (walk_step types out' w))"
    if "w \<in> snd ` set walks" for w
  proof (cases "aw_frontier w = []")
    case True
    then show ?thesis by (simp add: walk_step_def walk_loop_done)
  next
    case False
    have "walk_level (graph s) types (aw_frontier w) (aw_chain w, []) =
      Inr (aw_chain (walk_step types out' w), aw_frontier (walk_step types out' w))"
      using step(1) [of w] that Suc.prems(1) o(3) unfolding walks_plain_def by blast
    then show ?thesis using False by simp
  qed
  show ?case
  proof (cases "list_ex (\<lambda>(i, w). aw_frontier w \<noteq> []) (map ?step walks)")
    case True
    obtain walks' where w: "batch_levels (batcher s) types d (map ?step walks) out' = Inr walks'"
      "list_all2 (\<lambda>(i, w) (j, w'). i = j \<and> walk_loop (graph s) types d (aw_chain w) (aw_frontier w) = Inr (aw_chain w'))
        (map ?step walks) walks'"
      using Suc.IH [OF pl o(2)] by blast
    have "list_all2 (\<lambda>(i, w) (j, w'). i = j \<and> walk_loop (graph s) types (Suc d) (aw_chain w) (aw_frontier w) = Inr (aw_chain w')) walks walks'"
      using w(2) unfolding list_all2_map1
      by (rule list.rel_mono_strong) (use one in \<open>force simp del: walk_loop.simps\<close>)
    with w(1) True show ?thesis by (auto simp: o(1) Let_def)
  next
    case False
    have last: "aw_frontier (walk_step types out' w) = []" if "(j, w) \<in> set walks" for j w
      using False that by (auto simp: list_ex_iff)
    have "list_all2 (\<lambda>(i, w) (j, w'). i = j \<and> walk_loop (graph s) types (Suc d) (aw_chain w) (aw_frontier w) = Inr (aw_chain w'))
        walks (map ?step walks)"
      unfolding list_all2_map2
      by (rule list.rel_refl_strong) (use one last in \<open>force simp: walk_loop_done simp del: walk_loop.simps\<close>)
    with False show ?thesis by (auto simp: o(1) Let_def)
  qed
qed

lemma batch_ancestors_ok:
  assumes i: "inv s" and r: "\<forall>rel\<in>set (po_inherit p). rel \<noteq> []" and n: "\<forall>x\<in>set xs. plain x"
  shows "batch_ancestors p (batcher s) xs = Inr (map (\<lambda>x. (x, ancestors p (graph s) x)) xs)"
proof (cases "po_inherit p = []")
  case True
  then show ?thesis by (simp add: batch_ancestors_def ancestors_def)
next
  case False
  let ?walks = "map (\<lambda>x. (x, \<lparr>aw_chain = [x], aw_frontier = [x]\<rparr>)) xs"
  have "walks_plain ?walks" using n by (auto simp: walks_plain_def)
  moreover have "all_known s (po_inherit p) []" by (simp add: all_known_def)
  ultimately obtain walks' where w: "batch_levels (batcher s) (po_inherit p) acl_depth_cap ?walks [] = Inr walks'"
    "list_all2 (\<lambda>(i, w) (j, w'). i = j \<and>
      walk_loop (graph s) (po_inherit p) acl_depth_cap (aw_chain w) (aw_frontier w) = Inr (aw_chain w')) ?walks walks'"
    using batch_levels_ok [OF i r] by blast
  have a: "walk_loop (graph s) (po_inherit p) acl_depth_cap [x] [x] = Inr c \<Longrightarrow> x \<noteq> [] \<Longrightarrow> ancestors p (graph s) x = c" for x c
    using False by (simp add: ancestors_def)
  have "list_all2 (\<lambda>x y. fst y = x \<and> walk_loop (graph s) (po_inherit p) acl_depth_cap [x] [x] = Inr (aw_chain (snd y))) xs walks'"
    using w(2) unfolding list_all2_map1 by (rule list_all2_mono) (auto simp: case_prod_beta)
  then have "list_all2 (\<lambda>x y. (fst y, aw_chain (snd y)) = (x, ancestors p (graph s) x)) xs walks'"
    by (rule list.rel_mono_strong) (use n plain_nonempty a in auto)
  then have "map (\<lambda>(i, w). (i, aw_chain w)) walks' = map (\<lambda>x. (x, ancestors p (graph s) x)) xs"
    by (induction rule: list_all2_induct) auto
  with w(1) False show ?thesis by (simp add: batch_ancestors_def)
qed

lemma load_between_ok:
  assumes "inv s"
  shows "\<exists>m. load_between (batcher s) ms ts types = Inr m \<and>
    (\<forall>rel\<in>set types. scoped s rel \<longrightarrow> (\<forall>x t. x \<in> set ms \<longrightarrow> t \<in> set ts \<longrightarrow>
       ((case dict_get m rel of None \<Rightarrow> False | Some es \<Rightarrow> (x, t) \<in> set es) \<longleftrightarrow> (x, t) \<in> edge s rel)))"
proof (induction types)
  case (Cons rel types)
  then obtain m where m: "load_between (batcher s) ms ts types = Inr m"
    "\<forall>rel\<in>set types. scoped s rel \<longrightarrow> (\<forall>x t. x \<in> set ms \<longrightarrow> t \<in> set ts \<longrightarrow>
       ((case dict_get m rel of None \<Rightarrow> False | Some es \<Rightarrow> (x, t) \<in> set es) \<longleftrightarrow> (x, t) \<in> edge s rel))" by blast
  obtain es where es: "eb_between (batcher s) rel ms ts = Inr es" using between_any [OF assms] by blast
  have "(x, t) \<in> set es \<longleftrightarrow> (x, t) \<in> edge s rel" if "scoped s rel" "x \<in> set ms" "t \<in> set ts" for x t
    using between [OF assms that(1), of ms ts] es that(2,3) by auto
  with m(2) have "\<forall>q\<in>set (rel # types). scoped s q \<longrightarrow> (\<forall>x t. x \<in> set ms \<longrightarrow> t \<in> set ts \<longrightarrow>
       ((case dict_get ((rel, es) # m) q of None \<Rightarrow> False | Some es \<Rightarrow> (x, t) \<in> set es) \<longleftrightarrow> (x, t) \<in> edge s q))" by simp
  then show ?case unfolding load_between.simps es m(1) by auto
qed simp

text \<open>The local roles of a batch are those of the single walks, in the same order.\<close>

lemma batch_local_ok:
  assumes i: "inv s" and g: "aq_graph r = graph s" and inh: "\<forall>rel\<in>set (po_inherit (aq_policy r)). rel \<noteq> []"
    and sc: "\<forall>rel\<in>set (conferring_relations (aq_policy r)). scoped s rel"
    and m: "\<forall>x\<in>set (aq_members r). plain x" and n: "\<forall>x\<in>set xs. plain x" and d: "distinct xs"
  shows "batch_local_roles r (batcher s) xs = Inr (map (\<lambda>x. (x,
    local_roles r x (ancestors (aq_policy r) (aq_graph r) x) (aq_members r) (ag_has_edge (aq_graph r)))) xs)"
proof (cases "conferring_relations (aq_policy r) = [] \<or> aq_members r = []")
  case True
  have c: "concat (map (\<lambda>_. []) ys) = ([] :: attribution list)" for ys :: "string list" by (induction ys) simp_all
  have "local_roles r x c (aq_members r) e = []" for x c e using True by (auto simp: local_roles_def c)
  with True show ?thesis by (simp add: batch_local_roles_def)
next
  case False
  let ?p = "aq_policy r" and ?ms = "aq_members r"
  let ?found = "map (\<lambda>x. (x, ancestors ?p (graph s) x)) xs"
  let ?targets = "sort (remdups (concat (map snd ?found)))"
  have ts: "set ?targets = (\<Union>x\<in>set xs. set (ancestors ?p (graph s) x))" by auto
  obtain es where es: "load_between (batcher s) ?ms ?targets (conferring_relations ?p) = Inr es"
    "\<forall>rel\<in>set (conferring_relations ?p). scoped s rel \<longrightarrow> (\<forall>x t. x \<in> set ?ms \<longrightarrow> t \<in> set ?targets \<longrightarrow>
       ((case dict_get es rel of None \<Rightarrow> False | Some es \<Rightarrow> (x, t) \<in> set es) \<longleftrightarrow> (x, t) \<in> edge s rel))"
    using load_between_ok [OF i] by blast
  have f: "dict_get ?found x = Some (ancestors ?p (graph s) x)" if "x \<in> set xs" for x
    using that by (induction xs) auto
  have "local_roles r x (case dict_get ?found x of None \<Rightarrow> [] | Some c \<Rightarrow> c) ?ms
        (\<lambda>m rel t. case dict_get es rel of None \<Rightarrow> False | Some es \<Rightarrow> (m, t) \<in> set es) =
      local_roles r x (ancestors ?p (graph s) x) ?ms (ag_has_edge (graph s))" if x: "x \<in> set xs" for x
  proof -
    have e: "(case dict_get es rel of None \<Rightarrow> False | Some es \<Rightarrow> (m', t) \<in> set es) = ag_has_edge (graph s) m' rel t"
      if "rel \<in> set (conferring_relations ?p)" "m' \<in> set ?ms" "t \<in> set (ancestors ?p (graph s) x)" for rel m' t
    proof -
      have "t \<in> set ?targets" using that(3) x unfolding ts by blast
      moreover have "plain t" using ancestors_reach [OF i _ inh] n x that(3) by blast
      ultimately show ?thesis using es(2) that sc m has_edge [OF i] by auto
    qed
    have c: "concat (map (\<lambda>rel. concat (map (\<lambda>m. map (\<lambda>t. attr (confers ?p rel) (local_source m (pr_user (aq_principal r)) t x rel))
        (filter (\<lambda>t. case dict_get es rel of None \<Rightarrow> False | Some es \<Rightarrow> (m, t) \<in> set es) (ancestors ?p (graph s) x))) ?ms)) (conferring_relations ?p)) =
      concat (map (\<lambda>rel. concat (map (\<lambda>m. map (\<lambda>t. attr (confers ?p rel) (local_source m (pr_user (aq_principal r)) t x rel))
        (filter (ag_has_edge (graph s) m rel) (ancestors ?p (graph s) x))) ?ms)) (conferring_relations ?p))"
      using e by (intro arg_cong [where f = concat] map_cong refl arg_cong2 [where f = map] filter_cong) auto
    show ?thesis unfolding local_roles_def f [OF x] option.case c ..
  qed
  then show ?thesis
    using False es(1) batch_ancestors_ok [OF i inh n] by (simp add: batch_local_roles_def g Let_def)
qed

lemma prime_ok:
  assumes i: "inv s" and g: "aq_graph r = graph s" and inh: "\<forall>rel\<in>set (po_inherit (aq_policy r)). rel \<noteq> []"
    and sc: "\<forall>rel\<in>set (conferring_relations (aq_policy r)). scoped s rel"
    and m: "\<forall>x\<in>set (aq_members r). plain x" and n: "\<forall>x\<in>set xs. x \<noteq> [] \<longrightarrow> plain x"
    and parent: "\<forall>x. compute_for_entity parent r x = compute_for_entity (\<lambda>x. None) r x"
  shows "compute_for_entity (prime_local_roles r (Some (batcher s)) xs parent) r x = compute_for_entity (\<lambda>x. None) r x"
proof -
  let ?todo = "filter (\<lambda>i. parent i = None) (first_seen (filter (\<lambda>i. i \<noteq> []) xs))"
  show ?thesis
  proof (cases "?todo = []")
    case True
    then show ?thesis using parent by (simp add: prime_local_roles_def Let_def)
  next
    case False
    let ?f = "\<lambda>x. local_roles r x (ancestors (aq_policy r) (aq_graph r) x) (aq_members r) (ag_has_edge (aq_graph r))"
    have b: "batch_local_roles r (batcher s) ?todo = Inr (map (\<lambda>x. (x, ?f x)) ?todo)"
      using n by (intro batch_local_ok [OF i g inh sc m]) auto
    have l: "dict_get (map (\<lambda>x. (x, ?f x)) ys) x = (if x \<in> set ys then Some (?f x) else None)" for ys
      by (induction ys) auto
    have "prime_local_roles r (Some (batcher s)) xs parent =
        (\<lambda>i. case dict_get (map (\<lambda>x. (x, ?f x)) ?todo) i of Some xs \<Rightarrow> Some xs | None \<Rightarrow> parent i)"
      unfolding prime_local_roles_def Let_def option.case if_not_P [OF False] b sum.case ..
    then show ?thesis using parent [rule_format, of x] by (cases "x \<in> set ?todo") (auto simp: compute_for_entity_def l)
  qed
qed

end

end
