(* ===== verification/Acl_Validate.thy ===== *)
theory Acl_Validate
  imports Acl_Policy
begin

text \<open>
  Loading a policy: \<open>Policy.Validate\<close> with the normalisations it makes in place, from policy.go,
  worldgrant.go, ceiling.go and membershiprefusal.go. The result is the normalised policy or the
  first error.
\<close>

datatype refusal = SelfPromotion string | UngatedRelation string string

datatype policy_error =
    EmptyWorldName string string
  | WorldGlob string string
  | BadFaceGrant string op grant_error
  | RenameNamesFace string string
  | ConvertNamesFace string string
  | BadUnmatchedMode string
  | UnmatchedNeedsLookup string
  | BlankBaselineName
  | BlankScopeName
  | BothSpellings string string
  | DenyWriteAnd string string
  | VisibleAndRedact string string
  | BlankEntry string string
  | BlankFieldKey string string
  | FaceInCeiling string string string
  | BadFieldKey string string string
  | WorldWildcard string string
  | BlankAppliesTo string
  | ClaimedTwice string string string
  | ScopeDenies string "string list"
  | BlankRelationGrant
  | RelationGrantBoth string
  | RelationGrantNothing string
  | RelationGrantConfers string
  | BlankInherit
  | BlankRoleRelation
  | BlankClaim
  | ClaimGrantsEveryone string
  | UncoveredWrite string op string
  | UncoveredComments string string
  | Refused refusal

text \<open>The first failure of a list of checks, and a map over a dictionary that stops at the first error.\<close>

fun first_failure :: "('a \<Rightarrow> 'e option) \<Rightarrow> 'a list \<Rightarrow> 'e option" where
  "first_failure f [] = None"
| "first_failure f (x # xs) = (case f x of Some e \<Rightarrow> Some e | None \<Rightarrow> first_failure f xs)"

lemma first_failure_None [simp]: "first_failure f xs = None \<longleftrightarrow> (\<forall>x\<in>set xs. f x = None)"
  by (induction xs) (auto split: option.splits)

fun each_value :: "(string \<Rightarrow> 'a \<Rightarrow> 'e + 'b) \<Rightarrow> 'a dict \<Rightarrow> 'e + 'b dict" where
  "each_value f [] = Inr []"
| "each_value f ((k, v) # m) =
     (case f k v of Inl e \<Rightarrow> Inl e
      | Inr w \<Rightarrow> (case each_value f m of Inl e \<Rightarrow> Inl e | Inr m' \<Rightarrow> Inr ((k, w) # m')))"

section \<open>Normalising\<close>

text \<open>\<open>normalizeAssertedRoles\<close>: keys are trimmed, keys that meet are merged and only those lists sorted.\<close>

definition merge_claim :: "string \<times> string list \<Rightarrow> string list dict \<times> string list \<Rightarrow> string list dict \<times> string list" where
  "merge_claim kv st =
     (case kv of (claim, roles) \<Rightarrow> case st of (out, merged) \<Rightarrow>
        let key = trim_space claim in
        case dict_get out key of
          None \<Rightarrow> (dict_set key roles out, merged)
        | Some xs \<Rightarrow>
            (dict_set key (fold (\<lambda>r acc. if r \<in> set acc then acc else acc @ [r]) roles xs) out, merged @ [key]))"

definition normalize_asserted :: "string list dict \<Rightarrow> string list dict" where
  "normalize_asserted m =
     (case fold merge_claim m ([], []) of
        (out, merged) \<Rightarrow> map (\<lambda>(k, rs). (k, if k \<in> set merged then sort rs else rs)) out)"

definition trim_all :: "string list \<Rightarrow> string list" where
  "trim_all xs = map trim_space xs"

definition trim_keys :: "'a dict \<Rightarrow> 'a dict" where
  "trim_keys m = fold (\<lambda>(k, v) out. dict_set (trim_space k) v out) m []"

definition normalized :: "restriction \<Rightarrow> restriction" where
  "normalized r = \<lparr>re_read = map_option trim_all (re_read r), re_create = map_option trim_all (re_create r),
     re_update = map_option trim_all (re_update r), re_delete = map_option trim_all (re_delete r),
     re_deny_read = trim_all (re_deny_read r), re_deny_create = trim_all (re_deny_create r),
     re_deny_update = trim_all (re_deny_update r), re_deny_delete = trim_all (re_deny_delete r),
     re_deny_write = trim_all (re_deny_write r),
     re_visible = trim_keys (map (\<lambda>(t, fs). (t, map_option trim_all fs)) (re_visible r)),
     re_redact = trim_keys (map (\<lambda>(t, fs). (t, trim_all fs)) (re_redact r)),
     re_worlds = map_option trim_all (re_worlds r), re_deny_worlds = trim_all (re_deny_worlds r),
     re_permissions = map_option trim_all (re_permissions r), re_deny_permissions = trim_all (re_deny_permissions r)\<rparr>"

definition normalize_attenuation :: "policy \<Rightarrow> policy" where
  "normalize_attenuation p =
     p\<lparr>po_baselines := trim_keys (map (\<lambda>(k, b). (k, \<lparr>cb_applies_to = trim_all (cb_applies_to b),
           cb_restriction = normalized (cb_restriction b)\<rparr>)) (po_baselines p)),
       po_scope_grants := trim_keys (map (\<lambda>(k, g). (k, normalized g)) (po_scope_grants p))\<rparr>"

text \<open>\<open>normalizeWorldGrants\<close>: the \<open>world:\<close> entries of a read list become the role's worlds.\<close>

definition role_has_world_token :: "role_def \<Rightarrow> bool" where
  "role_has_world_token r \<longleftrightarrow> list_ex (\<lambda>x. has_prefix x world_grant_prefix) (ro_read r)"

fun split_reads :: "string \<Rightarrow> string list \<Rightarrow> string list \<Rightarrow> string list \<Rightarrow> policy_error + string list \<times> string list" where
  "split_reads name [] types worlds = Inr (types, worlds)"
| "split_reads name (x # xs) types worlds =
     (case cut_prefix x world_grant_prefix of
        None \<Rightarrow> split_reads name xs (types @ [x]) worlds
      | Some w \<Rightarrow>
          let world = trim_space w in
          if world = [] then Inl (EmptyWorldName name x)
          else if world = star then Inl (WorldGlob name x)
          else split_reads name xs types (if world \<in> set worlds then worlds else worlds @ [world]))"

definition normalize_role_worlds :: "string \<Rightarrow> role_def \<Rightarrow> policy_error + role_def" where
  "normalize_role_worlds name r =
     (if \<not> role_has_world_token r then Inr r
      else map_sum id (\<lambda>(types, worlds). r\<lparr>ro_read := types, ro_worlds := worlds\<rparr>)
        (split_reads name (ro_read r) [] (ro_worlds r)))"

definition normalize_world_grants :: "policy \<Rightarrow> policy_error + policy" where
  "normalize_world_grants p =
     map_sum id (\<lambda>rs. p\<lparr>po_roles := rs\<rparr>) (each_value normalize_role_worlds (po_roles p))"

definition normalize_relation_grants :: "policy \<Rightarrow> policy" where
  "normalize_relation_grants p =
     p\<lparr>po_relation_grants := trim_keys (map (\<lambda>(k, g). (k, \<lparr>wg_permission = trim_space (wg_permission g),
         wg_create = trim_space (wg_create g), wg_update = trim_space (wg_update g), wg_delete = trim_space (wg_delete g)\<rparr>))
         (po_relation_grants p))\<rparr>"

section \<open>Checks of grants\<close>

definition grant_error_of :: "string \<Rightarrow> grant_error option" where
  "grant_error_of x = (case parse_state_grant x of BadGrant e \<Rightarrow> Some e | _ \<Rightarrow> None)"

definition role_grant_error :: "string \<Rightarrow> role_def \<Rightarrow> policy_error option" where
  "role_grant_error name r =
     first_failure (\<lambda>c. c)
       (map (\<lambda>(verb, xs). first_failure (\<lambda>x. map_option (BadFaceGrant name verb) (grant_error_of x)) xs)
          [(OpCreate, ro_create r), (OpUpdate, ro_update r), (OpDelete, ro_delete r)] @
        [first_failure (\<lambda>x. if is_state_grant x then Some (RenameNamesFace name x) else None) (ro_rename r),
         first_failure (\<lambda>x. if is_state_grant x then Some (ConvertNamesFace name x) else None) (ro_convert r)])"

definition validate_state_grants :: "policy \<Rightarrow> policy_error option" where
  "validate_state_grants p =
     first_failure (\<lambda>name. role_grant_error name (the (dict_get (po_roles p) name))) (sort (map fst (po_roles p)))"

definition validate_unmatched :: "policy \<Rightarrow> policy_error option" where
  "validate_unmatched p =
     (let u = po_unmatched p in
      if u \<noteq> [] \<and> u \<noteq> unmatched_anonymous \<and> u \<noteq> unmatched_reject \<and> u \<noteq> unmatched_provision then Some (BadUnmatchedMode u)
      else if (u = unmatched_reject \<or> u = unmatched_provision) \<and> \<not> lookup_enabled p then Some (UnmatchedNeedsLookup u)
      else None)"

text \<open>\<open>update\<close>, \<open>delete\<close>, \<open>rename\<close> and \<open>convert\<close> need a read grant on the type.\<close>

definition coverage_error :: "string \<Rightarrow> role_def \<Rightarrow> policy_error option" where
  "coverage_error name r =
     first_failure (\<lambda>(verb, xs).
         first_failure (\<lambda>x. if role_grants_read r (grant_type_of x) then None else Some (UncoveredWrite name verb x)) xs)
       [(OpUpdate, ro_update r), (OpDelete, ro_delete r), (OpRename, ro_rename r), (OpConvert, ro_convert r)]"

definition comment_error :: "string \<Rightarrow> role_def \<Rightarrow> policy_error option" where
  "comment_error name r =
     (if perm_comment_read \<in> set (ro_permissions r) then None
      else first_failure (\<lambda>perm. if perm \<in> set (ro_permissions r) then Some (UncoveredComments name perm) else None)
        mutating_comment_perms)"

definition validate_coverage :: "policy \<Rightarrow> policy_error option" where
  "validate_coverage p =
     first_failure (\<lambda>(name, r). first_failure (\<lambda>c. c) [coverage_error name r, comment_error name r]) (po_roles p)"

section \<open>Checks of the ceiling\<close>

definition some_list :: "string list option \<Rightarrow> string list" where
  "some_list x = (case x of None \<Rightarrow> [] | Some xs \<Rightarrow> xs)"

definition deny_spellings :: "restriction \<Rightarrow> string list" where
  "deny_spellings r = map fst (filter snd
     [(''deny_read'', re_deny_read r \<noteq> []), (''deny_create'', re_deny_create r \<noteq> []), (''deny_update'', re_deny_update r \<noteq> []),
      (''deny_delete'', re_deny_delete r \<noteq> []), (''deny_write'', re_deny_write r \<noteq> []), (''redact'', re_redact r \<noteq> []),
      (''deny_worlds'', re_deny_worlds r \<noteq> []), (''deny_permissions'', re_deny_permissions r \<noteq> [])])"

definition spelling_error :: "string \<Rightarrow> restriction \<Rightarrow> policy_error option" where
  "spelling_error label r =
     first_failure (\<lambda>c. c)
       [first_failure (\<lambda>(name, allow, deny). if some_list allow \<noteq> [] \<and> deny \<noteq> [] then Some (BothSpellings label name) else None)
          [(''read'', re_read r, re_deny_read r), (''create'', re_create r, re_deny_create r),
           (''update'', re_update r, re_deny_update r), (''delete'', re_delete r, re_deny_delete r),
           (''worlds'', re_worlds r, re_deny_worlds r), (''permissions'', re_permissions r, re_deny_permissions r)],
        if re_deny_write r = [] then None
        else first_failure (\<lambda>(name, xs). if xs \<noteq> [] then Some (DenyWriteAnd label name) else None)
          [(''create'', some_list (re_create r)), (''deny_create'', re_deny_create r), (''update'', some_list (re_update r)),
           (''deny_update'', re_deny_update r), (''delete'', some_list (re_delete r)), (''deny_delete'', re_deny_delete r)],
        first_failure (\<lambda>(t, fs). if dict_get (re_redact r) t \<noteq> None then Some (VisibleAndRedact label t) else None) (re_visible r)]"

definition type_axes :: "restriction \<Rightarrow> (string \<times> string list) list" where
  "type_axes r = [(''read'', some_list (re_read r)), (''create'', some_list (re_create r)), (''update'', some_list (re_update r)),
     (''delete'', some_list (re_delete r)), (''deny_read'', re_deny_read r), (''deny_create'', re_deny_create r),
     (''deny_update'', re_deny_update r), (''deny_delete'', re_deny_delete r), (''deny_write'', re_deny_write r)]"

definition other_axes :: "restriction \<Rightarrow> (string \<times> string list) list" where
  "other_axes r = [(''worlds'', some_list (re_worlds r)), (''deny_worlds'', re_deny_worlds r),
     (''permissions'', some_list (re_permissions r)), (''deny_permissions'', re_deny_permissions r)]"

definition field_maps :: "restriction \<Rightarrow> (string \<times> string list dict) list" where
  "field_maps r = [(''visible'', map (\<lambda>(t, fs). (t, some_list fs)) (re_visible r)), (''redact'', re_redact r)]"

definition blank_error :: "string \<Rightarrow> restriction \<Rightarrow> policy_error option" where
  "blank_error label r =
     first_failure (\<lambda>c. c)
       [first_failure (\<lambda>(field, xs). first_failure (\<lambda>x. if is_blank x then Some (BlankEntry label field) else None) xs)
          (type_axes r @ other_axes r),
        first_failure (\<lambda>(field, m). first_failure (\<lambda>(t, fs).
            if is_blank t then Some (BlankFieldKey label field)
            else first_failure (\<lambda>f. if is_blank f then Some (BlankEntry label (field @ ''.'' @ t)) else None) fs) m) (field_maps r)]"

definition type_only_error :: "string \<Rightarrow> restriction \<Rightarrow> policy_error option" where
  "type_only_error label r =
     first_failure (\<lambda>c. c)
       [first_failure (\<lambda>(field, xs). first_failure (\<lambda>x. if is_state_grant x then Some (FaceInCeiling label field x) else None) xs)
          (type_axes r),
        first_failure (\<lambda>(field, m). first_failure (\<lambda>t. if trim_space t = star \<or> is_state_grant t
            then Some (BadFieldKey label field t) else None) (sort (map fst m))) (field_maps r),
        first_failure (\<lambda>(field, xs). first_failure (\<lambda>x. if trim_space x = star then Some (WorldWildcard label field) else None) xs)
          [(''worlds'', some_list (re_worlds r)), (''deny_worlds'', re_deny_worlds r)]]"

definition restriction_error :: "string \<Rightarrow> restriction \<Rightarrow> policy_error option" where
  "restriction_error label r = first_failure (\<lambda>c. c) [spelling_error label r, blank_error label r, type_only_error label r]"

text \<open>The principal types a baseline claims, one after the other; \<open>claimed\<close> is who claimed what so far.\<close>

fun claim_types :: "string \<Rightarrow> string list \<Rightarrow> string dict \<Rightarrow> policy_error + string dict" where
  "claim_types name [] claimed = Inr claimed"
| "claim_types name (t # ts) claimed =
     (if is_blank t then Inl (BlankAppliesTo name)
      else case dict_get claimed (trim_space t) of
        Some prev \<Rightarrow> Inl (ClaimedTwice (trim_space t) prev name)
      | None \<Rightarrow> claim_types name ts (dict_set (trim_space t) name claimed))"

fun check_baselines :: "(string \<times> client_baseline) list \<Rightarrow> string dict \<Rightarrow> policy_error option" where
  "check_baselines [] claimed = None"
| "check_baselines ((name, b) # bs) claimed =
     (if is_blank name then Some BlankBaselineName
      else case restriction_error (''client_baselines.'' @ name) (cb_restriction b) of
        Some e \<Rightarrow> Some e
      | None \<Rightarrow> (case claim_types name (cb_applies_to b) claimed of
          Inl e \<Rightarrow> Some e
        | Inr claimed' \<Rightarrow> check_baselines bs claimed'))"

definition scope_error :: "string \<Rightarrow> restriction \<Rightarrow> policy_error option" where
  "scope_error name g =
     (if is_blank name then Some BlankScopeName
      else case restriction_error (''scope_grants.'' @ name) g of
        Some e \<Rightarrow> Some e
      | None \<Rightarrow> if deny_spellings g \<noteq> [] then Some (ScopeDenies name (deny_spellings g)) else None)"

definition expanded :: "restriction \<Rightarrow> restriction" where
  "expanded r =
     (if re_deny_write r = [] then r
      else r\<lparr>re_deny_create := re_deny_write r, re_deny_update := re_deny_write r, re_deny_delete := re_deny_write r,
             re_deny_write := []\<rparr>)"

definition expand_attenuation :: "policy \<Rightarrow> policy" where
  "expand_attenuation p =
     p\<lparr>po_baselines := map (\<lambda>(k, b). (k, b\<lparr>cb_restriction := expanded (cb_restriction b)\<rparr>)) (po_baselines p),
       po_scope_grants := map (\<lambda>(k, g). (k, expanded g)) (po_scope_grants p)\<rparr>"

definition sorted_dict :: "'a dict \<Rightarrow> 'a dict" where
  "sorted_dict m = map (\<lambda>k. (k, the (dict_get m k))) (sort (map fst m))"

definition validate_attenuation :: "policy \<Rightarrow> policy_error + policy" where
  "validate_attenuation p =
     (case check_baselines (sorted_dict (po_baselines p)) [] of
        Some e \<Rightarrow> Inl e
      | None \<Rightarrow> (case first_failure (\<lambda>(name, g). scope_error name g) (sorted_dict (po_scope_grants p)) of
          Some e \<Rightarrow> Inl e
        | None \<Rightarrow> Inr (expand_attenuation p)))"

section \<open>Checks of relation grants\<close>

definition relation_grant_error :: "policy \<Rightarrow> string \<Rightarrow> relation_write_grant \<Rightarrow> policy_error option" where
  "relation_grant_error p rel g =
     (let per_verb = (wg_create g \<noteq> [] \<or> wg_update g \<noteq> [] \<or> wg_delete g \<noteq> []) in
      if rel = [] then Some BlankRelationGrant
      else if wg_permission g \<noteq> [] \<and> per_verb then Some (RelationGrantBoth rel)
      else if wg_permission g = [] \<and> \<not> per_verb then Some (RelationGrantNothing rel)
      else if rel = membership_relation p then Some (RelationGrantConfers rel)
      else if rel \<in> set (po_inherit p) then Some (RelationGrantConfers rel)
      else if (case dict_get (po_role_relations p) rel of None \<Rightarrow> False | Some d \<Rightarrow> rr_requires d \<noteq> [])
      then Some (RelationGrantConfers rel)
      else None)"

definition validate_relation_grants :: "policy \<Rightarrow> policy_error option" where
  "validate_relation_grants p =
     first_failure (\<lambda>(rel, g). relation_grant_error p rel g) (sorted_dict (po_relation_grants p))"

section \<open>Refusing a policy that lets a reader promote itself\<close>

definition non_default_world :: "policy \<Rightarrow> role_def \<Rightarrow> bool" where
  "non_default_world p r \<longleftrightarrow> list_ex (\<lambda>w. w \<noteq> default_world p) (ro_worlds r)"

definition grants_any_world :: "policy \<Rightarrow> bool" where
  "grants_any_world p \<longleftrightarrow> list_ex (\<lambda>(name, r). non_default_world p r) (po_roles p)"

definition escalation_relevant :: "policy \<Rightarrow> role_def \<Rightarrow> bool" where
  "escalation_relevant p r \<longleftrightarrow> role_is_privileged r \<or> non_default_world p r"

definition requires_of :: "policy \<Rightarrow> string \<Rightarrow> string" where
  "requires_of p rel = (case dict_get (po_role_relations p) rel of None \<Rightarrow> [] | Some d \<Rightarrow> rr_requires d)"

definition membership_self_promotion_open :: "policy \<Rightarrow> bool" where
  "membership_self_promotion_open p \<longleftrightarrow>
     requires_of p (membership_relation p) = [] \<and>
     list_ex (\<lambda>(who, name). case dict_get (po_roles p) name of None \<Rightarrow> False | Some r \<Rightarrow> role_is_privileged r) (po_assignments p)"

definition self_promotion :: "policy \<Rightarrow> string option" where
  "self_promotion p =
     (if requires_of p (membership_relation p) \<noteq> [] then None
      else map_option fst (find (\<lambda>(name, r). name \<in> snd ` set (po_assignments p) \<and> escalation_relevant p r)
        (sorted_dict (po_roles p))))"

definition role_relation_escalates :: "policy \<Rightarrow> string \<Rightarrow> bool" where
  "role_relation_escalates p rel \<longleftrightarrow>
     (case dict_get (po_role_relations p) rel of
        None \<Rightarrow> False
      | Some d \<Rightarrow> rr_requires d = [] \<and>
          (case dict_get (po_roles p) (rr_confers d) of None \<Rightarrow> False | Some r \<Rightarrow> escalation_relevant p r))"

definition ungated_role_relation :: "policy \<Rightarrow> (string \<times> string) option" where
  "ungated_role_relation p =
     map_option (\<lambda>(rel, d). (rel, rr_confers d)) (find (\<lambda>(rel, d). role_relation_escalates p rel) (sorted_dict (po_role_relations p)))"

definition world_grant_refusal :: "policy \<Rightarrow> refusal option" where
  "world_grant_refusal p =
     (if \<not> grants_any_world p then None
      else case self_promotion p of
        Some r \<Rightarrow> Some (SelfPromotion r)
      | None \<Rightarrow> map_option (\<lambda>(rel, r). UngatedRelation rel r) (ungated_role_relation p))"

section \<open>The whole validation\<close>

definition tail_error :: "policy \<Rightarrow> policy_error option" where
  "tail_error p =
     first_failure (\<lambda>c. c)
       [validate_relation_grants p,
        first_failure (\<lambda>t. if is_blank t then Some BlankInherit else None) (po_inherit p),
        first_failure (\<lambda>(k, d). if is_blank k then Some BlankRoleRelation else None) (po_role_relations p),
        first_failure (\<lambda>(claim, rs). if is_blank claim then Some BlankClaim
           else if everyone_role \<in> set rs then Some (ClaimGrantsEveryone claim) else None) (po_asserted p),
        validate_coverage p,
        map_option Refused (world_grant_refusal p)]"

definition validate :: "policy \<Rightarrow> policy_error + policy" where
  "validate p =
     (case normalize_world_grants (normalize_attenuation (p\<lparr>po_asserted := normalize_asserted (po_asserted p)\<rparr>)) of
        Inl e \<Rightarrow> Inl e
      | Inr p1 \<Rightarrow>
     (case validate_state_grants p1 of
        Some e \<Rightarrow> Inl e
      | None \<Rightarrow>
     (let p2 = normalize_relation_grants p1 in
      case validate_unmatched p2 of
        Some e \<Rightarrow> Inl e
      | None \<Rightarrow>
     (case validate_attenuation p2 of
        Inl e \<Rightarrow> Inl e
      | Inr p3 \<Rightarrow>
     (case tail_error p3 of
        Some e \<Rightarrow> Inl e
      | None \<Rightarrow> Inr p3)))))"

text \<open>What a loaded policy keeps of the schema: the default world is recorded and may not be denied.\<close>

definition default_world_denied :: "policy \<Rightarrow> (string \<times> string) option" where
  "default_world_denied p =
     (case find (\<lambda>(k, b). default_world p \<in> set (re_deny_worlds (cb_restriction b))) (sorted_dict (po_baselines p)) of
        Some (k, b) \<Rightarrow> Some (''client_baselines'', k)
      | None \<Rightarrow> (case find (\<lambda>(k, g). default_world p \<in> set (re_deny_worlds g)) (sorted_dict (po_scope_grants p)) of
          Some (k, g) \<Rightarrow> Some (''scope_grants'', k)
        | None \<Rightarrow> None))"

end
