(* ===== verification/Acl_Ceiling.thy ===== *)
theory Acl_Ceiling
  imports Acl_Request Acl_Validate
begin

text \<open>
  What the client ceiling does to a request: clamping a role and checking the ceiling together are the
  intersection of what the role grants and what the ceiling permits, for a policy that passed the
  load checks. From this follow the exact answer of a write and that a client can never do more than
  the user it acts as.
\<close>

section \<open>Grant entries\<close>

lemma star_plain [simp]: "\<not> is_state_grant star"
  by (simp add: is_state_grant_def star_def)

lemma parse_plain: "\<not> is_state_grant x \<Longrightarrow> parse_state_grant x = TypeGrant x"
  by (simp add: parse_state_grant_def is_state_grant_def cut_def split: prod.split)

lemma parse_type_plain: "parse_state_grant x = TypeGrant u \<Longrightarrow> u = x \<and> \<not> is_state_grant x"
  by (auto simp: parse_state_grant_def is_state_grant_def cut_def split: if_splits sum.splits)

lemma grant_type_plain: "\<not> is_state_grant x \<Longrightarrow> grant_type_of x = x"
  by (auto simp: grant_type_of_def is_state_grant_def cut_def takeWhile_eq_all_conv)

lemma parse_face_type: "parse_state_grant x = FaceGrant u g \<Longrightarrow> grant_type_of x = u"
  by (auto simp: parse_state_grant_def grant_type_of_def cut_def Let_def split: if_splits sum.splits prod.splits)

lemma entry_grants_type: "entry_grants t f x \<Longrightarrow> x \<noteq> star \<Longrightarrow> grant_type_of x = t"
  using parse_type_plain [of x] grant_type_plain [of x] parse_face_type [of x]
  by (auto simp: entry_grants_def split: state_grant.splits)

lemma entry_grants_plain: "\<not> is_state_grant x \<Longrightarrow> entry_grants t f x \<longleftrightarrow> (x = star \<or> x = t) \<and> is_implicit f"
  by (auto simp: entry_grants_def parse_plain)

section \<open>Axes of a ceiling\<close>

text \<open>An axis as the loaded policy gives it: an allowlist names types only and holds every exception.\<close>

definition axis_ok :: "verb_ceiling \<Rightarrow> bool" where
  "axis_ok v \<longleftrightarrow> (\<forall>xs. vc_allow v = Some xs \<longrightarrow> set (vc_except v) \<subseteq> set xs \<and> (\<forall>x\<in>set xs. \<not> is_state_grant x))"

lemma filter_types_guard: "vc_narrows v \<Longrightarrow> xs \<noteq> [] \<Longrightarrow> \<not> (\<not> vc_narrows v \<or> xs = [])"
  by simp

lemma filter_types_set:
  assumes "vc_narrows v" "xs \<noteq> []"
  shows "set (filter_types xs v) =
    {x \<in> set xs. if x = star then vc_allow v = None else vc_permits v (grant_type_of x)} \<union>
    (if star \<in> set xs then (case vc_allow v of None \<Rightarrow> {} | Some as \<Rightarrow> set as) else {})"
proof -
  have f: "set (fold (\<lambda>t out. if t \<in> set out then out else if t = star then (if c then out else out @ [t])
        else if vc_permits v (grant_type_of t) then out @ [t] else out) ys start) =
      set start \<union> {x \<in> set ys. if x = star then \<not> c else vc_permits v (grant_type_of x)}" for ys start c
    by (induction ys arbitrary: start) auto
  have "set (filter_types xs v) = set (if vc_allow v \<noteq> None \<and> star \<in> set xs then the (vc_allow v) else []) \<union>
      {x \<in> set xs. if x = star then \<not> (vc_allow v \<noteq> None \<and> star \<in> set xs) else vc_permits v (grant_type_of x)}"
    unfolding filter_types_def Let_def f if_not_P [OF filter_types_guard [OF assms]] ..
  then show ?thesis by (cases "vc_allow v") auto
qed

lemma filter_types_id: "\<not> vc_narrows v \<or> xs = [] \<Longrightarrow> filter_types xs v = xs"
  by (simp add: filter_types_def)

text \<open>The three kinds of list a grant is read from: faces of a type, whole types, and reads.\<close>

lemma filter_types_narrows:
  assumes "axis_ok v" "x \<in> set (filter_types xs v)"
  shows "x \<in> set xs \<or> (star \<in> set xs \<and> \<not> is_state_grant x)"
proof (cases "vc_narrows v \<and> xs \<noteq> []")
  case True
  then show ?thesis using assms filter_types_set [of v xs] by (auto simp: axis_ok_def split: if_splits option.splits)
next
  case False
  then show ?thesis using assms(2) filter_types_id [of v xs] by auto
qed

lemma permits_allow:
  "axis_ok v \<Longrightarrow> vc_permits v t \<Longrightarrow> vc_allow v = Some as \<Longrightarrow> star \<in> set as \<or> t \<in> set as"
  by (auto simp: vc_permits_def matches_type_list_def axis_ok_def list_ex_iff split: if_splits)

lemma filter_types_keeps:
  assumes "axis_ok v" "x \<in> set xs" "x = star \<Longrightarrow> vc_permits v t" "x \<noteq> star \<Longrightarrow> vc_permits v (grant_type_of x)"
  shows "x \<in> set (filter_types xs v) \<or> (x = star \<and> t \<in> set (filter_types xs v))"
proof (cases "vc_narrows v \<and> xs \<noteq> []")
  case True
  then show ?thesis using assms permits_allow [OF assms(1) assms(3)] filter_types_set [of v xs]
    by (cases "x = star"; cases "vc_allow v") auto
next
  case False
  then show ?thesis using assms(2) filter_types_id [of v xs] by auto
qed

lemma face_grants_filter:
  assumes v: "axis_ok v" and t: "\<not> is_state_grant t" and p: "vc_permits v t"
  shows "list_ex (entry_grants t f) (filter_types xs v) \<longleftrightarrow> list_ex (entry_grants t f) xs"
proof
  assume "list_ex (entry_grants t f) (filter_types xs v)"
  then obtain x where x: "x \<in> set (filter_types xs v)" "entry_grants t f x" by (auto simp: list_ex_iff)
  from filter_types_narrows [OF v x(1)] show "list_ex (entry_grants t f) xs"
  proof
    assume "star \<in> set xs \<and> \<not> is_state_grant x"
    then show ?thesis using x(2) entry_grants_plain [of x t f] entry_grants_plain [of star t f] by (auto simp: list_ex_iff)
  qed (use x(2) in \<open>auto simp: list_ex_iff\<close>)
next
  assume "list_ex (entry_grants t f) xs"
  then obtain x where x: "x \<in> set xs" "entry_grants t f x" by (auto simp: list_ex_iff)
  have "x \<in> set (filter_types xs v) \<or> (x = star \<and> t \<in> set (filter_types xs v))"
    using entry_grants_type [OF x(2)] p by (intro filter_types_keeps [OF v x(1)]) auto
  then show "list_ex (entry_grants t f) (filter_types xs v)"
    using x(2) entry_grants_plain [of star t f] entry_grants_plain [OF t, of t f] by (auto simp: list_ex_iff)
qed

lemma type_grants_filter:
  assumes v: "axis_ok v" and t: "\<not> is_state_grant t" and p: "vc_permits v t"
  shows "list_ex (\<lambda>x. x = star \<or> x = t) (filter_types xs v) \<longleftrightarrow> list_ex (\<lambda>x. x = star \<or> x = t) xs"
proof
  assume "list_ex (\<lambda>x. x = star \<or> x = t) (filter_types xs v)"
  then show "list_ex (\<lambda>x. x = star \<or> x = t) xs" using filter_types_narrows [OF v] by (auto simp: list_ex_iff)
next
  assume "list_ex (\<lambda>x. x = star \<or> x = t) xs"
  then obtain x where x: "x \<in> set xs" "x = star \<or> x = t" by (auto simp: list_ex_iff)
  have "x \<in> set (filter_types xs v) \<or> (x = star \<and> t \<in> set (filter_types xs v))"
    using x(2) p grant_type_plain [OF t] by (intro filter_types_keeps [OF v x(1)]) auto
  then show "list_ex (\<lambda>x. x = star \<or> x = t) (filter_types xs v)" using x(2) by (auto simp: list_ex_iff)
qed

section \<open>The ceiling of a loaded policy\<close>

definition ceiling_ok :: "ceiling \<Rightarrow> bool" where
  "ceiling_ok c \<longleftrightarrow> axis_ok (ce_read c) \<and> axis_ok (ce_create c) \<and> axis_ok (ce_update c) \<and> axis_ok (ce_delete c)"

text \<open>The type lists of a restriction name no face.\<close>

definition plain_restriction :: "restriction \<Rightarrow> bool" where
  "plain_restriction r \<longleftrightarrow> (\<forall>(field, xs) \<in> set (type_axes r). \<forall>x\<in>set xs. \<not> is_state_grant x)"

definition plain_ceilings :: "policy \<Rightarrow> bool" where
  "plain_ceilings p \<longleftrightarrow> (\<forall>b \<in> snd ` set (po_baselines p). plain_restriction (cb_restriction b)) \<and>
     (\<forall>g \<in> snd ` set (po_scope_grants p). plain_restriction g)"

lemma find_in: "find P xs = Some x \<Longrightarrow> x \<in> set xs"
  by (auto simp: find_Some_iff)

lemma axis_ok_axis: "(\<forall>x\<in>set (some_list a). \<not> is_state_grant x) \<Longrightarrow> axis_ok (axis a d)"
  by (auto simp: axis_ok_def axis_def some_list_def)

lemma axis_ok_reopen: "axis_ok v \<Longrightarrow> (\<forall>x\<in>set (some_list a). \<not> is_state_grant x) \<Longrightarrow> axis_ok (reopen a v)"
  by (auto simp: axis_ok_def reopen_def some_list_def Let_def split: option.splits)

lemma reopen_scope_ok: "plain_ceilings p \<Longrightarrow> ceiling_ok c \<Longrightarrow> ceiling_ok (reopen_scope p scope c)"
proof (cases "dict_get (po_scope_grants p) (trim_space scope)")
  case (Some g)
  assume a: "plain_ceilings p" "ceiling_ok c"
  have "plain_restriction g" using a(1) dict_get_in [OF Some] by (force simp: plain_ceilings_def)
  then show ?thesis using a(2) Some
    by (simp add: ceiling_ok_def reopen_scope_def plain_restriction_def type_axes_def axis_ok_reopen)
qed (simp add: reopen_scope_def)

lemma ceiling_for_ok:
  assumes "plain_ceilings p"
  shows "ceiling_ok (ceiling_for p ptype scopes)"
proof (cases "baseline_for p ptype")
  case None
  then show ?thesis by (simp add: ceiling_for_def no_ceiling_def ceiling_ok_def axis_ok_def no_verb_ceiling_def)
next
  case (Some nb)
  obtain name b where nb: "nb = (name, b)" by fastforce
  have "(name, b) \<in> set (map (\<lambda>n. (n, the (dict_get (po_baselines p) n))) (sort (map fst (po_baselines p))))"
    using Some nb by (auto simp: baseline_for_def Let_def simp del: set_map set_sort split: if_splits dest: find_in)
  then obtain k where k: "k \<in> fst ` set (po_baselines p)" "b = the (dict_get (po_baselines p) k)" by auto
  then obtain b' where "dict_get (po_baselines p) k = Some b'"
    by (metis dict_get_None dict_keys_def not_Some_eq)
  then have "(k, b) \<in> set (po_baselines p)" using k(2) dict_get_in by fastforce
  then have "plain_restriction (cb_restriction b)" using assms by (force simp: plain_ceilings_def)
  then have "ceiling_ok (compile_baseline p name b)"
    by (simp add: ceiling_ok_def compile_baseline_def Let_def plain_restriction_def type_axes_def axis_ok_axis)
  then have "ceiling_ok (fold (reopen_scope p) ss (compile_baseline p name b))" for ss
    by (induction ss rule: rev_induct) (simp_all add: reopen_scope_ok [OF assms])
  then show ?thesis by (simp add: ceiling_for_def Some nb)
qed

section \<open>Clamped roles\<close>

lemma clamp_inactive [simp]: "\<not> ce_active c \<Longrightarrow> clamp c r = r"
  by (simp add: clamp_def)

lemma filter_twice:
  assumes "axis_ok u" "axis_ok d" "\<not> is_state_grant t" "vc_permits u t" "vc_permits d t"
  shows "list_ex (\<lambda>x. x = star \<or> x = t) (filter_types (filter_types xs u) d) \<longleftrightarrow> list_ex (\<lambda>x. x = star \<or> x = t) xs"
  using assms type_grants_filter [of d t "filter_types xs u"] type_grants_filter [of u t xs] by blast

text \<open>Under a verb the ceiling permits, the clamped role grants what the role grants.\<close>

lemma clamp_grants:
  assumes "ceiling_ok c" "\<not> is_state_grant t" "permits_verb c p t"
  shows "grants_verb_on_state (clamp c r) p t f = grants_verb_on_state r p t f"
proof (cases "ce_active c")
  case True
  note ok = assms(1) [unfolded ceiling_ok_def]
  show ?thesis
    using assms(2,3) True ok
    by (cases p) (simp_all add: grants_verb_on_state_def clamp_def permits_verb_def grants_family_rename_def
        grants_family_convert_def face_grants_filter type_grants_filter filter_twice)
qed simp

lemma clamp_rename:
  assumes "ceiling_ok c" "\<not> is_state_grant t" "permits_verb c OpRename t"
  shows "grants_family_rename (clamp c r) t = grants_family_rename r t"
  using assms by (cases "ce_active c")
    (simp_all add: grants_family_rename_def clamp_def permits_verb_def type_grants_filter ceiling_ok_def)

lemma clamp_convert:
  assumes "ceiling_ok c" "\<not> is_state_grant t" "permits_verb c OpConvert t"
  shows "grants_family_convert (clamp c r) t = grants_family_convert r t"
  using assms by (cases "ce_active c")
    (simp_all add: grants_family_convert_def clamp_def permits_verb_def filter_twice ceiling_ok_def)

end
