(* ===== verification/Acl_Loaded.thy ===== *)
theory Acl_Loaded
  imports Acl_Ceiling
begin

text \<open>
  What loading establishes: a policy that \<open>Validate\<close> accepts is well formed, in the sense the rest of
  the model relies on (readable grants, ceilings that name types, principal types claimed once,
  relation grants that confer no access, no reader that can promote itself).
\<close>

section \<open>Well-formed policies\<close>

definition role_ok :: "role_def \<Rightarrow> bool" where
  "role_ok r \<longleftrightarrow>
     (\<forall>x\<in>set (ro_create r @ ro_update r @ ro_delete r). grant_error_of x = None) \<and>
     (\<forall>x\<in>set (ro_rename r @ ro_convert r). \<not> is_state_grant x) \<and>
     (\<forall>x\<in>set (ro_read r). \<not> has_prefix x world_grant_prefix) \<and>
     (\<forall>x\<in>set (ro_update r @ ro_delete r @ ro_rename r @ ro_convert r). role_grants_read r (grant_type_of x)) \<and>
     (set (ro_permissions r) \<inter> set mutating_comment_perms \<noteq> {} \<longrightarrow> perm_comment_read \<in> set (ro_permissions r))"

definition baselines_disjoint :: "client_baseline dict \<Rightarrow> bool" where
  "baselines_disjoint m \<longleftrightarrow> dict_ok m \<and>
     (\<forall>a b ba bb. dict_get m a = Some ba \<longrightarrow> dict_get m b = Some bb \<longrightarrow> a \<noteq> b \<longrightarrow>
        set (cb_applies_to ba) \<inter> set (cb_applies_to bb) = {})"

definition grants_delegable :: "policy \<Rightarrow> bool" where
  "grants_delegable p \<longleftrightarrow> (\<forall>rel g. dict_get (po_relation_grants p) rel = Some g \<longrightarrow>
     rel \<noteq> membership_relation p \<and> rel \<notin> set (po_inherit p) \<and> requires_of p rel = [])"

definition no_self_promotion :: "policy \<Rightarrow> bool" where
  "no_self_promotion p \<longleftrightarrow> (grants_any_world p \<longrightarrow>
     (requires_of p (membership_relation p) = [] \<longrightarrow>
        (\<forall>name\<in>snd ` set (po_assignments p). \<forall>r. dict_get (po_roles p) name = Some r \<longrightarrow> \<not> escalation_relevant p r)) \<and>
     (\<forall>rel\<in>dict_keys (po_role_relations p). \<not> role_relation_escalates p rel))"

definition policy_ok :: "policy \<Rightarrow> bool" where
  "policy_ok p \<longleftrightarrow> plain_ceilings p \<and> (\<forall>r\<in>snd ` set (po_roles p). role_ok r) \<and> baselines_disjoint (po_baselines p) \<and>
     grants_delegable p \<and> (\<forall>(claim, rs)\<in>set (po_asserted p). \<not> is_blank claim \<and> everyone_role \<notin> set rs) \<and>
     (\<forall>rel\<in>set (po_inherit p). \<not> is_blank rel) \<and> no_self_promotion p"

section \<open>Dictionaries\<close>

lemma trim_keys_ok [simp]: "dict_ok (trim_keys m)"
proof -
  have "dict_ok d \<Longrightarrow> dict_ok (fold (\<lambda>(k, v) out. dict_set (trim_space k) v out) xs d)" for xs d
    by (induction xs arbitrary: d) (auto simp: case_prod_beta)
  from this [of "[]" m] show ?thesis unfolding trim_keys_def by (simp only: dict_ok_Nil)
qed

lemma sorted_dict_set: "dict_ok m \<Longrightarrow> set (sorted_dict m) = set m"
  by (force simp: sorted_dict_def dict_ok_def)

lemma dict_get_map_snd: "dict_get (map (\<lambda>(k, v). (k, f v)) m) k = map_option f (dict_get m k)"
  by (induction m) auto

lemma dict_ok_map_snd: "dict_ok m \<Longrightarrow> dict_ok (map (\<lambda>(k, v). (k, f v)) m)"
  by (simp add: dict_ok_def case_prod_beta comp_def)

lemma each_value_ok:
  "each_value f m = Inr m' \<Longrightarrow> map fst m' = map fst m \<and> (\<forall>k w. (k, w) \<in> set m' \<longrightarrow> (\<exists>v. (k, v) \<in> set m \<and> f k v = Inr w))"
  by (induction m arbitrary: m') (fastforce split: sum.splits)+

section \<open>Checks that passed\<close>

lemma find_None: "find P xs = None \<longleftrightarrow> (\<forall>x\<in>set xs. \<not> P x)"
  by (auto simp: find_None_iff)

lemma split_reads_ok:
  "split_reads name xs types worlds = Inr (ts, ws) \<Longrightarrow> \<forall>x\<in>set types. \<not> has_prefix x world_grant_prefix \<Longrightarrow>
   \<forall>x\<in>set ts. \<not> has_prefix x world_grant_prefix"
proof (induction xs arbitrary: types worlds)
  case (Cons x xs)
  show ?case
  proof (cases "cut_prefix x world_grant_prefix")
    case None
    have "split_reads name xs (types @ [x]) worlds = Inr (ts, ws)" using Cons.prems(1) by (simp add: None)
    moreover have "\<not> has_prefix x world_grant_prefix"
      using None by (cases "has_prefix x world_grant_prefix") (simp_all add: cut_prefix_def)
    then have "\<forall>y\<in>set (types @ [x]). \<not> has_prefix y world_grant_prefix" using Cons.prems(2) by auto
    ultimately show ?thesis by (rule Cons.IH)
  next
    case (Some w)
    then obtain worlds' where "split_reads name xs types worlds' = Inr (ts, ws)"
      using Cons.prems(1) by (simp add: Let_def split: if_splits)
    then show ?thesis using Cons.IH Cons.prems(2) by blast
  qed
qed simp

lemma normalize_role_reads:
  "normalize_role_worlds name r = Inr r' \<Longrightarrow> \<forall>x\<in>set (ro_read r'). \<not> has_prefix x world_grant_prefix"
  by (auto simp: normalize_role_worlds_def role_has_world_token_def list_ex_iff map_sum_def
      split: if_splits sum.splits dest!: split_reads_ok)

lemma type_axes_expanded: "(\<forall>(field, xs)\<in>set (type_axes (expanded r)). \<forall>x\<in>set xs. P x) \<longleftrightarrow>
    (\<forall>(field, xs)\<in>set (type_axes r). \<forall>x\<in>set xs. P x)" if "spelling_error label r = None"
  using that by (auto simp: type_axes_def expanded_def spelling_error_def split: if_splits)

lemma restriction_plain: "restriction_error label r = None \<Longrightarrow> plain_restriction (expanded r)"
  using type_axes_expanded [of label r]
  by (auto simp: restriction_error_def type_only_error_def plain_restriction_def simp del: first_failure.simps split: if_splits)

fun_cases claim_types_ConsE: "claim_types name (t # ts) claimed = Inr claimed'"

lemma claim_types_ok:
  "claim_types name ts claimed = Inr claimed' \<Longrightarrow>
   dict_keys claimed' = dict_keys claimed \<union> trim_space ` set ts \<and> dict_keys claimed \<inter> trim_space ` set ts = {}"
proof (induction ts arbitrary: claimed)
  case (Cons t ts)
  from Cons.prems have "dict_get claimed (trim_space t) = None"
    and "claim_types name ts (dict_set (trim_space t) name claimed) = Inr claimed'"
    by (auto elim!: claim_types_ConsE split: if_splits option.splits)
  with Cons.IH show ?case by (fastforce simp: dict_keys_set dict_get_None)
qed simp

definition claims_of :: "string \<times> client_baseline \<Rightarrow> string set" where
  "claims_of x = trim_space ` set (cb_applies_to (snd x))"

definition passes_checks :: "restriction \<Rightarrow> bool" where
  "passes_checks r \<longleftrightarrow> (\<exists>label. restriction_error label r = None)"

lemma check_baselines_ok:
  "check_baselines bs claimed = None \<Longrightarrow>
   (\<forall>x\<in>set bs. passes_checks (cb_restriction (snd x)) \<and> dict_keys claimed \<inter> claims_of x = {}) \<and>
   (\<forall>x\<in>set bs. \<forall>y\<in>set bs. fst x \<noteq> fst y \<longrightarrow> claims_of x \<inter> claims_of y = {})"
proof (induction bs claimed rule: check_baselines.induct)
  case (2 name b bs claimed)
  from 2(2) obtain claimed' where c: "claim_types name (cb_applies_to b) claimed = Inr claimed'"
    and e: "restriction_error (''client_baselines.'' @ name) (cb_restriction b) = None" "\<not> is_blank name"
    and r: "check_baselines bs claimed' = None"
    by (auto split: if_splits option.splits sum.splits)
  from e have p: "passes_checks (cb_restriction b)" by (auto simp: passes_checks_def)
  have k: "dict_keys claimed' = dict_keys claimed \<union> claims_of (name, b)" "dict_keys claimed \<inter> claims_of (name, b) = {}"
    using claim_types_ok [OF c] by (simp_all add: claims_of_def)
  note ih = 2(1) [OF e(2,1) c r]
  have d: "passes_checks (cb_restriction (snd x))" "claims_of (name, b) \<inter> claims_of x = {}"
    "claims_of x \<inter> claims_of (name, b) = {}" "dict_keys claimed \<inter> claims_of x = {}" if "x \<in> set bs" for x
    using conjunct1 [OF ih] that k(1) by blast+
  show ?case using conjunct2 [OF ih] k(2) p d by (simp del: Int_iff)
qed simp

section \<open>Loading\<close>

lemma validate_steps:
  assumes "validate p = Inr q"
  obtains p1 p2 where
    "normalize_world_grants (normalize_attenuation (p\<lparr>po_asserted := normalize_asserted (po_asserted p)\<rparr>)) = Inr p1"
    "validate_state_grants p1 = None" "p2 = normalize_relation_grants p1" "validate_unmatched p2 = None"
    "check_baselines (sorted_dict (po_baselines p2)) [] = None"
    "first_failure (\<lambda>(name, g). scope_error name g) (sorted_dict (po_scope_grants p2)) = None"
    "q = expand_attenuation p2" "tail_error q = None"
  using assms by (simp add: validate_def validate_attenuation_def Let_def split: sum.splits option.splits)

lemma passes_plain: "passes_checks r \<Longrightarrow> plain_restriction (expanded r)"
  by (auto simp: passes_checks_def restriction_plain)

lemma validate_steps_simps [simp]:
  "po_roles (expand_attenuation p) = po_roles p"
  "po_roles (normalize_relation_grants p) = po_roles p"
  "po_baselines (normalize_relation_grants p) = po_baselines p"
  "po_scope_grants (normalize_relation_grants p) = po_scope_grants p"
  "po_roles (normalize_attenuation p) = po_roles p"
  "dict_ok (po_baselines (normalize_attenuation p))"
  "dict_ok (po_scope_grants (normalize_attenuation p))"
  by (simp_all add: expand_attenuation_def normalize_relation_grants_def normalize_attenuation_def)

text \<open>Names in a claim list are trimmed once attenuation is normalised.\<close>

lemma trim_space_ends:
  assumes "trim_space s \<noteq> []"
  shows "\<not> is_space (hd (trim_space s)) \<and> \<not> is_space (last (trim_space s))"
proof -
  define u where "u = dropWhile is_space s"
  have t: "trim_space s = rev (dropWhile is_space (rev u))" by (simp add: trim_space_def u_def)
  then have n: "dropWhile is_space (rev u) \<noteq> []" using assms by simp
  have "last (dropWhile is_space (rev u)) = last (rev u)"
    by (metis n last_appendR takeWhile_dropWhile_id)
  moreover have u: "u \<noteq> []" using n by auto
  moreover have "\<not> is_space (hd u)" using u unfolding u_def by (rule hd_dropWhile)
  ultimately show ?thesis using n hd_dropWhile [OF n] by (simp add: t hd_rev last_rev)
qed

lemma trim_space_Nil [simp]: "trim_space [] = []"
  by (simp add: trim_space_def)

lemma trim_space_idem [simp]: "trim_space (trim_space s) = trim_space s"
  using trim_space_ends [of s] trim_space_id [of "trim_space s"] by (cases "trim_space s = []") auto

lemma trim_keys_values: "snd ` set (trim_keys m) \<subseteq> snd ` set m"
proof -
  have "dict_ok d \<Longrightarrow> snd ` set (fold (\<lambda>(k, v) out. dict_set (trim_space k) v out) xs d) \<subseteq> snd ` set xs \<union> snd ` set d" for xs d
  proof (induction xs arbitrary: d)
    case (Cons x xs)
    have "snd ` set (dict_set (trim_space (fst x)) (snd x) d) \<subseteq> insert (snd x) (snd ` set d)"
      using Cons.prems by (auto simp: dict_set_set)
    then show ?case using Cons.IH [OF dict_ok_set [OF Cons.prems], of "trim_space (fst x)" "snd x"]
      by (simp add: case_prod_beta) blast
  qed simp
  from this [of "[]" m] show ?thesis unfolding trim_keys_def by simp
qed

definition normalized_baseline :: "client_baseline \<Rightarrow> client_baseline" where
  "normalized_baseline b = \<lparr>cb_applies_to = trim_all (cb_applies_to b), cb_restriction = normalized (cb_restriction b)\<rparr>"

lemma normalized_baselines:
  "po_baselines (normalize_attenuation p) = trim_keys (map (\<lambda>(k, b). (k, normalized_baseline b)) (po_baselines p))"
  by (simp add: normalize_attenuation_def normalized_baseline_def)

lemma trimmed_claims:
  assumes "x \<in> set (po_baselines (normalize_attenuation p))"
  shows "claims_of x = set (cb_applies_to (snd x))"
proof -
  have "snd x \<in> snd ` set (map (\<lambda>(k, b). (k, normalized_baseline b)) (po_baselines p))"
    using assms trim_keys_values [of "map (\<lambda>(k, b). (k, normalized_baseline b)) (po_baselines p)"]
    unfolding normalized_baselines by blast
  then obtain b where "snd x = normalized_baseline b" by auto
  then show ?thesis by (simp add: claims_of_def normalized_baseline_def trim_all_def image_image)
qed

lemma normalize_worlds_role:
  assumes "normalize_world_grants p = Inr p'" "(name, r) \<in> set (po_roles p')"
  shows "\<forall>x\<in>set (ro_read r). \<not> has_prefix x world_grant_prefix"
proof -
  obtain rs where rs: "each_value normalize_role_worlds (po_roles p) = Inr rs" "po_roles p' = rs"
    using assms(1) by (auto simp: normalize_world_grants_def map_sum_def split: sum.splits)
  then obtain r0 where "normalize_role_worlds name r0 = Inr r" using each_value_ok [OF rs(1)] assms(2) by blast
  then show ?thesis by (rule normalize_role_reads)
qed

lemma normalize_worlds_frame:
  "normalize_world_grants p = Inr p' \<Longrightarrow> map fst (po_roles p') = map fst (po_roles p) \<and> po_baselines p' = po_baselines p \<and>
   po_scope_grants p' = po_scope_grants p \<and> po_asserted p' = po_asserted p"
  by (auto simp: normalize_world_grants_def map_sum_def split: sum.splits dest: each_value_ok)

lemma state_grants_role:
  assumes "validate_state_grants p = None" "dict_ok (po_roles p)" "(name, r) \<in> set (po_roles p)"
  shows "(\<forall>x\<in>set (ro_create r @ ro_update r @ ro_delete r). grant_error_of x = None) \<and>
    (\<forall>x\<in>set (ro_rename r @ ro_convert r). \<not> is_state_grant x)"
proof -
  have "dict_get (po_roles p) name = Some r" using assms(2,3) by (simp add: dict_ok_def)
  then have "role_grant_error name r = None" using assms(1,3) by (force simp: validate_state_grants_def)
  then show ?thesis by (auto simp: role_grant_error_def simp del: first_failure.simps split: if_splits)
qed

lemma coverage_role:
  assumes "validate_coverage p = None" "(name, r) \<in> set (po_roles p)"
  shows "(\<forall>x\<in>set (ro_update r @ ro_delete r @ ro_rename r @ ro_convert r). role_grants_read r (grant_type_of x)) \<and>
    (set (ro_permissions r) \<inter> set mutating_comment_perms \<noteq> {} \<longrightarrow> perm_comment_read \<in> set (ro_permissions r))"
proof -
  have "coverage_error name r = None" "comment_error name r = None"
    using assms by (auto simp: validate_coverage_def simp del: first_failure.simps)
  then show ?thesis
    by (auto simp: coverage_error_def comment_error_def simp del: first_failure.simps split: if_splits)
qed

lemma relation_grant_delegable:
  "relation_grant_error p rel g = None \<Longrightarrow>
   rel \<noteq> membership_relation p \<and> rel \<notin> set (po_inherit p) \<and> requires_of p rel = []"
  by (cases "dict_get (po_role_relations p) rel")
    (simp_all add: relation_grant_error_def requires_of_def Let_def split: if_splits)

lemma relation_grants_ok:
  assumes "validate_relation_grants p = None"
  shows "grants_delegable p"
  unfolding grants_delegable_def
proof (intro allI impI)
  fix rel g assume g: "dict_get (po_relation_grants p) rel = Some g"
  then have "(rel, g) \<in> set (sorted_dict (po_relation_grants p))" using dict_get_in [OF g] by (force simp: sorted_dict_def)
  then have "relation_grant_error p rel g = None" using assms by (auto simp: validate_relation_grants_def)
  then show "rel \<noteq> membership_relation p \<and> rel \<notin> set (po_inherit p) \<and> requires_of p rel = []"
    by (rule relation_grant_delegable)
qed

lemma refusal_ok:
  assumes "world_grant_refusal p = None"
  shows "no_self_promotion p"
proof (cases "grants_any_world p")
  case True
  then have s: "self_promotion p = None" and u: "ungated_role_relation p = None"
    using assms by (auto simp: world_grant_refusal_def split: option.splits)
  have "\<not> escalation_relevant p r" if "requires_of p (membership_relation p) = []" "name \<in> snd ` set (po_assignments p)"
    "dict_get (po_roles p) name = Some r" for name r
    using s that dict_get_in [OF that(3)] by (force simp: self_promotion_def find_None sorted_dict_def)
  moreover have "\<not> role_relation_escalates p rel" if "rel \<in> dict_keys (po_role_relations p)" for rel
    using u that by (force simp: ungated_role_relation_def find_None sorted_dict_def dict_keys_def)
  ultimately show ?thesis using True by (simp add: no_self_promotion_def)
qed (simp add: no_self_promotion_def)

lemma validate_ok:
  assumes "validate p = Inr q" and "dict_ok (po_roles p)"
  shows "policy_ok q"
proof -
  let ?p0 = "normalize_attenuation (p\<lparr>po_asserted := normalize_asserted (po_asserted p)\<rparr>)"
  obtain p1 p2 where n: "normalize_world_grants ?p0 = Inr p1"
    and v: "validate_state_grants p1 = None" and p2: "p2 = normalize_relation_grants p1"
    and c: "check_baselines (sorted_dict (po_baselines p2)) [] = None"
    and g: "first_failure (\<lambda>(name, g). scope_error name g) (sorted_dict (po_scope_grants p2)) = None"
    and q: "q = expand_attenuation p2" and t: "tail_error q = None"
    using validate_steps [OF assms(1)] .
  note fr = normalize_worlds_frame [OF n]
  have ok: "dict_ok (po_baselines p2)" "dict_ok (po_scope_grants p2)" and roles: "po_roles q = po_roles p1" "dict_ok (po_roles p1)"
    using fr assms(2) by (simp_all add: p2 q dict_ok_def [of "po_roles _"])
  have T: "validate_relation_grants q = None" "validate_coverage q = None" "world_grant_refusal q = None"
    "\<forall>(claim, rs)\<in>set (po_asserted q). \<not> is_blank claim \<and> everyone_role \<notin> set rs" "\<forall>rel\<in>set (po_inherit q). \<not> is_blank rel"
    using t by (auto simp: tail_error_def simp del: first_failure.simps split: if_splits)
  have r: "role_ok r" if "r \<in> snd ` set (po_roles q)" for r
  proof -
    from that obtain name where m: "(name, r) \<in> set (po_roles q)" by auto
    then show ?thesis
      using normalize_worlds_role [OF n, of name r] state_grants_role [OF v roles(2), of name r] coverage_role [OF T(2) m]
      by (simp add: role_ok_def roles(1))
  qed
  note cb = check_baselines_ok [OF c, unfolded sorted_dict_set [OF ok(1)]]
  have pl: "plain_ceilings q"
    using cb g sorted_dict_set [OF ok(2)] 
    by (auto simp: plain_ceilings_def q expand_attenuation_def passes_plain scope_error_def restriction_plain split: if_splits option.splits)
  have claims: "claims_of x = set (cb_applies_to (snd x))" if "x \<in> set (po_baselines p2)" for x
    using trimmed_claims [of x] that fr by (simp add: p2)
  have "dict_ok (po_baselines q)" using ok(1) by (simp add: q expand_attenuation_def dict_ok_map_snd)
  moreover have "set (cb_applies_to ba) \<inter> set (cb_applies_to bb) = {}"
    if a: "dict_get (po_baselines q) a = Some ba" and b: "dict_get (po_baselines q) b = Some bb" and ab: "a \<noteq> b" for a b ba bb
  proof -
    obtain ba' bb' where x: "dict_get (po_baselines p2) a = Some ba'" "cb_applies_to ba = cb_applies_to ba'"
      and y: "dict_get (po_baselines p2) b = Some bb'" "cb_applies_to bb = cb_applies_to bb'"
      using a b by (auto simp: q expand_attenuation_def dict_get_map_snd)
    have "claims_of (a, ba') \<inter> claims_of (b, bb') = {}"
      using conjunct2 [OF cb] dict_get_in [OF x(1)] dict_get_in [OF y(1)] ab by fastforce
    then show ?thesis using claims [OF dict_get_in [OF x(1)]] claims [OF dict_get_in [OF y(1)]] x(2) y(2) by simp
  qed
  ultimately have d: "baselines_disjoint (po_baselines q)" unfolding baselines_disjoint_def by blast
  show ?thesis using pl r d relation_grants_ok [OF T(1)] refusal_ok [OF T(3)] T(4,5) by (auto simp: policy_ok_def)
qed

text \<open>
  C11: A policy that loads is well formed. When \<open>Validate\<close> accepts a policy (whose role names are distinct,
  as map keys are), in the policy it leaves every grant entry parses, no \<open>rename\<close> or \<open>convert\<close> entry names
  a face, world tokens have left the read lists, every type a role updates, deletes, renames or converts is
  one it reads; the type lists of every client baseline and scope grant name types only and no principal
  type is claimed by two baselines; no relation grant stands on the membership relation, on an inherited
  one or on one that requires a permission; no asserted claim names the implicit role; no inherited relation is blank; and, when some role
  opens another world, nobody can reach a privileged role by writing an ungated relation.
\<close>
theorem loaded_policy_ok:
  assumes "validate p = Inr q" and "dict_ok (po_roles p)"
  shows "policy_ok q"
  using assms by (rule validate_ok)

section \<open>A sample policy\<close>

definition plain_role :: "string list \<Rightarrow> string list \<Rightarrow> role_def" where
  "plain_role reads writes = \<lparr>ro_create = writes, ro_update = writes, ro_delete = writes, ro_convert = [], ro_rename = [],
     ro_read = reads, ro_permissions = [], ro_worlds = [], ro_fields = [], ro_visible = [], ro_options = [], ro_relations = []\<rparr>"

definition open_restriction :: restriction where
  "open_restriction = \<lparr>re_read = None, re_create = None, re_update = None, re_delete = None, re_deny_read = [],
     re_deny_create = [], re_deny_update = [], re_deny_delete = [], re_deny_write = [], re_visible = [], re_redact = [],
     re_worlds = None, re_deny_worlds = [], re_permissions = None, re_deny_permissions = []\<rparr>"

text \<open>Editors read and write pages and read drafts of notes; an owner relation confers the role of a reviewer; agents may
  delete nothing, and read and write drafts only under the scope that reopens it.\<close>

definition sample_policy :: policy where
  "sample_policy = \<lparr>po_user_type = [], po_property = [], po_membership = [],
     po_roles = [(''editor'', plain_role [''page'', ''note@draft'', ''world:review''] [''page'', ''note@draft'']),
       (''reviewer'', plain_role [''note''] [''note'']), (''everyone'', plain_role [''tag''] [])],
     po_assignments = [(''ann'', ''editor'')], po_asserted = [('' staff '', [''reviewer''])],
     po_role_relations = [(''owner'', \<lparr>rr_confers = ''reviewer'', rr_requires = ''grant:owner''\<rparr>),
       (''member-of'', \<lparr>rr_confers = [], rr_requires = ''grant:member''\<rparr>)],
     po_inherit = [''part-of''],
     po_baselines = [(''agents'', \<lparr>cb_applies_to = [''agent '', ''service''],
       cb_restriction = open_restriction\<lparr>re_read := Some [''page''], re_deny_write := [''note'']\<rparr>\<rparr>)],
     po_scope_grants = [(''notes'', open_restriction\<lparr>re_read := Some [''note''], re_create := Some [''note'']\<rparr>)],
     po_relation_grants = [(''tagged'', \<lparr>wg_permission = '' tag:write'', wg_create = [], wg_update = [], wg_delete = []\<rparr>)],
     po_default_world = [], po_unmatched = []\<rparr>"

definition loaded_sample :: policy where
  "loaded_sample = (case validate sample_policy of Inr q \<Rightarrow> q | Inl e \<Rightarrow> sample_policy)"

lemma sample_loads: "validate sample_policy = Inr loaded_sample"
  by code_simp

lemma sample_policy_ok: "policy_ok loaded_sample"
  by (rule validate_ok [OF sample_loads]) code_simp

theorem loaded_policy_ok_witness: "policy_ok loaded_sample \<and> ro_worlds (the (dict_get (po_roles loaded_sample) ''editor'')) = [''review'']"
proof
  have "dict_ok (po_roles sample_policy)" by code_simp
  from loaded_policy_ok [OF sample_loads this] show "policy_ok loaded_sample" .
  show "ro_worlds (the (dict_get (po_roles loaded_sample) ''editor'')) = [''review'']" by code_simp
qed

end
