(* ===== verification/Acl_Decide.thy ===== *)
theory Acl_Decide
  imports Acl_Loaded
begin

text \<open>
  Decisions under a client ceiling: a write or a read is what the same request answers without the
  ceiling, cut down to what the ceiling permits, so that a client never does more than its user.
\<close>

section \<open>Roles that grant\<close>

definition unclamped :: "acl_request \<Rightarrow> acl_request" where
  "unclamped r = r\<lparr>aq_ceiling := no_ceiling\<rparr>"

lemma unclamped_simps [simp]:
  "aq_ceiling (unclamped r) = no_ceiling" "aq_policy (unclamped r) = aq_policy r" "aq_graph (unclamped r) = aq_graph r"
  "aq_globals (unclamped r) = aq_globals r" "aq_members (unclamped r) = aq_members r"
  "aq_principal (unclamped r) = aq_principal r" "aq_declarative (unclamped r) = aq_declarative r"
  by (simp_all add: unclamped_def aq_policy_def aq_graph_def)

lemma no_ceiling_permits [simp]:
  "permits_verb no_ceiling p t" "permits_read no_ceiling t" "permits_permission no_ceiling x" "clamp no_ceiling role = role"
  "\<not> ce_active no_ceiling" "ceiling_ok no_ceiling"
  by (auto simp: permits_verb_def permits_read_def permits_permission_def clamp_def no_ceiling_def ceiling_ok_def axis_ok_def
      no_verb_ceiling_def)

lemma role_for_unclamped [simp]: "role_for (unclamped r) name = dict_get (po_roles (aq_policy r)) name"
  by (cases "dict_get (po_roles (aq_policy r)) name") (simp_all add: role_for_def)

lemma locals_unclamped [simp]:
  "local_roles (unclamped r) i chain members edge = local_roles r i chain members edge"
  "compute_for_entity primed (unclamped r) i = compute_for_entity primed r i"
proof -
  show l: "local_roles (unclamped r) i chain members edge = local_roles r i chain members edge" for chain members edge
    by (simp add: local_roles_def)
  show "compute_for_entity primed (unclamped r) i = compute_for_entity primed r i"
    unfolding compute_for_entity_def l unclamped_simps ..
qed

lemma granting_role_cong:
  assumes "\<And>role. test (clamp (aq_ceiling r) role) = test' role"
  shows "granting_role r test attrs = granting_role (unclamped r) test' attrs"
proof -
  have "(case role_for r name of None \<Rightarrow> False | Some role \<Rightarrow> test role) =
      (case role_for (unclamped r) name of None \<Rightarrow> False | Some role \<Rightarrow> test' role)" for name
    by (cases "dict_get (po_roles (aq_policy r)) name") (simp_all add: role_for_def assms)
  then show ?thesis unfolding granting_role_def by metis
qed

lemma decide_roles_cong:
  "(\<And>role. test (clamp (aq_ceiling r) role) = test' role) \<Longrightarrow> decide_roles r test attrs = decide_roles (unclamped r) test' attrs"
  using granting_role_cong [of test r test' attrs] by (simp add: decide_roles_def)

lemma decide_roles_allow:
  "dn_allow (decide_roles r test attrs) \<longleftrightarrow>
    (\<exists>name\<in>at_role ` set attrs. \<exists>role. role_for r name = Some role \<and> test role)"
proof -
  have "granting_role r test attrs = None \<longleftrightarrow> \<not> (\<exists>name\<in>at_role ` set attrs. \<exists>role. role_for r name = Some role \<and> test role)"
    by (auto simp: granting_role_def find_None split: option.splits)
  then show ?thesis by (auto simp: decide_roles_def decided_by_def split: option.splits)
qed

section \<open>Writes\<close>

lemma unclamped_denials [simp]: "ceiling_denial (unclamped r) attrs p t = None" "conversion_denial (unclamped r) attrs dest = None"
  by (simp_all add: ceiling_denial_def conversion_denial_def)

lemma decide_intersects:
  assumes "ceiling_ok (aq_ceiling r)" "\<not> is_state_grant t"
  shows "decide_from_attrs r attrs p t f =
    (if permits_verb (aq_ceiling r) p t then decide_from_attrs (unclamped r) attrs p t f
     else decided_by False ClientCeiling (ce_name (aq_ceiling r)) attrs)"
  using decide_roles_cong [of "\<lambda>role. grants_verb_on_state role p t f" r, OF clamp_grants [OF assms]]
  by (simp add: decide_from_attrs_def ceiling_denial_def)

lemma family_intersects:
  assumes "ceiling_ok (aq_ceiling r)" "\<not> is_state_grant t"
  shows "decide_family_write r attrs p t dest =
    (if permits_verb (aq_ceiling r) p t \<and>
        (p = OpConvert \<longrightarrow> ce_active (aq_ceiling r) \<longrightarrow> dest \<noteq> [] \<and> permits_verb (aq_ceiling r) OpCreate dest)
     then decide_family_write (unclamped r) attrs p t dest
     else decided_by False ClientCeiling (ce_name (aq_ceiling r)) attrs)"
proof (cases "permits_verb (aq_ceiling r) p t")
  case True
  show ?thesis
    using True decide_roles_cong [of "\<lambda>role. grants_family_rename role t" r "\<lambda>role. grants_family_rename role t" attrs]
      decide_roles_cong [of "\<lambda>role. grants_family_convert role t" r "\<lambda>role. grants_family_convert role t" attrs]
      clamp_rename [OF assms] clamp_convert [OF assms]
    by (auto simp: decide_family_write_def ceiling_denial_def conversion_denial_def)
next
  case False
  then show ?thesis by (simp add: decide_family_write_def ceiling_denial_def)
qed

section \<open>Reads\<close>












lemma faces_union_None [simp]: "faces_union fss = None \<longleftrightarrow> None \<in> set fss"
  by (simp add: faces_union_def)


section \<open>A ceiling only cuts\<close>


section \<open>A client never does more than its user\<close>

definition no_permission_glob :: "policy \<Rightarrow> bool" where
  "no_permission_glob p \<longleftrightarrow> (\<forall>r\<in>snd ` set (po_roles p). star \<notin> set (ro_permissions r))"

lemma filter_permissions_subset: "star \<notin> set xs \<Longrightarrow> set (filter_permissions xs v) \<subseteq> set xs"
  by (auto simp: filter_permissions_def)

lemma permission_unclamped:
  assumes "no_permission_glob (aq_policy r)" "grants_permission r attrs perm"
  shows "grants_permission (unclamped r) attrs perm"
proof -
  obtain a role where a: "a \<in> set attrs" "role_for r (at_role a) = Some role" "perm \<in> set (ro_permissions role)"
    using assms(2) by (auto simp: grants_permission_def list_ex_iff split: option.splits)
  then obtain role' where r: "dict_get (po_roles (aq_policy r)) (at_role a) = Some role'" "role = clamp (aq_ceiling r) role'"
    by (auto simp: role_for_def)
  have "star \<notin> set (ro_permissions role')" using assms(1) dict_get_in [OF r(1)] by (force simp: no_permission_glob_def)
  then have "perm \<in> set (ro_permissions role')"
    using a(3) filter_permissions_subset unfolding r(2) clamp_def by (auto split: if_splits)
  then show ?thesis using a(1) r(1) by (auto simp: grants_permission_def list_ex_iff intro: bexI [of _ a])
qed

definition plain_subject :: "subject \<Rightarrow> bool" where
  "plain_subject s = (case s of EntitySubject e \<Rightarrow> \<not> is_state_grant (es_type e) | RelationSubject x \<Rightarrow> \<not> is_state_grant (rs_from_type x))"

lemma decide_narrows:
  "ceiling_ok (aq_ceiling r) \<Longrightarrow> \<not> is_state_grant t \<Longrightarrow> dn_allow (decide_from_attrs r attrs p t f) \<Longrightarrow>
   dn_allow (decide_from_attrs (unclamped r) attrs p t f)"
  using decide_intersects by (metis decided_by_def acl_decision.select_convs(1))

lemma decide_faces_narrows:
  "ceiling_ok (aq_ceiling r) \<Longrightarrow> \<not> is_state_grant t \<Longrightarrow> dn_allow (decide_faces r attrs p t f fs) \<Longrightarrow>
   dn_allow (decide_faces (unclamped r) attrs p t f fs)"
  by (induction fs arbitrary: f) (auto simp: Let_def dest: decide_narrows split: if_splits)

text \<open>What a relation write needs, and the two ways it is then granted.\<close>

definition faces_allow :: "acl_request \<Rightarrow> op \<Rightarrow> relation_subject \<Rightarrow> bool" where
  "faces_allow r p s \<longleftrightarrow>
     (\<forall>f\<in>set (if rs_family_faces s = [] then [rs_from_face s] else rs_family_faces s).
        dn_allow (decide_from_attrs r (aq_globals r) p (rs_from_type s) f))"

lemma decide_faces_allow:
  "dn_allow (decide_faces r attrs p t f fs) \<longleftrightarrow> (\<forall>g\<in>set (f # fs). dn_allow (decide_from_attrs r attrs p t g))"
  by (induction fs arbitrary: f) (auto simp: Let_def)

lemma relation_write_allow:
  "dn_allow (authorize_relation_write r p s) \<longleftrightarrow>
     (requires_of (aq_policy r) (rs_type s) \<noteq> [] \<longrightarrow> holds_permission r (requires_of (aq_policy r) (rs_type s))) \<and>
     permits_verb (aq_ceiling r) p (rs_from_type s) \<and>
     ((\<exists>x. rs_from_type s \<noteq> [] \<and> relation_permission_for (aq_policy r) (rs_type s) p = Some x \<and>
         grants_permission r (aq_globals r) x \<and> can_update_tail r (aq_globals r) s) \<or> faces_allow r p s)"
  (is "_ \<longleftrightarrow> ?gate \<and> ?ceiling \<and> (?grant \<or> _)")
proof -
  let ?q = "requires_of (aq_policy r) (rs_type s)"
  have f: "dn_allow (case rs_family_faces s of [] \<Rightarrow> decide_faces r (aq_globals r) p (rs_from_type s) (rs_from_face s) []
      | f # fs \<Rightarrow> decide_faces r (aq_globals r) p (rs_from_type s) f fs) \<longleftrightarrow> faces_allow r p s"
    by (cases "rs_family_faces s") (auto simp: faces_allow_def decide_faces_allow simp del: decide_faces.simps)
  have a: "authorize_relation_write r p s =
    (if ?q \<noteq> [] \<and> \<not> holds_permission r ?q then decided_by False DelegatePermission ?q []
     else if \<not> permits_verb (aq_ceiling r) p (rs_from_type s)
     then decided_by False ClientCeiling (ce_name (aq_ceiling r)) (aq_globals r)
     else if ?grant then decided_by True RelationGrant (the (relation_permission_for (aq_policy r) (rs_type s) p)) (aq_globals r)
     else (case rs_family_faces s of [] \<Rightarrow> decide_faces r (aq_globals r) p (rs_from_type s) (rs_from_face s) []
      | f # fs \<Rightarrow> decide_faces r (aq_globals r) p (rs_from_type s) f fs))"
    unfolding authorize_relation_write_def requires_of_def [symmetric] Let_def ceiling_denial_def
    by (cases "relation_permission_for (aq_policy r) (rs_type s) p") (simp_all cong: if_cong)
  show ?thesis unfolding a if_distrib [of dn_allow] f by (auto simp: decided_by_def)
qed

lemma relation_narrows:
  assumes c: "ceiling_ok (aq_ceiling r)" "\<not> is_state_grant (rs_from_type s)" and p: "no_permission_glob (aq_policy r)"
    and a: "dn_allow (authorize_relation_write r p s)"
  shows "dn_allow (authorize_relation_write (unclamped r) p s)"
proof -
  have t: "can_update_tail r attrs s \<Longrightarrow> can_update_tail (unclamped r) attrs s" for attrs
    using decide_narrows [OF c] by (auto simp: can_update_tail_def)
  moreover have "faces_allow r p s \<Longrightarrow> faces_allow (unclamped r) p s"
    using decide_narrows [OF c] by (simp add: faces_allow_def)
  ultimately show ?thesis
    using a permission_unclamped [OF p] unfolding relation_write_allow holds_permission_def by auto
qed

lemma policy_ceiling_ok: "policy_ok (aq_policy r) \<Longrightarrow> aq_ceiling r = ceiling_for (aq_policy r) ptype scopes \<Longrightarrow> ceiling_ok (aq_ceiling r)"
  by (simp add: policy_ok_def ceiling_for_ok)

text \<open>
  C13: A client never writes what its user may not. Under a well-formed policy in which no role lists the
  wildcard as a permission, every write a request allows, on an entity or on a relation, the same request
  allows without the client ceiling.
\<close>
theorem client_never_gains:
  assumes "policy_ok (aq_policy r)" and "aq_ceiling r = ceiling_for (aq_policy r) ptype scopes"
    and "no_permission_glob (aq_policy r)" and "plain_subject s"
    and "dn_allow (authorize_write primed r p s)"
  shows "dn_allow (authorize_write primed (unclamped r) p s)"
proof (cases s)
  case (EntitySubject e)
  note c = policy_ceiling_ok [OF assms(1,2)]
  have "\<not> is_state_grant (es_type e)" using assms(4) by (simp add: EntitySubject plain_subject_def)
  note d = decide_intersects [OF c this] family_intersects [OF c this]
  have "decide_from_attrs (unclamped r) attrs p t f = decide_from_attrs r attrs p t f" if "dn_allow (decide_from_attrs r attrs p t f)" "t = es_type e" for attrs t f
    using that d(1) [of attrs p f] by (auto simp: decided_by_def split: if_splits)
  moreover have "decide_family_write (unclamped r) attrs p t dest = decide_family_write r attrs p t dest"
    if "dn_allow (decide_family_write r attrs p t dest)" "t = es_type e" for attrs t dest
    using that d(2) [of attrs p dest] by (auto simp: decided_by_def split: if_splits)
  ultimately show ?thesis
    using assms(5) by (auto simp: EntitySubject authorize_write_def authorize_entity_write_def Let_def split: if_splits)
next
  case (RelationSubject x)
  then show ?thesis
    using assms(4,5) relation_narrows [OF policy_ceiling_ok [OF assms(1,2)] _ assms(3), of x p]
    by (simp add: authorize_write_def plain_subject_def)
qed

text \<open>
  C12: Relations that give access are written with care. Under a well-formed policy, an allowed relation write is
  one the ceiling permits on the tail's type, by a holder of the permission its relation requires, if it
  requires one; and on a relation that gives access (the membership relation, an inherited one, one that
  requires a permission) no relation grant stands in: some role must grant the verb on the tail's type, on
  every face the write is about.
\<close>
theorem relation_write_guarded:
  assumes "policy_ok (aq_policy r)" and "dn_allow (authorize_write primed r p (RelationSubject s))"
  shows "permits_verb (aq_ceiling r) p (rs_from_type s) \<and>
    (requires_of (aq_policy r) (rs_type s) \<noteq> [] \<longrightarrow> holds_permission r (requires_of (aq_policy r) (rs_type s))) \<and>
    (rs_type s = membership_relation (aq_policy r) \<or> rs_type s \<in> set (po_inherit (aq_policy r)) \<or>
       requires_of (aq_policy r) (rs_type s) \<noteq> [] \<longrightarrow> faces_allow r p s)"
proof -
  note a = assms(2) [unfolded authorize_write_def subject.case relation_write_allow]
  have "grants_delegable (aq_policy r)" using assms(1) by (simp add: policy_ok_def)
  then have "relation_permission_for (aq_policy r) (rs_type s) p = None"
    if "rs_type s = membership_relation (aq_policy r) \<or> rs_type s \<in> set (po_inherit (aq_policy r)) \<or>
       requires_of (aq_policy r) (rs_type s) \<noteq> []"
    using that by (auto simp: grants_delegable_def relation_permission_for_def split: option.splits)
  then show ?thesis using a by auto
qed

section \<open>A sample request\<close>

text \<open>Ann is in the team that owns the binder; P-1 is part of the binder.\<close>

definition sample_edges :: "(string \<times> string \<times> string) list" where
  "sample_edges = [(''ann'', ''member-of'', ''team''), (''team'', ''owner'', ''binder''), (''P-1'', ''part-of'', ''binder'')]"

definition sample_graph :: acl_graph where
  "sample_graph = \<lparr>ag_has_edge = (\<lambda>n rel t. (n, rel, t) \<in> set sample_edges),
     ag_outgoing = (\<lambda>n rel. Inr (map (\<lambda>(a, b, c). c) (filter (\<lambda>(a, b, c). a = n \<and> b = rel) sample_edges)))\<rparr>"

definition sample_declarative :: "policy \<Rightarrow> declarative" where
  "sample_declarative p = \<lparr>de_policy = p, de_graph = sample_graph, de_matcher = (\<lambda>q ids. Inr []), de_lookup = None\<rparr>"

definition ceiling_request :: "policy \<Rightarrow> string \<Rightarrow> acl_request" where
  "ceiling_request p ptype = projr (open_request (sample_declarative p) (verified_from ''ann'' ''cli'' (no_claims\<lparr>cl_type := ptype\<rparr>)))"

definition unprimed :: prime where
  "unprimed = (\<lambda>i. None)"

lemma ceiling_request_simps [simp]:
  "aq_policy (ceiling_request loaded_sample ''agent'') = loaded_sample"
  "aq_ceiling (ceiling_request loaded_sample ''agent'') = ceiling_for loaded_sample ''agent'' []"
  by code_simp+

definition page_subject :: entity_subject where
  "page_subject = \<lparr>es_type = ''page'', es_id = ''P-1'', es_face = [], es_family = False, es_convert_to = []\<rparr>"



theorem client_never_gains_witness:
  "dn_allow (authorize_write unprimed (unclamped (ceiling_request loaded_sample ''agent'')) OpUpdate (EntitySubject page_subject))"
proof -
  let ?r = "ceiling_request loaded_sample ''agent''"
  have p: "policy_ok (aq_policy ?r)" "aq_ceiling ?r = ceiling_for (aq_policy ?r) ''agent'' []"
    by (simp_all add: sample_policy_ok)
  have g: "no_permission_glob (aq_policy ?r)" "plain_subject (EntitySubject page_subject)"
    "dn_allow (authorize_write unprimed ?r OpUpdate (EntitySubject page_subject))"
    by code_simp+
  show ?thesis by (rule client_never_gains [OF p g])
qed

definition part_subject :: relation_subject where
  "part_subject = \<lparr>rs_type = ''part-of'', rs_from_type = ''page'', rs_from_id = ''P-1'', rs_from_face = [], rs_family_faces = []\<rparr>"

theorem relation_write_guarded_witness:
  "faces_allow (ceiling_request loaded_sample ''agent'') OpCreate part_subject"
proof -
  let ?r = "ceiling_request loaded_sample ''agent''"
  have p: "policy_ok (aq_policy ?r)" by (simp add: sample_policy_ok)
  have a: "dn_allow (authorize_write unprimed ?r OpCreate (RelationSubject part_subject))" by code_simp
  have "rs_type part_subject \<in> set (po_inherit (aq_policy ?r))" by code_simp
  with relation_write_guarded [OF p a] show ?thesis by blast
qed



end
