(* ===== verification/Acl_Store.thy ===== *)
theory Acl_Store
  imports Acl_Prime Acl_Decide
begin

text \<open>
  The graph and the principal lookup over a store (\<^verbatim>\<open>internal/aclstore\<close>), and the evaluation of a policy
  on the in-memory store. The interfaces \<open>acl_source\<close> and \<open>acl_batch\<close> are discharged here, and the
  decisions are stated over the edges and entities the store holds.
\<close>

section \<open>The adapter\<close>

definition store_has_edge :: "string list \<Rightarrow> memstore \<Rightarrow> string \<Rightarrow> string \<Rightarrow> string \<Rightarrow> bool" where
  "store_has_edge revealed m n rel t =
     (case get_relation revealed \<lparr>rk_from = n, rk_from_face = [], rk_type = rel, rk_to = t\<rparr> m of Ok r \<Rightarrow> True | _ \<Rightarrow> False)"

text \<open>A loop over an iterator that returns at its first error.\<close>

fun pull_all :: "(row_error + 'a) list \<Rightarrow> acl_error + 'a list" where
  "pull_all [] = Inr []"
| "pull_all (Inl e # rows) = Inl (GraphFailed ''list'')"
| "pull_all (Inr x # rows) = map_sum id (\<lambda>xs. x # xs) (pull_all rows)"

definition edge_query :: "string \<Rightarrow> direction \<Rightarrow> relation_query" where
  "edge_query rel dir = \<lparr>rq_type = rel, rq_from = [], rq_to = [], rq_entity = [], rq_direction = dir, rq_limit = 0,
     rq_cursor = [], rq_entities = None, rq_peers = None, rq_from_face = None\<rparr>"

definition store_outgoing :: "string list \<Rightarrow> memstore \<Rightarrow> string \<Rightarrow> string \<Rightarrow> acl_error + string list" where
  "store_outgoing revealed m n rel =
     map_sum id (map rel_to)
       (pull_all (stream (list_relations revealed ((edge_query rel DirectionOutgoing)\<lparr>rq_entity := n\<rparr>) m)))"

definition store_graph :: "string list \<Rightarrow> memstore \<Rightarrow> acl_graph" where
  "store_graph revealed m = \<lparr>ag_has_edge = store_has_edge revealed m, ag_outgoing = store_outgoing revealed m\<rparr>"

definition edges_between :: "string list \<Rightarrow> memstore \<Rightarrow> string \<Rightarrow> string list \<Rightarrow> string list \<Rightarrow> acl_error + (string \<times> string) list" where
  "edges_between revealed m rel froms tos =
     (if froms = [] \<or> tos = [] then Inr []
      else map_sum id (map (\<lambda>r. (rel_from r, rel_to r)))
        (pull_all (stream (list_relations revealed
           ((edge_query rel DirectionIncoming)\<lparr>rq_entities := Some tos, rq_peers := Some froms, rq_from_face := Some []\<rparr>) m))))"

definition by_source :: "relation \<Rightarrow> string list dict \<Rightarrow> string list dict" where
  "by_source r out = dict_set (rel_from r) ((case dict_get out (rel_from r) of None \<Rightarrow> [] | Some ts \<Rightarrow> ts) @ [rel_to r]) out"

definition outgoing_from_many :: "string list \<Rightarrow> memstore \<Rightarrow> string \<Rightarrow> string list \<Rightarrow> acl_error + string list dict" where
  "outgoing_from_many revealed m rel froms =
     (if froms = [] then Inr []
      else map_sum id (\<lambda>rs. fold by_source rs [])
        (pull_all (stream (list_relations revealed ((edge_query rel DirectionOutgoing)\<lparr>rq_entities := Some froms\<rparr>) m))))"

definition store_batcher :: "string list \<Rightarrow> memstore \<Rightarrow> edge_batcher" where
  "store_batcher revealed m = \<lparr>eb_between = edges_between revealed m, eb_outgoing = outgoing_from_many revealed m\<rparr>"

text \<open>\<open>LookupEntityByProperty\<close>: one scalar equality on the default face; the ids in store order.\<close>

definition property_query :: "string \<Rightarrow> string \<Rightarrow> string \<Rightarrow> graph_query" where
  "property_query t prop v = \<lparr>gq_type = t,
     gq_props = [\<lparr>pp_property = prop, pp_op = PropEqual, pp_value = v, pp_scalar = True, pp_key = []\<rparr>],
     gq_inbound = None, gq_outbound = None, gq_faces = SelectFaces [[]], gq_face_in = [], gq_any = [],
     gq_skip_unreadable = False, gq_narrowing = [], gq_related = [], gq_order = [], gq_limit = 0, gq_offset = 0\<rparr>"

fun header_ids :: "(graph_error + entity) list \<Rightarrow> acl_error + string list" where
  "header_ids [] = Inr []"
| "header_ids (Inl e # rows) = Inl (MatcherFailed e)"
| "header_ids (Inr x # rows) = map_sum id (\<lambda>xs. ent_id x # xs) (header_ids rows)"

definition lookup_by_property :: "graph_reader \<Rightarrow> string \<Rightarrow> string \<Rightarrow> string \<Rightarrow> acl_error + string list" where
  "lookup_by_property reader t prop v =
     (if v = [] then Inr []
      else case run_query reader (property_query t prop v) of
        None \<Rightarrow> Inl (GraphFailed ''panic'')
      | Some rows \<Rightarrow> header_ids rows)"

section \<open>What the store lists\<close>

lemma pull_all_rows [simp]: "pull_all (map Inr xs) = Inr xs"
  by (induction xs) simp_all

lemma relations_at_rows: "relations_at d ks = Ok rs \<Longrightarrow> set rs = {r. \<exists>k\<in>set ks. dict_get d k = Some r}"
  by (induction ks arbitrary: rs) (auto simp: bind_out_Ok panic_none_Ok)

lemma listed_relations:
  assumes "sound m"
  shows "\<exists>all. set all = rels m \<and> (\<forall>q. list_relations [] q m = Ok (filter (\<lambda>r. match_relation r q) all))"
proof -
  obtain rs where rs: "relations_at (ms_relations m) (ms_relation_order m) = Ok rs"
    using sound_relations [OF assms, of "[]"] by (auto simp: list_relations_def bind_out_Ok)
  have k: "keyed relation_key (ms_relations m)" and o: "set (ms_relation_order m) = relation_key ` rels m"
    using assms by (auto simp: sound_def relation_index_def rels_def)
  have "set rs = rels m"
    unfolding relations_at_rows [OF rs] o using keyed_get [OF k] by (auto simp: rels_def)
  moreover have "list_relations [] q m = Ok (filter (\<lambda>r. match_relation r q) rs)" for q
    by (simp add: list_relations_def rs reveals_def)
  ultimately show ?thesis by blast
qed

section \<open>The store keeps the promises of the graph\<close>

definition edges :: "memstore \<Rightarrow> string \<Rightarrow> (string \<times> string) set" where
  "edges m rel = {(n, t). \<exists>r\<in>rels m. rel_type r = rel \<and> rel_from r = n \<and> rel_to r = t}"

text \<open>A relation type whose edges are exact under their key: its name is regular and its edges have no face.\<close>

definition identity_scoped :: "memstore \<Rightarrow> string \<Rightarrow> bool" where
  "identity_scoped m rel \<longleftrightarrow> validate_relation_type rel = None \<and> hd rel \<noteq> CHR ''-'' \<and>
     (\<forall>r\<in>rels m. rel_type r = rel \<longrightarrow> rel_from_face r = [])"

definition valid_id :: "string \<Rightarrow> bool" where
  "valid_id i \<longleftrightarrow> validate_id i = None"

lemma edge_canonical: "sound m \<Longrightarrow> r \<in> rels m \<Longrightarrow> canonical_key (relation_identity r)"
  by (auto simp: sound_def links_def edge_ok_def)

lemma store_edge:
  assumes m: "sound m" and s: "identity_scoped m rel" and n: "valid_id n" and t: "valid_id t"
  shows "store_has_edge [] m n rel t \<longleftrightarrow> (n, t) \<in> edges m rel"
proof -
  let ?k = "\<lparr>rk_from = n, rk_from_face = [], rk_type = rel, rk_to = t\<rparr>"
  have c: "canonical_key ?k"
    using s n t by (simp add: canonical_key_def identity_scoped_def valid_id_def valid_face_slot_def is_implicit_def)
  have k: "keyed relation_key (ms_relations m)" using sound_keyed(2) [OF m] .
  have "store_has_edge [] m n rel t \<longleftrightarrow> (\<exists>r. dict_get (ms_relations m) (relation_key_string ?k) = Some r)"
    by (auto simp: store_has_edge_def get_relation_def reveals_def Let_def split: option.split)
  also have "\<dots> \<longleftrightarrow> (\<exists>r\<in>rels m. relation_key_string ?k = relation_key r)"
    by (auto simp: keyed_get [OF k] rels_def)
  also have "\<dots> \<longleftrightarrow> (\<exists>r\<in>rels m. relation_identity r = ?k)"
    using relation_key_inject [OF c] edge_canonical [OF m] by (force simp: relation_key_def)
  also have "\<dots> \<longleftrightarrow> (n, t) \<in> edges m rel"
    using s by (auto simp: edges_def relation_identity_def identity_scoped_def)
  finally show ?thesis .
qed

lemma match_edge:
  "rel \<noteq> [] \<Longrightarrow> n \<noteq> [] \<Longrightarrow> match_relation r ((edge_query rel DirectionOutgoing)\<lparr>rq_entity := n\<rparr>) \<longleftrightarrow> rel_type r = rel \<and> rel_from r = n"
  by (auto simp: match_relation_def edge_query_def endpoint_matches_def)

lemma match_sources:
  "rel \<noteq> [] \<Longrightarrow> match_relation r ((edge_query rel DirectionOutgoing)\<lparr>rq_entities := Some ns\<rparr>) \<longleftrightarrow> rel_type r = rel \<and> rel_from r \<in> set ns"
  by (auto simp: match_relation_def edge_query_def endpoint_matches_def)

lemma match_between:
  "rel \<noteq> [] \<Longrightarrow> match_relation r ((edge_query rel DirectionIncoming)\<lparr>rq_entities := Some tos, rq_peers := Some froms, rq_from_face := Some []\<rparr>) \<longleftrightarrow>
     rel_type r = rel \<and> rel_from_face r = [] \<and> rel_to r \<in> set tos \<and> rel_from r \<in> set froms"
  by (auto simp: match_relation_def edge_query_def endpoint_matches_def peer_direction_def)

lemma by_source_one:
  "dict_get (by_source r out) n = (if n = rel_from r
     then Some ((case dict_get out n of None \<Rightarrow> [] | Some us \<Rightarrow> us) @ [rel_to r]) else dict_get out n)"
  by (simp add: by_source_def dict_simps)

lemma by_source_get:
  "dict_get (fold by_source rs out) n =
    (let ts = map rel_to (filter (\<lambda>r. rel_from r = n) rs)
     in if ts = [] then dict_get out n else Some ((case dict_get out n of None \<Rightarrow> [] | Some us \<Rightarrow> us) @ ts))"
proof (induction rs arbitrary: out)
  case (Cons r rs)
  show ?case
    by (cases "rel_from r = n") (auto simp: Cons.IH by_source_one Let_def split: option.split)
qed simp

lemma by_source_ok: "dict_ok out \<Longrightarrow> dict_ok (fold by_source rs out)"
  by (induction rs arbitrary: out) (simp_all add: by_source_def)

lemma scoped_type: "identity_scoped m rel \<Longrightarrow> rel \<noteq> []"
  by (auto simp: identity_scoped_def validate_relation_type_def)

interpretation store: acl_batch "store_graph []" sound edges valid_id identity_scoped "store_batcher []"
proof
  fix m n rel t
  assume m: "sound m"
  obtain all where all: "set all = rels m" "\<And>q. list_relations [] q m = Ok (filter (\<lambda>r. match_relation r q) all)"
    using listed_relations [OF m] by auto
  have out: "ag_outgoing (store_graph [] m) n rel = Inr (map rel_to (filter (\<lambda>r. rel_type r = rel \<and> rel_from r = n) all))"
    if "n \<noteq> []" "rel \<noteq> []" for n rel
    using that by (simp add: store_graph_def store_outgoing_def all(2) stream_def match_edge)
  show "\<exists>ts. ag_outgoing (store_graph [] m) n rel = Inr ts \<and> set ts = edges m rel `` {n}" if "n \<noteq> []" "rel \<noteq> []"
    using out [OF that] all(1) by (auto simp: edges_def)
  show "ag_has_edge (store_graph [] m) n rel t \<longleftrightarrow> (n, t) \<in> edges m rel" if "identity_scoped m rel" "valid_id n" "valid_id t"
    using store_edge [OF m that] by (simp add: store_graph_def)
  show "valid_id t" if "(n, t) \<in> edges m rel"
    using that edge_canonical [OF m] by (auto simp: edges_def valid_id_def canonical_key_def relation_identity_def)
  show "\<exists>es. eb_between (store_batcher [] m) rel ms ts = Inr es" for ms ts
    by (simp add: store_batcher_def edges_between_def all(2) stream_def)
  show "\<exists>es. eb_between (store_batcher [] m) rel ms ts = Inr es \<and>
      (\<forall>x t. (x, t) \<in> set es \<longleftrightarrow> x \<in> set ms \<and> t \<in> set ts \<and> (x, t) \<in> edges m rel)" if s: "identity_scoped m rel" for ms ts
    using s scoped_type [OF s] all(1)
    by (auto simp: store_batcher_def edges_between_def all(2) stream_def match_between edges_def identity_scoped_def)
  show "\<exists>d. eb_outgoing (store_batcher [] m) rel ns = Inr d \<and> dict_ok d \<and> dict_keys d \<subseteq> set ns \<and>
      (\<forall>n\<in>set ns. n \<noteq> [] \<longrightarrow> ag_outgoing (store_graph [] m) n rel = Inr (case dict_get d n of None \<Rightarrow> [] | Some ts \<Rightarrow> ts))"
    if r: "rel \<noteq> []" for ns
  proof (cases "ns = []")
    case False
    let ?rs = "filter (\<lambda>r. rel_type r = rel \<and> rel_from r \<in> set ns) all" and ?d = "fold by_source (filter (\<lambda>r. rel_type r = rel \<and> rel_from r \<in> set ns) all) []"
    have g: "dict_get ?d n = (let ts = map rel_to (filter (\<lambda>r. rel_type r = rel \<and> rel_from r = n) all)
        in if ts = [] then None else Some ts)" if "n \<in> set ns" for n
    proof -
      have "filter (\<lambda>r. rel_from r = n) ?rs = filter (\<lambda>r. rel_type r = rel \<and> rel_from r = n) all"
        using that by (auto intro: filter_cong)
      then show ?thesis by (simp add: by_source_get Let_def)
    qed
    have "dict_keys ?d \<subseteq> set ns"
    proof
      fix n assume "n \<in> dict_keys ?d"
      then have "dict_get ?d n \<noteq> None" by (simp add: dict_get_None)
      then show "n \<in> set ns" by (auto simp: by_source_get Let_def filter_empty_conv split: if_splits)
    qed
    moreover have "eb_outgoing (store_batcher [] m) rel ns = Inr ?d"
      using False r by (simp add: store_batcher_def outgoing_from_many_def all(2) stream_def match_sources)
    ultimately show ?thesis
      using out r g by (auto simp: by_source_ok Let_def)
  qed (simp add: store_batcher_def outgoing_from_many_def dict_keys_def)
next
  show "n \<noteq> []" if "valid_id n" for n
    using that by (auto simp: valid_id_def validate_id_def)
qed

section \<open>Requests on the store\<close>

lemma inherit_nonempty: "policy_ok p \<Longrightarrow> \<forall>rel\<in>set (po_inherit p). rel \<noteq> []"
  by (auto simp: policy_ok_def is_blank_def)

text \<open>The members of a user and the chain of an entity, over the stored edges.\<close>

definition members_of :: "memstore \<Rightarrow> policy \<Rightarrow> string \<Rightarrow> string set" where
  "members_of m p user = reach_within (edges m (membership_relation p)) acl_depth_cap {user}"

definition chain_of :: "memstore \<Rightarrow> policy \<Rightarrow> string \<Rightarrow> string set" where
  "chain_of m p i = reach_within (\<Union>rel\<in>set (po_inherit p). edges m rel) acl_depth_cap {i}"

text \<open>What evaluation on the store takes for granted: the policy is well formed, the edges that confer and inherit
  roles have no face, and the user names a valid id.\<close>

definition evaluable :: "memstore \<Rightarrow> policy \<Rightarrow> principal \<Rightarrow> bool" where
  "evaluable m p who \<longleftrightarrow> policy_ok p \<and> dict_ok (po_role_relations p) \<and>
     (\<forall>rel\<in>dict_keys (po_role_relations p) \<union> set (po_inherit p). identity_scoped m rel) \<and>
     valid_id (pr_user who) \<and> \<not> is_unstamped who"

definition over_store :: "memstore \<Rightarrow> policy \<Rightarrow> declarative" where
  "over_store m p = \<lparr>de_policy = p, de_graph = store_graph [] m,
     de_matcher = matching_faces (mem_reader [] m), de_lookup = Some (lookup_by_property (mem_reader [] m))\<rparr>"

lemma confers_key: "confers p rel \<noteq> [] \<Longrightarrow> rel \<in> dict_keys (po_role_relations p)"
  using dict_get_None [of "po_role_relations p" rel] by (cases "dict_get (po_role_relations p) rel") (auto simp: confers_def)

lemma conferring_scoped:
  assumes "evaluable m p who" "rel \<in> set (conferring_relations p)"
  shows "identity_scoped m rel"
proof -
  have "confers p rel \<noteq> []" using assms by (simp add: evaluable_def conferring_set)
  then have "rel \<in> dict_keys (po_role_relations p)" by (rule confers_key)
  then show ?thesis using assms(1) by (simp add: evaluable_def)
qed

lemma chain_ok:
  assumes "sound m" "policy_ok p" "valid_id i"
  shows "(\<forall>x\<in>set (ancestors p (store_graph [] m) i). valid_id x) \<and> set (ancestors p (store_graph [] m) i) = chain_of m p i"
  using store.ancestors_reach [OF assms(1,3) inherit_nonempty [OF assms(2)]]
  by (simp add: chain_of_def store.links_of_def)

text \<open>The request opened for a principal.\<close>

lemma request_opens:
  assumes "sound m" "evaluable m p who"
  shows "\<exists>r. open_request (over_store m p) who = Inr r \<and> aq_policy r = p \<and> aq_declarative r = over_store m p \<and>
    aq_principal r = who \<and> aq_globals r = global_roles p who (aq_members r) \<and>
    aq_ceiling r = ceiling_for p (principal_type who) (pr_scopes who) \<and>
    distinct (aq_members r) \<and> (\<forall>x\<in>set (aq_members r). valid_id x) \<and> set (aq_members r) = members_of m p (pr_user who)"
proof -
  have "\<not> is_unstamped who" "valid_id (pr_user who)" using assms(2) by (simp_all add: evaluable_def)
  moreover obtain ms where "walk_members p (store_graph [] m) (pr_user who) = Inr ms" "distinct ms" "\<forall>x\<in>set ms. valid_id x"
    "set ms = members_of m p (pr_user who)"
    using store.members_reach [OF assms(1) calculation(2), of p] by (auto simp: members_of_def)
  ultimately show ?thesis
    by (simp add: open_request_def resolve_direct_def over_store_def for_identity_def Let_def aq_policy_def)
qed

lemma store_names:
  assumes m: "sound m" and e: "evaluable m (aq_policy r) who" and d: "aq_declarative r = over_store m (aq_policy r)"
    and g: "aq_globals r = global_roles (aq_policy r) who (aq_members r)"
    and ms: "\<forall>x\<in>set (aq_members r). valid_id x" and i: "valid_id i" and "primed i = None"
  shows "at_role ` set (compute_for_entity primed r i) =
    held_roles (aq_policy r) who (set (aq_members r)) (chain_of m (aq_policy r) i) (edges m)"
proof -
  have gr: "aq_graph r = store_graph [] m" by (simp add: aq_graph_def d over_store_def)
  have p: "policy_ok (aq_policy r)" and o: "dict_ok (po_role_relations (aq_policy r))" using e by (simp_all add: evaluable_def)
  note c = chain_ok [OF m p i]
  have "ag_has_edge (aq_graph r) x rel t \<longleftrightarrow> (x, t) \<in> edges m rel"
    if "confers (aq_policy r) rel \<noteq> []" "x \<in> set (aq_members r)" "t \<in> set (ancestors (aq_policy r) (aq_graph r) i)" for rel x t
  proof -
    have "rel \<in> dict_keys (po_role_relations (aq_policy r))" using that(1) by (rule confers_key)
    then have "identity_scoped m rel" using e by (simp add: evaluable_def)
    then show ?thesis using store_edge [OF m, of rel x t] ms c that(2,3) by (simp add: gr store_graph_def)
  qed
  note edge = this
  have "at_role ` set (compute_for_entity primed r i) =
      held_roles (aq_policy r) who (set (aq_members r)) (set (ancestors (aq_policy r) (aq_graph r) i)) (edges m)"
    by (rule compute_names [where r = r and i = i and primed = primed and who = who and edge = "edges m", OF o assms(7) g edge])
  with c show ?thesis by (simp add: gr)
qed

section \<open>Writes\<close>

text \<open>
  C8: Which entity writes are allowed, on the in-memory store. For a well-formed policy whose conferring and
  inherited relations carry no face, a stamped principal with a valid id opens a request, and a write on a
  valid entity id is allowed exactly when the client ceiling permits the verb on the type and some role the
  principal holds grants it on that face. The roles held are those declared that are implicit for everyone,
  assigned to the user or to a group it reaches in at most five membership steps, asserted by a claim, or
  conferred by an edge from one of those members to the entity or to an ancestor within five inherited steps.
\<close>
theorem write_answer_exact:
  assumes "reachable sha rw m" and "evaluable m p who" and "valid_id (es_id s)" and "\<not> es_family s"
    and "\<not> is_state_grant (es_type s)"
  shows "\<exists>r. open_request (over_store m p) who = Inr r \<and>
    (dn_allow (authorize_write (\<lambda>i. None) r verb (EntitySubject s)) \<longleftrightarrow>
      permits_verb (ceiling_for p (principal_type who) (pr_scopes who)) verb (es_type s) \<and>
      (\<exists>name\<in>held_roles p who (members_of m p (pr_user who)) (chain_of m p (es_id s)) (edges m).
         \<exists>role. dict_get (po_roles p) name = Some role \<and> grants_verb_on_state role verb (es_type s) (es_face s)))"
proof -
  note m = reachable_sound [OF assms(1)]
  obtain r where r: "open_request (over_store m p) who = Inr r" "aq_policy r = p" "aq_declarative r = over_store m p"
    "aq_globals r = global_roles p who (aq_members r)" "aq_ceiling r = ceiling_for p (principal_type who) (pr_scopes who)"
    "\<forall>x\<in>set (aq_members r). valid_id x" "set (aq_members r) = members_of m p (pr_user who)"
    using request_opens [OF m assms(2)] by blast
  have c: "ceiling_ok (aq_ceiling r)" using assms(2) r(5) by (simp add: evaluable_def policy_ok_def ceiling_for_ok)
  have n: "at_role ` set (compute_for_entity (\<lambda>i. None) r (es_id s)) =
      held_roles p who (members_of m p (pr_user who)) (chain_of m p (es_id s)) (edges m)"
    using store_names [OF m, of r who "es_id s" "\<lambda>i. None"] assms(2,3) r by simp
  have "es_id s \<noteq> []" using assms(3) by (auto simp: valid_id_def validate_id_def)
  then have "dn_allow (authorize_write (\<lambda>i. None) r verb (EntitySubject s)) \<longleftrightarrow>
      permits_verb (aq_ceiling r) verb (es_type s) \<and>
      (\<exists>name\<in>at_role ` set (compute_for_entity (\<lambda>i. None) r (es_id s)).
         \<exists>role. role_for (unclamped r) name = Some role \<and> grants_verb_on_state role verb (es_type s) (es_face s))"
    using assms(4) decide_roles_allow [of "unclamped r" "\<lambda>role. grants_verb_on_state role verb (es_type s) (es_face s)"
        "compute_for_entity (\<lambda>i. None) r (es_id s)"]
    by (simp add: authorize_write_def authorize_entity_write_def Let_def decide_intersects [OF c assms(5)])
      (simp add: decided_by_def decide_from_attrs_def)
  then show ?thesis using r(1,2,5) n by (intro exI [of _ r]) simp
qed

section \<open>Priming a page\<close>

definition primed_pages :: "acl_request \<Rightarrow> edge_batcher \<Rightarrow> string list list \<Rightarrow> prime" where
  "primed_pages r b pages = fold (prime_local_roles r (Some b)) pages (\<lambda>i. None)"

lemma authorize_prime_cong:
  "(\<And>i. compute_for_entity primed r i = compute_for_entity primed' r i) \<Longrightarrow> authorize_write primed r verb s = authorize_write primed' r verb s"
  by (simp add: authorize_write_def authorize_entity_write_def Let_def split: subject.split)

text \<open>
  C9: Priming changes no answer. On the in-memory store, under an evaluable policy, a request that has primed any
  pages of ids, one after the other, each id empty or valid, answers every write, and finds for every entity the
  same attributions in the same order, as the request that walks the graph for each entity.
\<close>
theorem prime_changes_nothing:
  assumes "reachable sha rw m" and "evaluable m p who" and "open_request (over_store m p) who = Inr r"
    and "\<forall>js\<in>set pages. \<forall>j\<in>set js. j = [] \<or> valid_id j"
  shows "compute_for_entity (primed_pages r (store_batcher [] m) pages) r i = compute_for_entity (\<lambda>i. None) r i \<and>
    authorize_write (primed_pages r (store_batcher [] m) pages) r verb s = authorize_write (\<lambda>i. None) r verb s"
proof -
  note m = reachable_sound [OF assms(1)]
  have r: "aq_policy r = p" "aq_declarative r = over_store m p" "\<forall>x\<in>set (aq_members r). valid_id x"
    using request_opens [OF m assms(2)] assms(3) by auto
  have g: "aq_graph r = store_graph [] m" by (simp add: aq_graph_def r(2) over_store_def)
  have inh: "\<forall>rel\<in>set (po_inherit (aq_policy r)). rel \<noteq> []"
    using assms(2) inherit_nonempty [of p] by (simp add: r(1) evaluable_def)
  have sc: "\<forall>rel\<in>set (conferring_relations (aq_policy r)). identity_scoped m rel"
    using conferring_scoped [OF assms(2)] by (simp add: r(1))
  have "\<forall>x. compute_for_entity parent r x = compute_for_entity (\<lambda>x. None) r x \<Longrightarrow>
      \<forall>x. compute_for_entity (fold (prime_local_roles r (Some (store_batcher [] m))) pages parent) r x = compute_for_entity (\<lambda>x. None) r x" for parent
    using assms(4)
  proof (induction pages arbitrary: parent)
    case (Cons js pages)
    have "\<forall>x\<in>set js. x \<noteq> [] \<longrightarrow> valid_id x" using Cons.prems(2) by auto
    from store.prime_ok [OF m g inh sc r(3) this Cons.prems(1)] Cons show ?case by simp
  qed simp
  from this [of "\<lambda>i. None"] have "compute_for_entity (primed_pages r (store_batcher [] m) pages) r x = compute_for_entity (\<lambda>x. None) r x" for x
    by (simp add: primed_pages_def)
  then show ?thesis using authorize_prime_cong by blast
qed

section \<open>A sample store\<close>

definition tie :: "string \<Rightarrow> string \<Rightarrow> string \<Rightarrow> relation_key" where
  "tie i rel j = \<lparr>rk_from = i, rk_from_face = [], rk_type = rel, rk_to = j\<rparr>"

text \<open>U-1 is in the group G-1, which owns the binder B-1, which the note N-1 is part of; N-1 has a draft.\<close>

definition team_run :: "(int \<times> store_write) list" where
  "team_run =
     [(1, CreateEntity (new_entity ''U-1'' ''user'')), (2, CreateEntity (new_entity ''G-1'' ''group'')),
      (3, CreateEntity (new_entity ''B-1'' ''binder'')), (4, CreateEntity (new_entity ''N-1'' ''note'')),
      (5, CreateEntity ((new_entity ''N-1'' ''note'')\<lparr>ent_face := ''draft''\<rparr>)),
      (6, CreateRelation (tie ''U-1'' ''member-of'' ''G-1'') None), (7, CreateRelation (tie ''G-1'' ''owner'' ''B-1'') None),
      (8, CreateRelation (tie ''N-1'' ''part-of'' ''B-1'') None)]"

definition team_store :: memstore where
  "team_store = (case each_out (run_write id plain_rewrite) team_run new_store of Ok m \<Rightarrow> m | _ \<Rightarrow> new_store)"

lemma team_store_reachable: "reachable id plain_rewrite team_store"
proof -
  have "case each_out (run_write id plain_rewrite) team_run new_store of Ok m \<Rightarrow> True | _ \<Rightarrow> False" by code_simp
  then have "each_out (run_write id plain_rewrite) team_run new_store = Ok team_store"
    by (auto simp: team_store_def split: outcome.splits)
  then show ?thesis by (rule run_reachable [OF reachable.start])
qed

definition team_user :: principal where
  "team_user = verified_from ''U-1'' ''cli'' no_claims"

definition team_request :: acl_request where
  "team_request = projr (open_request (over_store team_store loaded_sample) team_user)"

lemma team_evaluable: "evaluable team_store loaded_sample team_user"
proof -
  have "dict_ok (po_role_relations loaded_sample)" by code_simp
  moreover have "\<forall>rel\<in>dict_keys (po_role_relations loaded_sample) \<union> set (po_inherit loaded_sample). identity_scoped team_store rel"
    by code_simp
  moreover have "valid_id (pr_user team_user)" "\<not> is_unstamped team_user" by code_simp+
  ultimately show ?thesis by (simp add: evaluable_def sample_policy_ok)
qed

definition note_subject :: entity_subject where
  "note_subject = \<lparr>es_type = ''note'', es_id = ''N-1'', es_face = [], es_family = False, es_convert_to = []\<rparr>"

theorem write_answer_exact_witness:
  "''reviewer'' \<in> dict_keys (po_roles loaded_sample) \<and>
   (\<exists>name\<in>held_roles loaded_sample team_user (members_of team_store loaded_sample ''U-1'') (chain_of team_store loaded_sample ''N-1'')
        (edges team_store).
      \<exists>role. dict_get (po_roles loaded_sample) name = Some role \<and> grants_verb_on_state role OpUpdate ''note'' [])"
proof -
  have s: "valid_id (es_id note_subject)" "\<not> es_family note_subject" "\<not> is_state_grant (es_type note_subject)"
    by code_simp+
  have u: "pr_user team_user = ''U-1''" by code_simp
  have a: "dn_allow (authorize_write (\<lambda>i. None) team_request OpUpdate (EntitySubject note_subject))" by code_simp
  from write_answer_exact [OF team_store_reachable team_evaluable s, of OpUpdate]
  have "\<exists>name\<in>held_roles loaded_sample team_user (members_of team_store loaded_sample ''U-1'') (chain_of team_store loaded_sample ''N-1'')
      (edges team_store). \<exists>role. dict_get (po_roles loaded_sample) name = Some role \<and> grants_verb_on_state role OpUpdate ''note'' []"
    using a by (auto simp: team_request_def note_subject_def u)
  moreover have "''reviewer'' \<in> dict_keys (po_roles loaded_sample)" by code_simp
  ultimately show ?thesis by blast
qed

theorem prime_changes_nothing_witness:
  "dn_allow (authorize_write (primed_pages team_request (store_batcher [] team_store) [[''N-1'', [], ''B-1''], [''N-1'']])
     team_request OpDelete (EntitySubject note_subject))"
proof -
  have o: "open_request (over_store team_store loaded_sample) team_user = Inr team_request"
  proof -
    have "case open_request (over_store team_store loaded_sample) team_user of Inr r \<Rightarrow> True | Inl e \<Rightarrow> False" by code_simp
    then show ?thesis by (auto simp: team_request_def split: sum.splits)
  qed
  have v: "\<forall>js\<in>set [[''N-1'', [], ''B-1''], [''N-1'']]. \<forall>j\<in>set js. j = [] \<or> valid_id j" by code_simp
  have "dn_allow (authorize_write (\<lambda>i. None) team_request OpDelete (EntitySubject note_subject))" by code_simp
  with prime_changes_nothing [OF team_store_reachable team_evaluable o v, of _ OpDelete "EntitySubject note_subject"]
  show ?thesis by simp
qed

end
