(* ===== verification/Acl_Gate.thy ===== *)
theory Acl_Gate
  imports Acl_Store
begin

text \<open>
  The read gate on the in-memory store: the read plan of a type is run as a graph query, and the faces it
  answers are those some role grants on the entity. Reads take the same edges as the roles of a write, with
  one difference that is stated and shown: a role held globally hides the roles held on the entity.
\<close>

section \<open>The same chain, walked by the query\<close>





section \<open>The conferring edge as a predicate\<close>


section \<open>The faces a role reads\<close>






section \<open>The conferring relations of a read\<close>



section \<open>The gate\<close>




















section \<open>A role held everywhere hides a role held here\<close>





section \<open>Who a principal is\<close>

lemma header_ids_rows: "header_ids (map Inr xs) = Inr (map ent_id xs)"
  by (induction xs) simp_all

text \<open>The user entities that carry a principal's name.\<close>

definition users_named :: "memstore \<Rightarrow> policy \<Rightarrow> string \<Rightarrow> entity set" where
  "users_named m p raw = {e \<in> ents m. ent_type e = po_user_type p \<and> ent_face e = [] \<and>
     dict_get (ent_props e) (po_property p) = Some (VStr raw)}"

lemma property_row:
  assumes m: "sound m" and t: "t \<noteq> []" and v: "v \<noteq> []"
  shows "set (answers (mem_reader [] m) (property_query t prop v)) =
    {e \<in> ents m. ent_type e = t \<and> ent_face e = [] \<and> dict_get (ent_props e) prop = Some (VStr v)}"
    and "distinct (answers (mem_reader [] m) (property_query t prop v))"
    and "check_query_shape (property_query t prop v) = None"
proof -
  let ?q = "property_query t prop v" and ?r = "mem_reader [] m"
  show sh: "check_query_shape ?q = None"
    by (simp add: check_query_shape_def property_query_def first_error_None sel_validate_def validate_prop_predicates_def
        validate_prop_predicate_def check_predicate_def)
  have qm: "query_matches (candidate_query ?q (gq_faces ?q)) x \<longleftrightarrow> ent_type x = t \<and> ent_face x = []" for x
    using t by (auto simp: query_matches_def match_entity_query_def candidate_query_def property_query_def sel_is_trivial_def
        sel_admits_def sel_world_def sel_is_all_def sel_faces_def is_implicit_def)
  have rw: "ws_is_trivial (ranking_world (candidate_query ?q (gq_faces ?q)))"
    by (simp add: ranking_world_def candidate_query_def property_query_def sel_world_def unset_scope_def ws_is_trivial_def)
  have mt: "matches ?r x ?q = Inr True \<longleftrightarrow> dict_get (ent_props x) prop = Some (VStr v)" for x
    using v by (auto simp: matches_def property_query_def matches_props_def matches_narrowing_def optional_predicate_def matches_prop_def
        prop_value_def split: option.splits)
  have any: "gq_any ?q = []" by (simp add: property_query_def)
  show "set (answers ?r ?q) = {e \<in> ents m. ent_type e = t \<and> ent_face e = [] \<and> dict_get (ent_props e) prop = Some (VStr v)}"
    using rw by (intro set_eqI) (simp add: answers_iff [OF m sh] serves_def mt seen_rows_def qm any rows_are_ents(1) [OF m])
  have "\<not> is_branched ?q" by (simp add: is_branched_def any)
  then obtain es where es: "read_entities ?r (candidate_query ?q (gq_faces ?q)) = map Inr es" "collect_by_type ?r ?q = Inr es"
    using collect_ok [OF mem_clean [OF m] sh] by auto
  have "distinct es" using mem.rows_plain [OF m es(1)] by (simp add: plain_rows_def distinct_map)
  then show "distinct (answers ?r ?q)" by (simp add: answers_def candidates_def es(2))
qed

text \<open>
  C14: Who a request is taken to be. With the lookup enabled, on the in-memory store, a raw name that is not blank
  resolves to the one user entity whose default face carries that text, as a single text value, in the configured
  property; to nobody when no user does; and to the error of an ambiguous principal when several do. It never
  fails otherwise.
\<close>
theorem principal_resolves_uniquely:
  assumes "reachable sha rw m" and "lookup_enabled p" and "trim_space raw \<noteq> []"
  shows "resolve_principal (over_store m p) raw =
    (if users_named m p raw = {} then Inr []
     else if is_singleton (users_named m p raw) then Inr (ent_id (the_elem (users_named m p raw)))
     else Inl AmbiguousPrincipal)"
proof -
  note m = reachable_sound [OF assms(1)]
  let ?q = "property_query (po_user_type p) (po_property p) raw" and ?as = "answers (mem_reader [] m) (property_query (po_user_type p) (po_property p) raw)"
  have n: "po_user_type p \<noteq> []" "raw \<noteq> []" using assms(2,3) by (auto simp: lookup_enabled_def)
  note row = property_row [OF m n, of "po_property p"]
  have "\<not> is_paged ?q" "page_fits ?q" by (simp_all add: is_paged_def page_fits_def property_query_def)
  then have run: "run_query (mem_reader [] m) ?q = Some (map Inr ?as)"
    using mem.run_rows [OF m row(3), of "[]"] by simp
  then have look: "lookup_by_property (mem_reader [] m) (po_user_type p) (po_property p) raw = Inr (map ent_id ?as)"
    using n(2) by (simp add: lookup_by_property_def header_ids_rows)
  have U: "users_named m p raw = set ?as" unfolding users_named_def row(1) ..
  have r: "resolve_principal (over_store m p) raw = (case map ent_id ?as of [] \<Rightarrow> Inr [] | [i] \<Rightarrow> Inr i | _ \<Rightarrow> Inl AmbiguousPrincipal)"
    using assms(2,3) look by (simp add: resolve_principal_def over_store_def)
  show ?thesis
  proof (cases ?as)
    case Nil
    then show ?thesis unfolding r U by simp
  next
    case (Cons x xs)
    show ?thesis
    proof (cases xs)
      case Nil
      then show ?thesis unfolding r U Cons by simp
    next
      case (Cons y ys)
      have "x \<noteq> y" using row(2) \<open>?as = x # xs\<close> Cons by simp
      then have "\<not> is_singleton (set ?as)" unfolding \<open>?as = x # xs\<close> Cons by (auto simp: is_singleton_def)
      then show ?thesis unfolding r U by (simp add: \<open>?as = x # xs\<close> Cons)
    qed
  qed
qed

definition named_user :: "string \<Rightarrow> entity" where
  "named_user i = (new_entity i ''user'')\<lparr>ent_props := [(''mail'', VStr ''ann'')]\<rparr>"

definition mail_policy :: policy where
  "mail_policy = loaded_sample\<lparr>po_user_type := ''user'', po_property := ''mail''\<rparr>"

definition mail_run :: "string list \<Rightarrow> (int \<times> store_write) list" where
  "mail_run names = map (\<lambda>i. (1, CreateEntity (named_user i))) names"

definition mail_store :: "string list \<Rightarrow> memstore" where
  "mail_store names = (case each_out (run_write id plain_rewrite) (mail_run names) new_store of Ok m \<Rightarrow> m | _ \<Rightarrow> new_store)"

theorem principal_resolves_uniquely_witness:
  "is_singleton (users_named (mail_store [''U-1'']) mail_policy ''ann'') \<and>
   resolve_principal (over_store (mail_store [''U-1'']) mail_policy) ''ann'' = Inr ''U-1'' \<and>
   resolve_principal (over_store (mail_store [''U-1'', ''U-2'']) mail_policy) ''ann'' = Inl AmbiguousPrincipal"
proof -
  have "case each_out (run_write id plain_rewrite) (mail_run [''U-1'']) new_store of Ok m \<Rightarrow> True | _ \<Rightarrow> False"
    by code_simp
  then have "each_out (run_write id plain_rewrite) (mail_run [''U-1'']) new_store = Ok (mail_store [''U-1''])"
    by (auto simp: mail_store_def split: outcome.splits)
  then have m: "reachable id plain_rewrite (mail_store [''U-1''])" by (rule run_reachable [OF reachable.start])
  have l: "lookup_enabled mail_policy" "trim_space ''ann'' \<noteq> []" by code_simp+
  have 1: "resolve_principal (over_store (mail_store [''U-1'']) mail_policy) ''ann'' = Inr ''U-1''" by code_simp
  have 2: "resolve_principal (over_store (mail_store [''U-1'', ''U-2'']) mail_policy) ''ann'' = Inl AmbiguousPrincipal" by code_simp
  from principal_resolves_uniquely [OF m l] 1 2 show ?thesis by (auto split: if_splits)
qed

end
