(* ===== verification/Spec2Isabelle.thy ===== *)
theory Spec2Isabelle
  imports Natsort Graph_Mem Flow_Session Lease_Runs Lease_Access Acl_Gate
begin

text \<open>
  rela keeps a graph of typed entities and relations. An entity has an id and one or more faces
  (content states, such as a draft beside a published text); a relation is an edge between ids, and
  belongs either to the whole entity or to one face of it. Everything is kept behind one store
  interface with several backends. Around the store the repository has graph queries, an access policy
  that is evaluated over the same graph, leases that announce who works on an entity, and channels whose
  sessions run through states with timers and reminders. This development models those parts and proves
  what makes each of them correct. All source paths are below \<^verbatim>\<open>src/internal/\<close>.

  \<^bold>\<open>Conventions.\<close> A Go string is a list of bytes, a Go map a dictionary (an association list with
  distinct keys), a slice a list; where a nil and an empty slice differ it is an \<open>option\<close>. A fallible
  function returns a sum, with the error on the left; an operation of the store returns an \<open>outcome\<close>, whose
  third case is a run-time panic. Errors keep their kind and the values the code passes on, not their
  wording. A mutex serialises the calls of a store, so an operation is one step from state to state, and
  concurrency is the order of steps. Words are used where the code keeps unsigned 64-bit counters, and
  \<open>wrap64\<close> is written out where a signed sum can overflow. The trimming and case functions of
  \<open>strings\<close> are modelled on ASCII; the lease and principal checks that look at runes decode UTF-8.
\<close>

section \<open>Theories and the code they model\<close>

text \<open>
  \<^item> Prelude: results, byte strings, dictionaries and wrap-around, with the lemma collections
    \<open>dict_simps\<close> and \<open>str_defs\<close>.
  \<^item> Entity_Id, Entity_Model (entity): ids and their generators, faces, state references, addresses,
    relation keys; the records of an entity and a relation with their accessors.
  \<^item> Natsort (natsort), Sorted_Keys and Store_Rules (store/storeutil, store): natural order; sorted key
    slices, cursors and pages, proved once in the locale \<open>key_order\<close> for the two orders in use; the
    rules that every backend checks at its boundary, and the version token.
  \<^item> World (store/world.go, worldresolve.go, faceselect.go): how a world picks one face of every family,
    face selections, and pages of a world.
  \<^item> Memstore (store/memstore): the state of the in-memory store and every write and read of it.
    Memstore_Inv and Memstore_Steps hold the invariant \<open>sound\<close>, the relation \<open>reachable\<close> over all writes, and
    the predicate \<open>permitted\<close> of the writes that keep the invariant; Memstore_Spec the abstract store (a set of
    rows and a set of edges) and the refinement.
  \<^item> Graph_Query (store/graphquery.go, store/graphquerynaive, propmatch): the shared evaluator of graph queries
    over a reader. Graph_Spec states the locale \<open>graph_source\<close> and what queries guarantee under it; Graph_Mem
    interprets it on the in-memory store.
  \<^item> Go_Time, Flow (flow): calendar arithmetic, and the pure session engine: definitions, instances, timers,
    reminders, cutoffs, the decision over branches. Flow_Spec has its promises. Flow_Session composes the engine
    with what is stored of a session (channels/session.go, realtime): posts, timer fires, reminder posts, reopening
    and recomputing as the step relation \<open>session_run\<close>.
  \<^item> Lease, Lease_KV (lease/lease.go, lease/kvlease): the checks of a lease and the store that keeps all leases
    in one document beside a version key, with every read, write and loss failing on demand. Lease_Spec is the
    abstract book of leases, Lease_Store the contract of lease.Store (locale \<open>lease_store\<close>) and its interpretation
    on the model, Lease_Runs what holds over runs of calls. Lease_Service and Lease_Access (lease/service.go, wake.go)
    are the service in front of any such store (locale \<open>lease_service\<close>) and its promises.
  \<^item> Principal (principal/principal.go): who acts, and the names reserved for the program.
  \<^item> Acl_Policy, Acl_Validate (acl/policy.go, worldgrant.go, ceiling.go, ceilingcompile.go, membershiprefusal.go): roles
    and grants, the client ceiling, and the loading of a policy. Acl_Loaded proves what loading establishes.
  \<^item> Acl_Request (acl/identity.go, resolver.go, localroleprime.go, authz_write.go, readquery.go, faceverdict.go and the rest
    of the evaluation): who the principal is and its groups, the roles it holds globally and on an entity, the
    decisions on writes and the read plans. Acl_Ceiling and Acl_Decide relate decisions with and without the ceiling.
    Acl_Walk and Acl_Prime hold the interfaces of the graph (locales \<open>acl_source\<close> and \<open>acl_batch\<close>), the walks
    over memberships and ancestors, and the batched evaluation of a page. Acl_Store (aclstore) provides both
    interfaces on the in-memory store; Acl_Gate runs the read gate through the graph query evaluator.
\<close>

section \<open>What is proved\<close>

text \<open>
  \<^item> The store: reachable states are sound; no permitted write panics; each write refines one step on sets of
    rows and edges; a soft delete is undone by \<open>Unmark\<close>; a conditional update is a compare-and-swap; pages of a
    listing give the listing, also in a world, and each family of a world gives the face that the rules name.
  \<^item> Graph queries: a checked query answers exactly the rows that its parts admit, does not fail, and count and
    face matching agree with it; the branches of a read ceiling never mix; inheritance is reachability
    within its depth.
  \<^item> Sessions: the stored due time is always the derived one, a timer fires once per generation and not early, a
    reminder posts once per slot and within its maximum, derived schedules are within the caps of the store.
  \<^item> Leases: each method refines the abstract book or fails without a change; a live lease is exclusive; tokens
    increase even over a lost document; the caps hold; a claim needs access, returns a secret that renews it, and
    shows no hash or identity to anybody; a watcher wakes its subscribers when a lease expires.
  \<^item> Access: a loaded policy is well formed; the answers of the write gate and of the read gate on the
    in-memory store are characterised by the edges and rows it holds; the client ceiling intersects; relations
    that give access are guarded; priming a page changes no answer; a name resolves to one user or to an error.
  \<^item> The library keeps further results of the same kind that these do not need, among them the exact domain
    of \<open>GetEntity\<close>, of \<open>ValidateProperties\<close> and of the family replacement check, the linear order of
    natural comparison, and when the version of the lease store moves.
\<close>

section \<open>Bounds\<close>

text \<open>
  Recursions are structural or have a measure; the few that carry a bound carry the one of the code.
  The expansion of a graph query and the walks of the access policy stop after five levels
  (\<open>depth_cap\<close>, \<open>acl_depth_cap\<close>), and their theorems speak of paths of at most that length. Endpoint
  predicates nest no deeper than the shape check admits, so evaluation is total on checked queries. The number
  of pages fetched when following cursors is an argument; the theorems ask for as many pages as the matching
  keys fill, which a reader that stops at the last cursor fetches. Lease tokens and versions are 64-bit words: the theorems
  on their growth assume a clock before \<open>2 ^ 62\<close> microseconds and fewer than \<open>2 ^ 60\<close> calls. Dates are
  proleptic Gregorian, in UTC, and durations wrap at 64 bits as in Go.
\<close>

section \<open>What is assumed and what is left out\<close>

text \<open>
  Parameters stand for code outside the repository or behind an interface: the hash of version tokens and
  of lease secrets, the rewriter of mentions, the stream of random characters, the failures of the
  key-value store, the read gate and the authorizer in front of a lease, the guard and the gate of a session
  branch. Where a theorem needs something of one of them, it is a hypothesis with a witness.

  Not modelled: the backends on files, SQLite and PostgreSQL, whose queries run in a database; decoding of YAML
  and JSON beyond what the lease document needs; the wording of messages, logging and audit; the
  expression languages, automation, scripts and the write path above the store; the wire and command
  surfaces. Of the access policy the linting against the metamodel, the gating of traversals and
  the reports are left out; of a channel its message log, presence and the leader's backoff.

  The model shows several places where the code does something other than it says. Each is a theorem or a
  lemma with the offending input: among them a rename of an entity to itself loses its rows, a permission
  allowlist of a client baseline widens a role that lists the wildcard, and a global read grant on one face hides
  the faces that a role on the entity reads.
\<close>

end
